(* ===== verification/Prelude.thy ===== *)
theory Prelude
  imports Main "HOL-Library.Word" "HOL-Library.Sublist"
begin

text \<open>
  Shared vocabulary of the development: the machine integers of the code (\<open>int\<close>,
  \<open>int64_t\<close>, bytes), the ways in which a server process can die
  (\<open>crash\<close>), the result type of every operation that can throw or abort
  (\<open>'a result\<close>) with its sequencing operator \<open>bindE\<close>, the few operations of the
  C++ standard library the sources use (\<open>std::vector::at\<close>, \<open>std::string::find\<close>
  and \<open>erase\<close>, \<open>std::filesystem::path\<close>), and generic lemmas about them.
\<close>

named_theorems result_simps \<open>inversion of sequenced operations that succeed or crash\<close>

section \<open>Machine integers\<close>

type_synonym i32 = "32 word"
type_synonym i64 = "64 word"
type_synonym byte = "8 word"

text \<open>
  The implicit conversions of C++20: \<open>int64_t\<close> to \<open>int\<close> keeps the low 32 bits,
  \<open>int\<close> to \<open>int64_t\<close> extends the sign, an integer converts to \<open>bool\<close> by
  comparison with zero.
\<close>

definition int_of_int64 :: "i64 \<Rightarrow> i32" where
  "int_of_int64 x = ucast x"

definition int64_of_int :: "i32 \<Rightarrow> i64" where
  "int64_of_int x = scast x"

definition bool_of_int :: "i32 \<Rightarrow> bool" where
  "bool_of_int x \<longleftrightarrow> x \<noteq> 0"

definition int_of_bool :: "bool \<Rightarrow> i32" where
  "int_of_bool b = (if b then 1 else 0)"

lemma bool_of_int_of_bool [simp]: "bool_of_int (int_of_bool b) = b"
  by (simp add: bool_of_int_def int_of_bool_def)

lemma int_of_int64_of_int [simp]: "int_of_int64 (int64_of_int x) = x"
  by (simp add: int_of_int64_def int64_of_int_def unsigned_ucast_eq signed_scast_eq bit_eq_iff
      bit_simps)

lemma sint_of_nat32: "n < 2 ^ 31 \<Longrightarrow> sint (of_nat n :: i32) = int n"
  by (simp add: signed_of_nat signed_take_bit_int_eq_self)

lemma unat_of_nat32: "n < 2 ^ 32 \<Longrightarrow> unat (of_nat n :: i32) = n"
  by (simp add: unsigned_of_nat take_bit_nat_eq_self)

lemma of_nat32_inj: "m < 2 ^ 32 \<Longrightarrow> n < 2 ^ 32 \<Longrightarrow> (of_nat m = (of_nat n :: i32)) \<longleftrightarrow> m = n"
  by (metis unat_of_nat32)

section \<open>Crashes and results\<close>

text \<open>
  How the process can end inside an operation: \<open>Out_of_range\<close> is
  \<open>std::out_of_range\<close> (thrown by \<open>at\<close> of a vector or a map),
  \<open>Bad_optional_access\<close> is thrown by \<open>std::optional::value\<close>, \<open>Assert_failed\<close>
  is a failed \<open>assert\<close> (the build never defines \<open>NDEBUG\<close>),
  \<open>Buffer_overflow\<close> is the exception of a serializer that runs past its buffer,
  \<open>Terminated\<close> is \<open>std::terminate\<close>, and \<open>Uninit_read\<close> marks the read of a
  member no constructor or assignment has set.
\<close>

datatype crash =
    Out_of_range
  | Bad_optional_access
  | Assert_failed
  | Buffer_overflow
  | Terminated
  | Uninit_read

type_synonym 'a result = "crash + 'a"

fun bindE :: "'a result \<Rightarrow> ('a \<Rightarrow> 'b result) \<Rightarrow> 'b result" where
  "bindE (Inl e) f = Inl e"
| "bindE (Inr x) f = f x"

definition assertE :: "bool \<Rightarrow> unit result" where
  "assertE b = (if b then Inr () else Inl Assert_failed)"

definition read_init :: "'a option \<Rightarrow> 'a result" where
  "read_init x = (case x of None \<Rightarrow> Inl Uninit_read | Some v \<Rightarrow> Inr v)"

lemma bindE_Inr_iff [result_simps]: "bindE m f = Inr y \<longleftrightarrow> (\<exists>x. m = Inr x \<and> f x = Inr y)"
  by (cases m) auto

lemma bindE_Inl_iff [result_simps]:
  "bindE m f = Inl e \<longleftrightarrow> m = Inl e \<or> (\<exists>x. m = Inr x \<and> f x = Inl e)"
  by (cases m) auto

lemma assertE_Inr_iff [result_simps]: "assertE b = Inr u \<longleftrightarrow> b"
  by (simp add: assertE_def)

lemma assertE_Inl_iff [result_simps]: "assertE b = Inl e \<longleftrightarrow> \<not> b \<and> e = Assert_failed"
  by (auto simp: assertE_def)

lemma assertE_simps [simp]: "assertE True = Inr ()" "assertE False = Inl Assert_failed"
  by (simp_all add: assertE_def)

lemma read_init_Inr_iff [result_simps]: "read_init x = Inr v \<longleftrightarrow> x = Some v"
  by (simp add: read_init_def split: option.split)

lemma read_init_Inl_iff [result_simps]: "read_init x = Inl e \<longleftrightarrow> x = None \<and> e = Uninit_read"
  by (auto simp: read_init_def split: option.split)

lemma read_init_Some [simp]: "read_init (Some v) = Inr v"
  by (simp add: read_init_def)

lemma result_cases: "(\<And>e. m = Inl e \<Longrightarrow> P) \<Longrightarrow> (\<And>x. m = Inr x \<Longrightarrow> P) \<Longrightarrow> P"
  by (cases m) auto

section \<open>Vectors and maps indexed with at\<close>

text \<open>
  \<open>std::vector::at\<close> with an \<open>int\<close> argument: a negative index converts to an
  unsigned value larger than any size, so it is out of range like one past the end.
\<close>

definition vec_at :: "'a list \<Rightarrow> i32 \<Rightarrow> 'a result" where
  "vec_at xs i =
     (if 0 \<le> sint i \<and> nat (sint i) < length xs then Inr (xs ! nat (sint i)) else Inl Out_of_range)"

definition vec_set :: "'a list \<Rightarrow> i32 \<Rightarrow> 'a \<Rightarrow> 'a list result" where
  "vec_set xs i x =
     (if 0 \<le> sint i \<and> nat (sint i) < length xs then Inr (xs[nat (sint i) := x]) else Inl Out_of_range)"

definition in_range :: "'a list \<Rightarrow> i32 \<Rightarrow> bool" where
  "in_range xs i \<longleftrightarrow> 0 \<le> sint i \<and> nat (sint i) < length xs"

definition map_at :: "('k \<rightharpoonup> 'v) \<Rightarrow> 'k \<Rightarrow> 'v result" where
  "map_at m k = (case m k of None \<Rightarrow> Inl Out_of_range | Some v \<Rightarrow> Inr v)"

lemma vec_at_Inr_iff [result_simps]:
  "vec_at xs i = Inr x \<longleftrightarrow> in_range xs i \<and> x = xs ! nat (sint i)"
  by (auto simp: vec_at_def in_range_def)

lemma vec_at_Inl_iff [result_simps]: "vec_at xs i = Inl e \<longleftrightarrow> \<not> in_range xs i \<and> e = Out_of_range"
  by (auto simp: vec_at_def in_range_def)

lemma vec_set_Inr_iff [result_simps]:
  "vec_set xs i x = Inr ys \<longleftrightarrow> in_range xs i \<and> ys = xs[nat (sint i) := x]"
  by (auto simp: vec_set_def in_range_def)

lemma vec_set_Inl_iff [result_simps]:
  "vec_set xs i x = Inl e \<longleftrightarrow> \<not> in_range xs i \<and> e = Out_of_range"
  by (auto simp: vec_set_def in_range_def)

lemma map_at_Inr_iff [result_simps]: "map_at m k = Inr v \<longleftrightarrow> m k = Some v"
  by (simp add: map_at_def split: option.split)

lemma map_at_Inl_iff [result_simps]: "map_at m k = Inl e \<longleftrightarrow> m k = None \<and> e = Out_of_range"
  by (auto simp: map_at_def split: option.split)

lemma map_at_Some [simp]: "m k = Some v \<Longrightarrow> map_at m k = Inr v"
  by (simp add: map_at_def)

lemma in_range_of_nat: "n < length xs \<Longrightarrow> n < 2 ^ 31 \<Longrightarrow> in_range xs (of_nat n)"
  by (simp add: in_range_def sint_of_nat32)

lemma in_range_length: "length xs = length ys \<Longrightarrow> in_range xs i = in_range ys i"
  by (simp add: in_range_def)

lemma in_range_append: "in_range xs i \<Longrightarrow> in_range (xs @ ys) i"
  by (simp add: in_range_def)

section \<open>Substring search and removal\<close>

text \<open>\<open>std::string::find\<close>: the least position at which the pattern occurs.\<close>

fun find_sub :: "'a list \<Rightarrow> 'a list \<Rightarrow> nat option" where
  "find_sub pat [] = (if pat = [] then Some 0 else None)"
| "find_sub pat (x # xs) =
     (if take (length pat) (x # xs) = pat then Some 0 else map_option Suc (find_sub pat xs))"

text \<open>\<open>std::string::erase (pos, n)\<close>.\<close>

definition erase_at :: "nat \<Rightarrow> nat \<Rightarrow> 'a list \<Rightarrow> 'a list" where
  "erase_at pos n xs = take pos xs @ drop (pos + n) xs"

lemma find_sub_prefix_skip:
  assumes "c \<notin> set xs"
  shows "find_sub (c # pat) (xs @ ys) = map_option (\<lambda>i. length xs + i) (find_sub (c # pat) ys)"
  using assms
proof (induction xs)
  case Nil
  then show ?case by (simp add: option.map_ident)
next
  case (Cons x xs)
  then show ?case by (auto simp: option.map_comp comp_def)
qed

lemma erase_at_append: "erase_at (length xs + i) n (xs @ ys) = xs @ erase_at i n ys"
  by (simp add: erase_at_def add.assoc)

lemma find_sub_Some_le: "find_sub pat xs = Some i \<Longrightarrow> i \<le> length xs"
  by (induction xs arbitrary: i) (auto split: if_splits)

end
