(* ===== verification/Runs.thy ===== *)
theory Runs
  imports Main
begin

text \<open>
  Runs of a step relation with labels, for every component whose threads or clients interleave: the labels of a run are its
  events in their order. An invariant is preserved by every step (locale \<open>step_invariant\<close>).
\<close>

inductive steps :: "('s \<Rightarrow> 'l \<Rightarrow> 's \<Rightarrow> bool) \<Rightarrow> 's \<Rightarrow> 'l list \<Rightarrow> 's \<Rightarrow> bool" for step x0 where
  steps_start: "steps step x0 [] x0"
| steps_more: "steps step x0 ls x \<Longrightarrow> step x l x' \<Longrightarrow> steps step x0 (ls @ [l]) x'"

inductive_cases steps_snocE: "steps step x (ls @ [l]) x'"

lemma steps_single: "step x l x' \<Longrightarrow> steps step x [l] x'"
  using steps_more [OF steps_start] by fastforce

lemma steps_append: "steps step x1 ls2 x2 \<Longrightarrow> steps step x0 ls1 x1 \<Longrightarrow> steps step x0 (ls1 @ ls2) x2"
proof (induction rule: steps.induct)
  case (steps_more ls x l x')
  then show ?case using steps.steps_more [of step x0 "ls1 @ ls" x l x'] by simp
qed simp

lemma steps_cons: "step x l x1 \<Longrightarrow> steps step x1 ls x2 \<Longrightarrow> steps step x (l # ls) x2"
  using steps_append [OF _ steps_single] by fastforce

lemma steps_nil_iff [simp]: "steps step x [] x' \<longleftrightarrow> x' = x"
  by (auto intro: steps_start elim: steps.cases)

lemma steps_snoc_iff: "steps step x (ls @ [l]) x' \<longleftrightarrow> (\<exists>y. steps step x ls y \<and> step y l x')"
  by (auto intro: steps_more elim: steps_snocE)

text \<open>A step as a function, for concrete steps.\<close>

fun exec_all :: "('l \<Rightarrow> 's \<Rightarrow> 's option) \<Rightarrow> 'l list \<Rightarrow> 's \<Rightarrow> 's option" where
  "exec_all f [] x = Some x"
| "exec_all f (l # ls) x = (case f l x of None \<Rightarrow> None | Some x' \<Rightarrow> exec_all f ls x')"

lemma exec_all_steps: "(\<And>l x x'. f l x = Some x' \<Longrightarrow> step x l x') \<Longrightarrow> exec_all f ls x = Some x' \<Longrightarrow> steps step x ls x'"
  proof (induction ls arbitrary: x)
  case (Cons l ls)
  then obtain x1 where "f l x = Some x1" "exec_all f ls x1 = Some x'" by (auto split: option.splits)
  then show ?case using Cons.IH [OF Cons.prems(1)] Cons.prems(1) steps_cons [of step] by metis
qed simp

locale step_invariant =
  fixes step :: "'s \<Rightarrow> 'l \<Rightarrow> 's \<Rightarrow> bool" and inv :: "'s \<Rightarrow> bool"
  assumes inv_step: "step x l x' \<Longrightarrow> inv x \<Longrightarrow> inv x'"
begin

lemma inv_run: "steps step x ls x' \<Longrightarrow> inv x \<Longrightarrow> inv x'"
  by (induction rule: steps.induct) (auto intro: inv_step)

end

end
