(* ===== verification/KAThread.thy ===== *)
theory KAThread
  imports Prelude Runs
begin

text \<open>
  The keep-alive thread of a session (\<open>Session.cpp\<close>, class \<open>KAThread\<close>): one per
  session on the leader. It holds the client's outstanding KeepAlive call (\<open>reactor_\<close>
  with its response \<open>res_\<close>, which are always set and cleared together and are one
  field here, the identity of the call), the queue of events to deliver, the counter that
  numbers events and the set of event numbers the client has acknowledged. Threads of
  other calls block in \<open>block_until_event_acked\<close>.

  Each method is a function on the thread's state; one iteration of the thread's loop is
  \<open>ka_wake\<close>, given what ended the wait. The interleaving of the thread with its callers is
  the step relation \<open>ka_step\<close>. \<open>event_id\<close> is not initialised by the constructor, so its
  first value is an argument of \<open>new_kathread\<close>. Counters wrap at 32 bits.
\<close>

record ka_thread =
  ka_sid :: i32
  cancelled :: bool
  reactor :: "nat option"
  event_queue :: "(i32 \<times> i32) list"
  event_id :: i32
  acked_events :: "i32 set"

definition new_kathread :: "i32 \<Rightarrow> i32 \<Rightarrow> ka_thread" where
  "new_kathread e0 sid = \<lparr>ka_sid = sid, cancelled = False, reactor = None, event_queue = [],
     event_id = e0, acked_events = {}\<rparr>"

definition ka_cancel :: "ka_thread \<Rightarrow> ka_thread" where
  "ka_cancel t = t\<lparr>cancelled := True\<rparr>"

text \<open>The destructor: when the last reference to a removed session goes, its thread is cancelled and joined.\<close>

definition ka_destroy :: "ka_thread \<Rightarrow> ka_thread" where
  "ka_destroy t = ka_cancel t"

definition ka_set_reactor :: "nat \<Rightarrow> i32 \<Rightarrow> ka_thread \<Rightarrow> ka_thread" where
  "ka_set_reactor r acked_eid t =
     t\<lparr>reactor := Some r, acked_events := insert acked_eid (acked_events t)\<rparr>"

definition ka_enqueue_event :: "i32 \<Rightarrow> ka_thread \<Rightarrow> i32 \<times> ka_thread" where
  "ka_enqueue_event fh t =
     (let new_eid = event_id t
      in (new_eid, t\<lparr>event_id := event_id t + 1, event_queue := event_queue t @ [(new_eid, fh)]\<rparr>))"

text \<open>\<open>block_until_event_acked\<close>: the condition under which the wait ends, and what follows it.\<close>

definition ka_unblocked :: "i32 \<Rightarrow> ka_thread \<Rightarrow> bool" where
  "ka_unblocked eid t \<longleftrightarrow> eid \<in> acked_events t \<or> cancelled t"

definition ka_block_return :: "i32 \<Rightarrow> ka_thread \<Rightarrow> ka_thread" where
  "ka_block_return eid t = t\<lparr>acked_events := acked_events t - {eid}\<rparr>"

text \<open>One iteration of the thread's loop, after \<open>wait_for\<close> returned.\<close>

datatype cv_status = Timeout | No_timeout

datatype ka_output =
    Nothing
  | Finish nat "(i32 \<times> i32) option"
  | Expire i32
  | Exited
  | Enqueued i32 i32
  | Returned i32

definition ka_wake :: "cv_status \<Rightarrow> ka_thread \<Rightarrow> ka_output \<times> ka_thread" where
  "ka_wake ret t =
     (if cancelled t then (Exited, t)
      else case reactor t of
        Some r \<Rightarrow>
          if ret = Timeout then (Finish r None, t\<lparr>reactor := None\<rparr>)
          else (case event_queue t of
                  [] \<Rightarrow> (Nothing, t)
                | ev # q \<Rightarrow> (Finish r (Some ev), t\<lparr>event_queue := q, reactor := None\<rparr>))
      | None \<Rightarrow>
          if ret = Timeout then (Expire (ka_sid t), ka_cancel t) else (Nothing, t))"

text \<open>A member that nothing calls.\<close>

definition ka_pop_event :: "ka_thread \<Rightarrow> (i32 \<times> ka_thread) result" where
  "ka_pop_event t =
     (case event_queue t of
        [] \<Rightarrow> Inl Assert_failed
      | (_, fh) # rest \<Rightarrow> Inr (fh, t\<lparr>event_queue := rest\<rparr>))"

section \<open>Interleaving\<close>

datatype ka_event = Keepalive nat i32 | Enqueue i32 | Wakeup cv_status | Unblock i32

inductive ka_step :: "ka_thread \<Rightarrow> ka_event \<Rightarrow> ka_output \<Rightarrow> ka_thread \<Rightarrow> bool" where
  keepalive: "ka_step t (Keepalive r a) Nothing (ka_set_reactor r a t)"
| enqueue: "ka_enqueue_event fh t = (eid, t') \<Longrightarrow> ka_step t (Enqueue fh) (Enqueued eid fh) t'"
| wakeup: "ka_wake ret t = (out, t') \<Longrightarrow> ka_step t (Wakeup ret) out t'"
| unblock: "ka_unblocked eid t \<Longrightarrow> ka_step t (Unblock eid) (Returned eid) (ka_block_return eid t)"

inductive_cases ka_keepaliveE: "ka_step t (Keepalive r a) out t'"
inductive_cases ka_enqueueE: "ka_step t (Enqueue fh) out t'"
inductive_cases ka_wakeupE: "ka_step t (Wakeup ret) out t'"
inductive_cases ka_unblockE: "ka_step t (Unblock eid) out t'"

inductive_simps ka_step_unblock: "ka_step t (Unblock eid) out t'"

type_synonym ka_trace = "(ka_event \<times> ka_output) list"

abbreviation ka_run :: "ka_thread \<Rightarrow> ka_trace \<Rightarrow> ka_thread \<Rightarrow> bool" where
  "ka_run \<equiv> steps (\<lambda>t (ev, out) t'. ka_step t ev out t')"

lemma ka_run_more: "ka_run t0 tr t \<Longrightarrow> ka_step t ev out t' \<Longrightarrow> ka_run t0 (tr @ [(ev, out)]) t'"
  by (rule steps_more) auto

lemma ka_run_induct [consumes 1, case_names run_start run_step]:
  assumes "ka_run t0 tr t" and "P [] t0"
    and "\<And>tr t ev out t'. ka_run t0 tr t \<Longrightarrow> P tr t \<Longrightarrow> ka_step t ev out t' \<Longrightarrow> P (tr @ [(ev, out)]) t'"
  shows "P tr t"
  using assms by (induction rule: steps.induct) auto

text \<open>What a trace enqueued, delivered and acknowledged.\<close>

fun enqueued :: "ka_trace \<Rightarrow> (i32 \<times> i32) list" where
  "enqueued [] = []"
| "enqueued ((_, Enqueued eid fh) # tr) = (eid, fh) # enqueued tr"
| "enqueued (_ # tr) = enqueued tr"

fun delivered :: "ka_trace \<Rightarrow> (i32 \<times> i32) list" where
  "delivered [] = []"
| "delivered ((_, Finish r (Some ev)) # tr) = ev # delivered tr"
| "delivered (_ # tr) = delivered tr"

fun acks :: "ka_trace \<Rightarrow> i32 set" where
  "acks [] = {}"
| "acks ((Keepalive r a, _) # tr) = insert a (acks tr)"
| "acks (_ # tr) = acks tr"

lemma enqueued_append: "enqueued (tr @ tr') = enqueued tr @ enqueued tr'"
  by (induction tr rule: enqueued.induct) auto

lemma delivered_append: "delivered (tr @ tr') = delivered tr @ delivered tr'"
  by (induction tr rule: delivered.induct) auto

lemma acks_append: "acks (tr @ tr') = acks tr \<union> acks tr'"
  by (induction tr rule: acks.induct) auto

lemmas ka_defs = ka_cancel_def ka_set_reactor_def ka_enqueue_event_def ka_unblocked_def
  ka_block_return_def ka_wake_def Let_def

section \<open>Invariants of every interleaving\<close>

lemma ka_step_queue:
  "ka_step t ev out t' \<Longrightarrow>
   event_queue t @ enqueued [(ev, out)] = delivered [(ev, out)] @ event_queue t'"
  by (induction rule: ka_step.induct)
    (auto simp: ka_defs split: if_splits option.splits list.splits)

lemma ka_step_ids:
  "ka_step t ev out t' \<Longrightarrow>
   event_id t' = event_id t + of_nat (length (enqueued [(ev, out)])) \<and>
   (enqueued [(ev, out)] = [] \<or> (\<exists>fh. enqueued [(ev, out)] = [(event_id t, fh)]))"
  by (induction rule: ka_step.induct)
    (auto simp: ka_defs split: if_splits option.splits list.splits)

lemma ka_step_acked:
  "ka_step t ev out t' \<Longrightarrow> acked_events t' \<subseteq> acked_events t \<union> acks [(ev, out)]"
  by (induction rule: ka_step.induct)
    (auto simp: ka_defs split: if_splits option.splits list.splits)

lemma ka_step_cancelled: "ka_step t ev out t' \<Longrightarrow> cancelled t \<Longrightarrow> cancelled t'"
  by (induction rule: ka_step.induct) (auto simp: ka_defs)

lemma ka_step_sid: "ka_step t ev out t' \<Longrightarrow> ka_sid t' = ka_sid t"
  by (induction rule: ka_step.induct)
    (auto simp: ka_defs split: if_splits option.splits list.splits)

lemma ka_step_expire:
  "ka_step t ev (Expire s) t' \<Longrightarrow> \<not> cancelled t \<and> cancelled t' \<and> reactor t = None \<and> s = ka_sid t"
  by (induction t ev "Expire s" t' rule: ka_step.induct)
    (auto simp: ka_defs split: if_splits option.splits list.splits)

lemma ka_run_queue:
  "ka_run t0 tr t \<Longrightarrow> event_queue t0 = [] \<Longrightarrow> enqueued tr = delivered tr @ event_queue t"
proof (induction rule: ka_run_induct)
  case run_start
  then show ?case by simp
next
  case (run_step tr t ev out t')
  then show ?case
    using ka_step_queue [OF run_step.hyps(2)] by (simp add: enqueued_append delivered_append)
qed

lemma ka_run_ids:
  "ka_run t0 tr t \<Longrightarrow>
   event_id t = event_id t0 + of_nat (length (enqueued tr)) \<and>
   map fst (enqueued tr) = map (\<lambda>i. event_id t0 + of_nat i) [0..<length (enqueued tr)]"
proof (induction rule: ka_run_induct)
  case run_start
  then show ?case by simp
next
  case (run_step tr t ev out t')
  then show ?case
    using ka_step_ids [OF run_step.hyps(2)] by (auto simp: enqueued_append)
qed

lemma ka_run_acked: "ka_run t0 tr t \<Longrightarrow> acked_events t \<subseteq> acked_events t0 \<union> acks tr"
proof (induction rule: ka_run_induct)
  case run_start
  then show ?case by simp
next
  case (run_step tr t ev out t')
  then show ?case
    using ka_step_acked [OF run_step.hyps(2)] by (auto simp: acks_append)
qed

lemma ka_run_expired:
  "ka_run t0 tr t \<Longrightarrow> \<not> cancelled t0 \<Longrightarrow>
   length (filter (\<lambda>(ev, out). \<exists>s. out = Expire s) tr) = (if cancelled t then 1 else 0)"
proof (induction rule: ka_run_induct)
  case run_start
  then show ?case by simp
next
  case (run_step tr t ev out t')
  have "cancelled t' \<longleftrightarrow> cancelled t \<or> (\<exists>s. out = Expire s)"
    using run_step.hyps(2)
    by (induction rule: ka_step.induct)
      (auto simp: ka_defs split: if_splits option.splits list.splits)
  moreover have "\<exists>s. out = Expire s \<Longrightarrow> \<not> cancelled t"
    using ka_step_expire run_step.hyps(2) by blast
  ultimately show ?case using run_step by auto
qed

lemma ka_run_sid: "ka_run t0 tr t \<Longrightarrow> ka_sid t = ka_sid t0"
  by (induction rule: ka_run_induct) (auto dest: ka_step_sid)

lemma ka_run_expire_list:
  "ka_run t0 tr t \<Longrightarrow> \<not> cancelled t0 \<Longrightarrow>
   filter (\<lambda>out. \<exists>s. out = Expire s) (map snd tr) = (if cancelled t then [Expire (ka_sid t0)] else [])"
proof (induction rule: ka_run_induct)
  case run_start
  then show ?case by simp
next
  case (run_step tr t ev out t')
  have "cancelled t' \<longleftrightarrow> cancelled t \<or> (\<exists>s. out = Expire s)"
    using run_step.hyps(2)
    by (induction rule: ka_step.induct)
      (auto simp: ka_defs split: if_splits option.splits list.splits)
  moreover have "out = Expire s \<Longrightarrow> \<not> cancelled t \<and> s = ka_sid t0" for s
    using ka_step_expire run_step.hyps ka_run_sid by blast
  ultimately show ?case using run_step by auto
qed

lemma ka_run_expire_sid: "ka_run t0 tr t \<Longrightarrow> \<not> cancelled t0 \<Longrightarrow> (ev, Expire s) \<in> set tr \<Longrightarrow> s = ka_sid t0"
proof -
  assume "ka_run t0 tr t" "\<not> cancelled t0" "(ev, Expire s) \<in> set tr"
  then have "Expire s \<in> set (filter (\<lambda>out. \<exists>s. out = Expire s) (map snd tr))" by force
  then show ?thesis using ka_run_expire_list [OF \<open>ka_run t0 tr t\<close> \<open>\<not> cancelled t0\<close>] by (auto split: if_splits)
qed

section \<open>Delivery by successive keep-alive calls\<close>

text \<open>
  A client that keeps sending KeepAlive calls, each arriving before the thread's wake-up:
  \<open>ka_rounds\<close> runs one set_reactor and one wake-up per call.
\<close>

fun ka_rounds :: "(nat \<times> i32) list \<Rightarrow> ka_thread \<Rightarrow> ka_output list \<times> ka_thread" where
  "ka_rounds [] t = ([], t)"
| "ka_rounds ((r, a) # cs) t =
     (let (out, t1) = ka_wake No_timeout (ka_set_reactor r a t);
          (outs, t2) = ka_rounds cs t1
      in (out # outs, t2))"

lemma ka_rounds_deliver:
  "\<not> cancelled t \<Longrightarrow> length cs \<le> length (event_queue t) \<Longrightarrow> ka_rounds cs t = (outs, t') \<Longrightarrow>
   outs = map (\<lambda>((r, a), ev). Finish r (Some ev)) (zip cs (event_queue t)) \<and>
   event_queue t' = drop (length cs) (event_queue t)"
proof (induction cs arbitrary: t outs t')
  case Nil
  then show ?case by simp
next
  case (Cons c cs)
  obtain r a where c: "c = (r, a)" by (cases c)
  obtain ev q where q: "event_queue t = ev # q" using Cons.prems(2) by (cases "event_queue t") auto
  let ?t1 = "t\<lparr>reactor := None, acked_events := insert a (acked_events t), event_queue := q\<rparr>"
  have w: "ka_wake No_timeout (ka_set_reactor r a t) = (Finish r (Some ev), ?t1)"
    using Cons.prems(1) q by (simp add: ka_defs)
  obtain outs2 t2 where r2: "ka_rounds cs ?t1 = (outs2, t2)" by (cases "ka_rounds cs ?t1")
  have "outs2 = map (\<lambda>((r, a), ev). Finish r (Some ev)) (zip cs q) \<and> event_queue t2 = drop (length cs) q"
    using Cons.IH [OF _ _ r2] Cons.prems q by simp
  then show ?case using Cons.prems(3) c w r2 q by auto
qed

section \<open>Properties\<close>

text \<open>A run of the thread: an event before the first call, two calls, an acknowledgement, a timeout.\<close>

definition ka_demo :: ka_trace where
  "ka_demo = [(Enqueue 3, Enqueued 7 3), (Keepalive 1 (-1), Nothing), (Wakeup No_timeout, Finish 1 (Some (7, 3))),
     (Keepalive 2 7, Nothing), (Wakeup Timeout, Finish 2 None), (Wakeup Timeout, Expire 4)]"

lemma ka_demo_run:
  "ka_run (new_kathread 7 4) ka_demo \<lparr>ka_sid = 4, cancelled = True, reactor = None, event_queue = [],
     event_id = 8, acked_events = {7, -1}\<rparr>"
proof -
  have "ka_run (new_kathread 7 4) [(Enqueue 3, Enqueued 7 3)]
      \<lparr>ka_sid = 4, cancelled = False, reactor = None, event_queue = [(7, 3)], event_id = 8, acked_events = {}\<rparr>"
    using ka_run_more [OF steps_start enqueue, of 3 "new_kathread 7 4"]
    by (simp add: ka_defs new_kathread_def)
  from ka_run_more [OF this keepalive, of 1 "-1"]
  have "ka_run (new_kathread 7 4) [(Enqueue 3, Enqueued 7 3), (Keepalive 1 (-1), Nothing)]
      \<lparr>ka_sid = 4, cancelled = False, reactor = Some 1, event_queue = [(7, 3)], event_id = 8, acked_events = {-1}\<rparr>"
    by (simp add: ka_defs)
  from ka_run_more [OF this wakeup, of No_timeout]
  have "ka_run (new_kathread 7 4) [(Enqueue 3, Enqueued 7 3), (Keepalive 1 (-1), Nothing),
       (Wakeup No_timeout, Finish 1 (Some (7, 3)))]
      \<lparr>ka_sid = 4, cancelled = False, reactor = None, event_queue = [], event_id = 8, acked_events = {-1}\<rparr>"
    by (simp add: ka_defs)
  from ka_run_more [OF ka_run_more [OF this keepalive, of 2 7] wakeup, of Timeout]
  have "ka_run (new_kathread 7 4) [(Enqueue 3, Enqueued 7 3), (Keepalive 1 (-1), Nothing),
       (Wakeup No_timeout, Finish 1 (Some (7, 3))), (Keepalive 2 7, Nothing), (Wakeup Timeout, Finish 2 None)]
      \<lparr>ka_sid = 4, cancelled = False, reactor = None, event_queue = [], event_id = 8, acked_events = {7, -1}\<rparr>"
    by (simp add: ka_defs)
  from ka_run_more [OF this wakeup, of Timeout] show ?thesis by (simp add: ka_defs ka_demo_def)
qed



text \<open>
  A waiting notifier returns only for a reason. A call of \<open>block_until_event_acked\<close> for an
  event number returns only after a KeepAlive that acknowledged this number, or after the session's
  expiry callback was called.
\<close>

theorem unblocked_by_ack_or_expiry:
  assumes "ka_run (new_kathread e0 sid) tr t" and "ka_step t (Unblock eid) out t'"
  shows "eid \<in> acks tr \<or> (\<exists>ev. (ev, Expire sid) \<in> set tr)"
proof (cases "cancelled t")
  case True
  then have "length (filter (\<lambda>(ev, out). \<exists>s. out = Expire s) tr) \<noteq> 0"
    using ka_run_expired [OF assms(1)] by (simp add: new_kathread_def)
  then obtain ev s where es: "(ev, Expire s) \<in> set tr" by (auto simp: filter_empty_conv)
  then show ?thesis using ka_run_expire_sid [OF assms(1)] by (auto simp: new_kathread_def)
next
  case False
  then have "eid \<in> acked_events t" using assms(2) by (simp add: ka_step_unblock ka_unblocked_def)
  then show ?thesis using ka_run_acked [OF assms(1)] by (auto simp: new_kathread_def)
qed

theorem unblocked_by_ack_or_expiry_witness:
  "(7 :: i32) \<in> acks ka_demo \<or> (\<exists>ev. (ev, Expire 4) \<in> set ka_demo)"
  by (rule unblocked_by_ack_or_expiry [OF ka_demo_run unblock]) (simp add: ka_unblocked_def)

text \<open>
  A session expires at most once. Over every interleaving the expiry callback is called
  once if the thread is cancelled and never otherwise, always with the session's own number.
\<close>

theorem expires_at_most_once:
  assumes "ka_run (new_kathread e0 sid) tr t"
  shows "filter (\<lambda>out. \<exists>s. out = Expire s) (map snd tr) = (if cancelled t then [Expire sid] else [])"
  using ka_run_expire_list [OF assms] by (simp add: new_kathread_def)

theorem expires_at_most_once_witness:
  "filter (\<lambda>out. \<exists>s. out = Expire s) (map snd ka_demo) = (if True then [Expire 4] else [])"
  using expires_at_most_once [OF ka_demo_run] by simp

text \<open>
  A client that keeps calling gets every event. With \<open>n\<close> events queued and no more than
  \<open>n\<close> successive KeepAlive calls, each of which finds the thread waiting, call \<open>i\<close> is
  finished with event \<open>i\<close>, and the other events stay queued.
\<close>

theorem keepalives_drain_queue:
  assumes "\<not> cancelled t" and "length cs \<le> length (event_queue t)" and "ka_rounds cs t = (outs, t')"
  shows "outs = map (\<lambda>((r, a), ev). Finish r (Some ev)) (zip cs (event_queue t)) \<and>
    event_queue t' = drop (length cs) (event_queue t)"
  using assms by (rule ka_rounds_deliver)

theorem keepalives_drain_queue_witness:
  "[Finish 1 (Some (7, 3)), Finish 2 (Some (8, 5))] =
     map (\<lambda>((r, a), ev). Finish r (Some ev)) (zip [(1, -1), (2, 7 :: i32)] [(7, 3), (8 :: i32, 5 :: i32)]) \<and>
   [] = drop (length [(1, -1), (2 :: nat, 7 :: i32)]) [(7, 3), (8 :: i32, 5 :: i32)]"
  using keepalives_drain_queue [of "(new_kathread 9 4)\<lparr>event_queue := [(7, 3), (8, 5)]\<rparr>" "[(1, -1), (2, 7)]"]
  by (simp add: new_kathread_def ka_defs)

end
