(* ===== verification/Session.thy ===== *)
theory Session
  imports KAThread
begin

text \<open>
  The session database (\<open>Session.cpp\<close>, classes \<open>Entry\<close> and \<open>Db\<close>). An entry keeps,
  for each handle, the path it was opened with (\<open>v\<close>) and the instance number of the file at
  that time (\<open>inum\<close>, -1 once the handle is closed), and on the leader its keep-alive
  thread. The database maps session ids to entries. Entries are shared objects of the code:
  an operation on an entry is written back under its id.

  The locale \<open>session_store\<close> is what the state machine relies on: lookup after insertion,
  update and deletion. \<open>Db\<close> interprets it.
\<close>

record entry =
  entry_id :: i32
  entry_v :: "string list"
  entry_inum :: "i32 list"
  kathread :: "ka_thread option"

definition new_entry :: "i32 \<Rightarrow> entry" where
  "new_entry sid = \<lparr>entry_id = sid, entry_v = [], entry_inum = [], kathread = None\<rparr>"

definition entry_start_kathread :: "i32 \<Rightarrow> entry \<Rightarrow> entry" where
  "entry_start_kathread e0 e = e\<lparr>kathread := Some (new_kathread e0 (entry_id e))\<rparr>"

definition add_new_handle :: "string \<Rightarrow> i32 \<Rightarrow> entry \<Rightarrow> i32 \<times> entry" where
  "add_new_handle path instance_num e =
     (let e' = e\<lparr>entry_v := entry_v e @ [path], entry_inum := entry_inum e @ [instance_num]\<rparr>
      in (of_nat (length (entry_v e') - 1), e'))"

definition close_handle :: "i32 \<Rightarrow> entry \<Rightarrow> entry result" where
  "close_handle fh e =
     bindE (vec_set (entry_inum e) fh (-1)) (\<lambda>inum. Inr (e\<lparr>entry_inum := inum\<rparr>))"

definition handle_count :: "entry \<Rightarrow> i32" where
  "handle_count e = of_nat (length (entry_v e))"

definition handle_inum :: "i32 \<Rightarrow> entry \<Rightarrow> i32 result" where
  "handle_inum fh e = vec_at (entry_inum e) fh"

definition fh_to_key :: "i32 \<Rightarrow> entry \<Rightarrow> string result" where
  "fh_to_key fh e = vec_at (entry_v e) fh"

definition entry_enqueue_event :: "i32 \<Rightarrow> entry \<Rightarrow> i32 option \<times> entry" where
  "entry_enqueue_event fh e =
     (case kathread e of
        Some t \<Rightarrow> (let (eid, t') = ka_enqueue_event fh t in (Some eid, e\<lparr>kathread := Some t'\<rparr>))
      | None \<Rightarrow> (None, e))"

definition entry_set_reactor :: "nat \<Rightarrow> i32 \<Rightarrow> entry \<Rightarrow> entry" where
  "entry_set_reactor r acked_eid e =
     (case kathread e of
        Some t \<Rightarrow> e\<lparr>kathread := Some (ka_set_reactor r acked_eid t)\<rparr>
      | None \<Rightarrow> e)"

text \<open>
  \<open>block_until_event_acked\<close> of an entry: it returns at once when there is no thread, and
  otherwise when the thread's wait ends.
\<close>

definition entry_unblocked :: "i32 \<Rightarrow> entry \<Rightarrow> bool" where
  "entry_unblocked eid e = (case kathread e of Some t \<Rightarrow> ka_unblocked eid t | None \<Rightarrow> True)"

definition entry_block_return :: "i32 \<Rightarrow> entry \<Rightarrow> entry" where
  "entry_block_return eid e =
     (case kathread e of
        Some t \<Rightarrow> e\<lparr>kathread := Some (ka_block_return eid t)\<rparr>
      | None \<Rightarrow> e)"

section \<open>The database\<close>

record db =
  session_db :: "i32 \<rightharpoonup> entry"
  next_id :: i32

definition empty_db :: db where
  "empty_db = \<lparr>session_db = Map.empty, next_id = 0\<rparr>"

definition create_session :: "db \<Rightarrow> entry \<times> db" where
  "create_session d =
     (let session = new_entry (next_id d)
      in (session, d\<lparr>next_id := next_id d + 1,
            session_db := (session_db d)(entry_id session \<mapsto> session)\<rparr>))"

definition find_session :: "i32 \<Rightarrow> db \<Rightarrow> entry option" where
  "find_session sid d = session_db d sid"

definition put_session :: "i32 \<Rightarrow> entry \<Rightarrow> db \<Rightarrow> db" where
  "put_session sid session d = d\<lparr>session_db := (session_db d)(sid \<mapsto> session)\<rparr>"

definition delete_session :: "i32 \<Rightarrow> db \<Rightarrow> db result" where
  "delete_session sid d =
     bindE (assertE (session_db d sid \<noteq> None)) (\<lambda>_.
       Inr (d\<lparr>session_db := (session_db d)(sid := None)\<rparr>))"

definition db_start_kathread :: "(i32 \<Rightarrow> i32) \<Rightarrow> db \<Rightarrow> db" where
  "db_start_kathread e0 d =
     d\<lparr>session_db := (\<lambda>sid. map_option (entry_start_kathread (e0 sid)) (session_db d sid))\<rparr>"

section \<open>The store the other components see\<close>

locale session_store =
  fixes find :: "'k \<Rightarrow> 'd \<Rightarrow> 'e option"
    and put :: "'k \<Rightarrow> 'e \<Rightarrow> 'd \<Rightarrow> 'd"
    and del :: "'k \<Rightarrow> 'd \<Rightarrow> 'd result"
  assumes find_put: "find j (put k e d) = (if j = k then Some e else find j d)"
    and del_found: "find k d = Some e \<Longrightarrow> \<exists>d'. del k d = Inr d'"
    and find_del: "del k d = Inr d' \<Longrightarrow> find j d' = (if j = k then None else find j d)"
begin

lemma find_put_same [simp]: "find k (put k e d) = Some e"
  by (simp add: find_put)

lemma find_put_other: "j \<noteq> k \<Longrightarrow> find j (put k e d) = find j d"
  by (simp add: find_put)

lemma put_put_find: "find j (put k e (put k e' d)) = find j (put k e d)"
  by (simp add: find_put)

lemma put_then_del: "del k (put k e d) = Inr d' \<Longrightarrow> find k d' = None \<and> (j \<noteq> k \<longrightarrow> find j d' = find j d)"
  by (simp add: find_del find_put)

lemma del_never_fails: "find k d \<noteq> None \<Longrightarrow> \<exists>d'. del k d = Inr d' \<and> find k d' = None"
  using del_found find_del by (metis not_None_eq)

end

interpretation db: session_store find_session put_session delete_session
  by unfold_locales
    (auto simp: find_session_def put_session_def delete_session_def result_simps assertE_def)

lemma find_create_session:
  "create_session d = (e, d') \<Longrightarrow>
   e = new_entry (next_id d) \<and>
   find_session j d' = (if j = next_id d then Some e else find_session j d)"
  by (auto simp: create_session_def find_session_def new_entry_def Let_def)

section \<open>Handles\<close>

definition handle_open :: "entry \<Rightarrow> i32 \<Rightarrow> bool" where
  "handle_open e fh \<longleftrightarrow> in_range (entry_inum e) fh \<and> entry_inum e ! nat (sint fh) \<noteq> -1"

lemma handle_inum_open: "handle_inum fh e = Inr n \<Longrightarrow> n \<noteq> -1 \<longleftrightarrow> handle_open e fh"
  by (auto simp: handle_inum_def handle_open_def result_simps)

lemma add_new_handle_lookup:
  assumes "add_new_handle path n e = (fh, e')"
    and "length (entry_v e) < 2 ^ 31 - 1" and "length (entry_inum e) = length (entry_v e)"
  shows "fh_to_key fh e' = Inr path" and "handle_inum fh e' = Inr n"
    and "in_range (entry_v e) g \<Longrightarrow> fh_to_key g e' = fh_to_key g e \<and> handle_inum g e' = handle_inum g e"
  using assms
  by (auto simp: add_new_handle_def Let_def fh_to_key_def handle_inum_def vec_at_def sint_of_nat32
      in_range_def nth_append)

lemma close_handle_closed:
  "close_handle fh e = Inr e' \<Longrightarrow> handle_inum fh e' = Inr (-1) \<and> \<not> handle_open e' fh"
  by (auto simp: close_handle_def handle_inum_def handle_open_def result_simps in_range_def)

lemma close_handle_frame:
  "close_handle fh e = Inr e' \<Longrightarrow>
   entry_v e' = entry_v e \<and> entry_id e' = entry_id e \<and> kathread e' = kathread e \<and>
   length (entry_inum e') = length (entry_inum e)"
  by (auto simp: close_handle_def result_simps)

lemma close_handle_other:
  "close_handle fh e = Inr e' \<Longrightarrow> in_range (entry_inum e) g \<Longrightarrow> g \<noteq> fh \<Longrightarrow> handle_inum g e' = handle_inum g e"
  by (auto simp: close_handle_def handle_inum_def vec_at_def result_simps in_range_def nth_list_update
      sint_word_ariths nat_eq_iff dest: signed_word_eqI)

lemma enqueue_event_frame:
  "entry_enqueue_event fh e = (r, e') \<Longrightarrow>
   entry_v e' = entry_v e \<and> entry_id e' = entry_id e \<and> entry_inum e' = entry_inum e"
  by (auto simp: entry_enqueue_event_def split: option.splits prod.splits)

end
