(* ===== verification/Paths.thy ===== *)
theory Paths
  imports Prelude
begin

text \<open>
  What the sources use of \<open>std::filesystem::path\<close> (POSIX, libstdc++):
  \<open>filename\<close> is the text after the last slash; \<open>parent_path\<close> of a path without a
  relative part (only slashes, or empty) is the path itself, otherwise the last component
  and the slashes before it are cut, the root directory remaining as one slash. A path
  equals the root path when it has no component besides slashes.
\<close>

definition is_slash :: "char \<Rightarrow> bool" where
  "is_slash c \<longleftrightarrow> c = CHR ''/''"

definition filename :: "string \<Rightarrow> string" where
  "filename p = rev (takeWhile (\<lambda>c. \<not> is_slash c) (rev p))"

definition strip_filename :: "string \<Rightarrow> string" where
  "strip_filename p = rev (dropWhile (\<lambda>c. \<not> is_slash c) (rev p))"

definition strip_slashes :: "string \<Rightarrow> string" where
  "strip_slashes p = rev (dropWhile is_slash (rev p))"

definition parent_path :: "string \<Rightarrow> string" where
  "parent_path p =
     (if list_all is_slash p then p
      else if strip_filename p = [] then []
      else if strip_slashes (strip_filename p) = [] then ''/''
      else strip_slashes (strip_filename p))"

definition is_root_path :: "string \<Rightarrow> bool" where
  "is_root_path p \<longleftrightarrow> p \<noteq> [] \<and> list_all is_slash p"

lemma filename_no_slash: "CHR ''/'' \<notin> set (filename p)"
  by (auto simp: filename_def is_slash_def dest: set_takeWhileD)

lemma filename_child: "CHR ''/'' \<notin> set n \<Longrightarrow> filename (d @ CHR ''/'' # n) = n"
  by (auto simp: filename_def is_slash_def takeWhile_append)

lemma strip_filename_child: "CHR ''/'' \<notin> set n \<Longrightarrow> strip_filename (d @ CHR ''/'' # n) = d @ ''/''"
  by (auto simp: strip_filename_def is_slash_def dropWhile_append)

lemma not_all_slash: "CHR ''/'' \<notin> set n \<Longrightarrow> n \<noteq> [] \<Longrightarrow> \<not> list_all is_slash (d @ CHR ''/'' # n)"
  by (cases n) (auto simp: is_slash_def)

lemma strip_slashes_snoc:
  "d \<noteq> [] \<Longrightarrow> last d \<noteq> CHR ''/'' \<Longrightarrow> strip_slashes (d @ ''/'') = d"
  by (cases d rule: rev_cases) (auto simp: strip_slashes_def is_slash_def)

lemma parent_path_child:
  assumes "CHR ''/'' \<notin> set n" and "n \<noteq> []" and "d \<noteq> []" and "last d \<noteq> CHR ''/''"
  shows "parent_path (d @ CHR ''/'' # n) = d"
  using assms by (simp add: parent_path_def strip_filename_child not_all_slash strip_slashes_snoc
      del: list_all_append)

lemma parent_path_top:
  assumes "CHR ''/'' \<notin> set n" and "n \<noteq> []"
  shows "parent_path (CHR ''/'' # n) = ''/''"
proof -
  have "strip_filename (CHR ''/'' # n) = ''/''" "\<not> list_all is_slash (CHR ''/'' # n)"
    using strip_filename_child [of n "[]"] not_all_slash [of n "[]"] assms by auto
  then show ?thesis by (simp only: parent_path_def) (simp add: strip_slashes_def is_slash_def)
qed

lemma parent_path_all_slash: "list_all is_slash p \<Longrightarrow> parent_path p = p"
  by (simp add: parent_path_def)

lemma parent_path_root [simp]: "parent_path ''/'' = ''/''"
  by (simp add: parent_path_def is_slash_def)

lemma strip_filename_length: "length (strip_filename p) \<le> length p"
  using length_dropWhile_le [of "\<lambda>c. \<not> is_slash c" "rev p"] by (simp add: strip_filename_def)

lemma strip_slashes_length: "length (strip_slashes p) \<le> length p"
  using length_dropWhile_le [of is_slash "rev p"] by (simp add: strip_slashes_def)

lemma parent_path_length: "length (parent_path p) \<le> length p"
proof (cases "strip_filename p = []")
  case False
  then have "1 \<le> length (strip_filename p)" by (cases "strip_filename p") auto
  then have "1 \<le> length p" using strip_filename_length [of p] by linarith
  moreover have "length (strip_slashes (strip_filename p)) \<le> length p"
    using strip_slashes_length [of "strip_filename p"] strip_filename_length [of p] by linarith
  ultimately show ?thesis by (simp add: parent_path_def)
qed (simp add: parent_path_def)

end
