(* ===== verification/Data_Store.thy ===== *)
theory Data_Store
  imports Paths "HOL-Library.AList"
begin

text \<open>
  The file data store (\<open>utils.h\<close>): per path the metadata \<open>FileMetaData\<close> and the
  content. Members the constructor leaves uninitialised (\<open>is_locked_ex\<close>,
  \<open>is_ephemeral\<close>) are optional values; the mutex and the condition variable carry no data.
  \<open>subscribers\<close> is an association list, in the unspecified order of the hash map.

  Two groups of operations on one entry of the store follow: the advisory reader/writer
  lock kept in the metadata (the bodies of \<open>apply_ (AcqAction)\<close> and of
  \<open>release_lock\<close>), which interprets the locale \<open>rw_lock\<close>, and the listing of the
  children of a directory kept in its content as zero-terminated-in-front names.
\<close>

record file_meta =
  lock_owners :: "i32 set"
  is_locked_ex :: "bool option"
  subscribers :: "(i32 \<times> i32) list"
  file_exists :: bool
  instance_num :: i32
  content_gen_num :: i32
  lock_gen_num :: i32
  is_directory :: bool
  is_ephemeral :: "bool option"

definition new_file_meta :: file_meta where
  "new_file_meta = \<lparr>lock_owners = {}, is_locked_ex = None, subscribers = [], file_exists = False,
     instance_num = 0, content_gen_num = 0, lock_gen_num = 0, is_directory = False,
     is_ephemeral = None\<rparr>"

type_synonym data_store = "string \<rightharpoonup> file_meta \<times> string"

definition subscribed :: "file_meta \<Rightarrow> i32 \<rightharpoonup> i32" where
  "subscribed m = map_of (subscribers m)"

section \<open>The advisory lock\<close>

text \<open>
  A try-acquire on the metadata: granted or not, with the new metadata. The shared branch
  reads \<open>is_locked_ex\<close> only when the lock has an owner.
\<close>

definition meta_acquire :: "bool \<Rightarrow> i32 \<Rightarrow> file_meta \<Rightarrow> (bool \<times> file_meta) result" where
  "meta_acquire ex sid m =
     (if ex then
        (if lock_owners m = {} then
           Inr (True, m\<lparr>lock_owners := insert sid (lock_owners m), is_locked_ex := Some True,
                 lock_gen_num := lock_gen_num m + 1\<rparr>)
         else Inr (False, m))
      else
        bindE (if lock_owners m = {} then Inr False else read_init (is_locked_ex m)) (\<lambda>locked_ex.
          if lock_owners m = {} \<or> \<not> locked_ex then
            (let m1 = (if lock_owners m = {} then
                         m\<lparr>is_locked_ex := Some False, lock_gen_num := lock_gen_num m + 1\<rparr>
                       else m)
             in Inr (True, m1\<lparr>lock_owners := insert sid (lock_owners m1)\<rparr>))
          else Inr (False, m)))"

definition meta_release :: "i32 \<Rightarrow> file_meta \<Rightarrow> bool \<times> file_meta" where
  "meta_release sid m = (sid \<in> lock_owners m, m\<lparr>lock_owners := lock_owners m - {sid}\<rparr>)"

text \<open>The metadata part of \<open>apply_ (DeleteAction)\<close>, which drops every owner.\<close>

definition meta_delete :: "file_meta \<Rightarrow> file_meta" where
  "meta_delete m = m\<lparr>file_exists := False, instance_num := instance_num m + 1,
     content_gen_num := 0, lock_gen_num := 0, lock_owners := {}\<rparr>"

text \<open>The abstract lock these operations implement.\<close>

datatype rw_state = Free | Shared "i32 set" | Exclusive i32

definition lock_wf :: "file_meta \<Rightarrow> bool" where
  "lock_wf m \<longleftrightarrow> lock_owners m = {} \<or> is_locked_ex m = Some False \<or>
     (is_locked_ex m = Some True \<and> (\<exists>sid. lock_owners m = {sid}))"

definition abs_lock :: "file_meta \<Rightarrow> rw_state" where
  "abs_lock m =
     (if lock_owners m = {} then Free
      else if is_locked_ex m = Some True then Exclusive (the_elem (lock_owners m))
      else Shared (lock_owners m))"

fun rw_acquire :: "bool \<Rightarrow> i32 \<Rightarrow> rw_state \<Rightarrow> bool \<times> rw_state" where
  "rw_acquire True sid Free = (True, Exclusive sid)"
| "rw_acquire False sid Free = (True, Shared {sid})"
| "rw_acquire False sid (Shared S) = (True, Shared (insert sid S))"
| "rw_acquire _ sid l = (False, l)"

fun rw_release :: "i32 \<Rightarrow> rw_state \<Rightarrow> bool \<times> rw_state" where
  "rw_release sid Free = (False, Free)"
| "rw_release sid (Shared S) = (sid \<in> S, if S - {sid} = {} then Free else Shared (S - {sid}))"
| "rw_release sid (Exclusive s) = (sid = s, if sid = s then Free else Exclusive s)"

fun rw_owners :: "rw_state \<Rightarrow> i32 set" where
  "rw_owners Free = {}"
| "rw_owners (Shared S) = S"
| "rw_owners (Exclusive s) = {s}"

lemma lock_wf_acquire: "lock_wf m \<Longrightarrow> meta_acquire ex sid m = Inr (b, m') \<Longrightarrow> lock_wf m'"
  by (auto simp: lock_wf_def meta_acquire_def result_simps Let_def split: if_splits)

lemma meta_acquire_total: "lock_wf m \<Longrightarrow> \<exists>b m'. meta_acquire ex sid m = Inr (b, m')"
  by (auto simp: lock_wf_def meta_acquire_def Let_def)

lemma lock_wf_release: "lock_wf m \<Longrightarrow> lock_wf (snd (meta_release sid m))"
  by (auto simp: lock_wf_def meta_release_def)

lemma lock_wf_delete: "lock_wf (meta_delete m)"
  by (simp add: lock_wf_def meta_delete_def)

lemma lock_wf_new: "lock_wf new_file_meta"
  by (simp add: lock_wf_def new_file_meta_def)

lemma abs_lock_acquire:
  "lock_wf m \<Longrightarrow> meta_acquire ex sid m = Inr (b, m') \<Longrightarrow>
   rw_acquire ex sid (abs_lock m) = (b, abs_lock m')"
  by (cases ex) (auto simp: lock_wf_def meta_acquire_def abs_lock_def result_simps Let_def
      split: if_splits)

lemma lock_wf_cases:
  assumes "lock_wf m"
  obtains (free) "lock_owners m = {}"
  | (shared) "lock_owners m \<noteq> {}" "is_locked_ex m = Some False"
  | (exclusive) sid where "lock_owners m = {sid}" "is_locked_ex m = Some True"
  using assms by (auto simp: lock_wf_def)

lemma abs_lock_release:
  assumes "lock_wf m" and "meta_release sid m = (b, m')"
  shows "rw_release sid (abs_lock m) = (b, abs_lock m')"
proof -
  from assms(2) have b: "b = (sid \<in> lock_owners m)"
    and m': "lock_owners m' = lock_owners m - {sid}" "is_locked_ex m' = is_locked_ex m"
    by (auto simp: meta_release_def)
  from assms(1) show ?thesis
  proof (cases rule: lock_wf_cases)
    case shared
    then have "abs_lock m = Shared (lock_owners m)" by (simp add: abs_lock_def)
    then show ?thesis using b m' shared(2) by (simp only: abs_lock_def rw_release.simps) simp
  next
    case (exclusive s)
    with b m' show ?thesis by (cases "sid = s") (simp_all add: abs_lock_def)
  qed (simp add: b m' abs_lock_def)
qed

lemma abs_lock_delete: "abs_lock (meta_delete m) = Free"
  by (simp add: abs_lock_def meta_delete_def)

lemma abs_lock_owners: "lock_wf m \<Longrightarrow> rw_owners (abs_lock m) = lock_owners m"
  by (cases rule: lock_wf_cases, assumption) (simp_all add: abs_lock_def)

text \<open>
  The contract of a reader/writer lock over any representation \<open>'l\<close>: every operation
  keeps the representation invariant and commutes with the abstract one. Its clients'
  lemmas are about sequences of operations by several sessions.
\<close>

datatype lock_op = LAcquire bool i32 | LRelease i32 | LReset

fun rw_op :: "lock_op \<Rightarrow> rw_state \<Rightarrow> bool \<times> rw_state" where
  "rw_op (LAcquire ex sid) l = rw_acquire ex sid l"
| "rw_op (LRelease sid) l = rw_release sid l"
| "rw_op LReset l = (True, Free)"

fun rw_run :: "lock_op list \<Rightarrow> rw_state \<Rightarrow> bool list \<times> rw_state" where
  "rw_run [] l = ([], l)"
| "rw_run (x # xs) l =
     (let (b, l1) = rw_op x l; (bs, l2) = rw_run xs l1 in (b # bs, l2))"

locale rw_lock =
  fixes wf :: "'l \<Rightarrow> bool"
    and absl :: "'l \<Rightarrow> rw_state"
    and acq :: "bool \<Rightarrow> i32 \<Rightarrow> 'l \<Rightarrow> (bool \<times> 'l) result"
    and rel :: "i32 \<Rightarrow> 'l \<Rightarrow> bool \<times> 'l"
    and rst :: "'l \<Rightarrow> 'l"
  assumes acq_total: "wf l \<Longrightarrow> \<exists>b l'. acq ex sid l = Inr (b, l')"
    and acq_wf: "wf l \<Longrightarrow> acq ex sid l = Inr (b, l') \<Longrightarrow> wf l'"
    and acq_abs: "wf l \<Longrightarrow> acq ex sid l = Inr (b, l') \<Longrightarrow> rw_acquire ex sid (absl l) = (b, absl l')"
    and rel_wf: "wf l \<Longrightarrow> wf (snd (rel sid l))"
    and rel_abs: "wf l \<Longrightarrow> rel sid l = (b, l') \<Longrightarrow> rw_release sid (absl l) = (b, absl l')"
    and rst_wf: "wf l \<Longrightarrow> wf (rst l)"
    and rst_abs: "wf l \<Longrightarrow> absl (rst l) = Free"
begin

fun run_op :: "lock_op \<Rightarrow> 'l \<Rightarrow> (bool \<times> 'l) result" where
  "run_op (LAcquire ex sid) l = acq ex sid l"
| "run_op (LRelease sid) l = Inr (rel sid l)"
| "run_op LReset l = Inr (True, rst l)"

fun run_ops :: "lock_op list \<Rightarrow> 'l \<Rightarrow> (bool list \<times> 'l) result" where
  "run_ops [] l = Inr ([], l)"
| "run_ops (x # xs) l =
     bindE (run_op x l) (\<lambda>(b, l1). bindE (run_ops xs l1) (\<lambda>(bs, l2). Inr (b # bs, l2)))"

lemma run_op_total: "wf l \<Longrightarrow> \<exists>b l'. run_op x l = Inr (b, l') \<and> wf l'"
proof (cases x)
  case (LAcquire ex sid)
  assume "wf l"
  then show ?thesis using acq_total acq_wf LAcquire by (metis run_op.simps(1))
next
  case (LRelease sid)
  assume "wf l"
  then show ?thesis using rel_wf [of l sid] LRelease by (cases "rel sid l") simp
next
  case LReset
  assume "wf l"
  then show ?thesis using rst_wf LReset by (metis run_op.simps(3))
qed

lemma run_ops_total: "wf l \<Longrightarrow> \<exists>bs l'. run_ops xs l = Inr (bs, l') \<and> wf l'"
proof (induction xs arbitrary: l)
  case Nil
  then show ?case by simp
next
  case (Cons x xs)
  obtain b l1 where 1: "run_op x l = Inr (b, l1)" "wf l1" using run_op_total [OF Cons.prems] by blast
  obtain bs l2 where "run_ops xs l1 = Inr (bs, l2)" "wf l2" using Cons.IH [OF 1(2)] by blast
  then show ?case using 1 by simp
qed

lemma run_op_refine: "wf l \<Longrightarrow> run_op x l = Inr (b, l') \<Longrightarrow> rw_op x (absl l) = (b, absl l') \<and> wf l'"
  using acq_abs acq_wf rel_abs rel_wf [of l] rst_abs rst_wf by (cases x) (auto, metis snd_conv)

lemma run_ops_refine:
  "wf l \<Longrightarrow> \<exists>l'. run_ops xs l = Inr (fst (rw_run xs (absl l)), l') \<and> absl l' = snd (rw_run xs (absl l)) \<and> wf l'"
proof (induction xs arbitrary: l)
  case Nil
  then show ?case by simp
next
  case (Cons x xs)
  obtain b l1 where 1: "run_op x l = Inr (b, l1)" using run_op_total [OF Cons.prems] by blast
  note r = run_op_refine [OF Cons.prems 1]
  then show ?case using Cons.IH [of l1] 1 by (auto simp: split_def Let_def)
qed

text \<open>A granted exclusive acquisition means that nobody held the lock; the holder is alone.\<close>

lemma exclusive_alone:
  assumes "wf l" and "acq True sid l = Inr (True, l')"
  shows "rw_owners (absl l) = {} \<and> absl l' = Exclusive sid"
  using acq_abs [OF assms] by (cases "absl l") auto

lemma held_exclusively_blocks:
  assumes "wf l" and "absl l = Exclusive s" and "acq ex sid l = Inr (b, l')"
  shows "\<not> b \<and> absl l' = Exclusive s"
  using acq_abs [OF assms(1,3)] assms(2) by (cases ex) auto

lemma release_then_acquire:
  assumes "wf l" and "absl l = Exclusive s" and "rel s l = (b, l1)"
  shows "b \<and> (\<exists>l2. acq True sid l1 = Inr (True, l2) \<and> absl l2 = Exclusive sid)"
proof -
  from rel_abs [OF assms(1,3)] assms(2) have b: "b" and free: "absl l1 = Free" by auto
  have "wf l1" using rel_wf [OF assms(1), of s] assms(3) by simp
  then obtain b2 l2 where l2: "acq True sid l1 = Inr (b2, l2)" using acq_total by blast
  from acq_abs [OF \<open>wf l1\<close> l2] free have "b2" "absl l2 = Exclusive sid" by auto
  with b l2 show ?thesis by auto
qed

end

interpretation meta_lock: rw_lock lock_wf abs_lock meta_acquire meta_release meta_delete
  by unfold_locales
    (auto intro: lock_wf_acquire lock_wf_release lock_wf_delete meta_acquire_total
      simp: abs_lock_acquire abs_lock_release abs_lock_delete)

section \<open>Directory listings\<close>

text \<open>
  The content of a directory is the sequence of its children's names, each preceded by a
  zero byte. A child is added at the end; it is removed by searching the zero byte and the
  name, and erasing that many characters where they are found.
\<close>

definition child_entry :: "string \<Rightarrow> string" where
  "child_entry name = CHR 0x00 # name"

definition add_child :: "string \<Rightarrow> string \<Rightarrow> string" where
  "add_child content name = content @ child_entry name"

definition remove_child :: "string \<Rightarrow> string \<Rightarrow> string option" where
  "remove_child content name =
     (case find_sub (child_entry name) content of
        None \<Rightarrow> None
      | Some pos \<Rightarrow> Some (erase_at pos (length name + 1) content))"

definition listing :: "string list \<Rightarrow> string" where
  "listing names = concat (map child_entry names)"

definition nul_free :: "string \<Rightarrow> bool" where
  "nul_free s \<longleftrightarrow> CHR 0x00 \<notin> set s"

lemma listing_simps [simp]:
  "listing [] = []" "listing (n # ns) = CHR 0x00 # n @ listing ns"
  by (simp_all add: listing_def child_entry_def)

lemma listing_add: "add_child (listing names) name = listing (names @ [name])"
  by (simp add: add_child_def listing_def)

lemma take_prefix_listing:
  assumes "nul_free pat"
  shows "take (length pat) (n @ listing ns) = pat \<longleftrightarrow> prefix pat n"
proof
  assume t: "take (length pat) (n @ listing ns) = pat"
  show "prefix pat n"
  proof (cases "length pat \<le> length n")
    case True
    with t have "take (length pat) n = pat" by simp
    then show ?thesis by (metis take_is_prefix)
  next
    case False
    with t have pat: "pat = n @ take (length pat - length n) (listing ns)" by simp
    then have "take (length pat - length n) (listing ns) \<noteq> []" using False by auto
    moreover have "take (length pat - length n) (listing ns) \<noteq> [] \<Longrightarrow>
        CHR 0x00 \<in> set (take (length pat - length n) (listing ns))"
      using False by (cases ns; cases "length pat - length n") auto
    ultimately have "CHR 0x00 \<in> set pat" using pat by (metis Un_iff set_append)
    with assms show ?thesis by (simp add: nul_free_def)
  qed
next
  assume "prefix pat n"
  then show "take (length pat) (n @ listing ns) = pat" by (auto simp: prefix_def)
qed

lemma find_child_hit: "nul_free pat \<Longrightarrow> prefix pat n \<Longrightarrow> find_sub (child_entry pat) (listing (n # ns)) = Some 0"
  using take_prefix_listing [of pat n ns] by (simp add: child_entry_def)

lemma find_child_skip:
  assumes "nul_free pat" and "nul_free n" and "\<not> prefix pat n"
  shows "find_sub (child_entry pat) (listing (n # ns)) =
    map_option (\<lambda>i. Suc (length n + i)) (find_sub (child_entry pat) (listing ns))"
  using take_prefix_listing [of pat n ns] assms
  by (simp add: child_entry_def find_sub_prefix_skip nul_free_def option.map_comp comp_def)

lemma erase_child_skip:
  "erase_at (Suc (length n + i)) k (listing (n # ns)) = listing [n] @ erase_at i k (listing ns)"
  using erase_at_append [of "CHR 0x00 # n" i k "listing ns"] by simp

text \<open>
  Removal is right when no name listed before the removed one extends it: exactly the first
  occurrence of the name goes.
\<close>

lemma remove_child_listing:
  assumes "\<forall>n \<in> set (names @ [name]). nul_free n" and "\<forall>n \<in> set names. \<not> prefix name n"
  shows "remove_child (listing (names @ name # rest)) name = Some (listing (names @ rest))"
  using assms
proof (induction names)
  case Nil
  then show ?case
    using find_child_hit [of name name rest] by (simp add: remove_child_def erase_at_def)
next
  case (Cons n names)
  then have IH: "remove_child (listing (names @ name # rest)) name = Some (listing (names @ rest))"
    by simp
  then obtain pos where pos: "find_sub (child_entry name) (listing (names @ name # rest)) = Some pos"
    and er: "erase_at pos (length name + 1) (listing (names @ name # rest)) = listing (names @ rest)"
    by (auto simp: remove_child_def split: option.splits)
  have "find_sub (child_entry name) (listing (n # names @ name # rest)) = Some (Suc (length n + pos))"
    using find_child_skip [of name n "names @ name # rest"] Cons.prems pos by simp
  then show ?case
    using erase_child_skip [of n pos "length name + 1" "names @ name # rest"] er
    by (simp add: remove_child_def del: listing_simps(2)) simp
qed

lemma remove_child_absent:
  assumes "nul_free name" and "\<forall>n \<in> set names. nul_free n \<and> \<not> prefix name n"
  shows "remove_child (listing names) name = None"
proof -
  have "find_sub (child_entry name) (listing names) = None"
    using assms
  proof (induction names)
    case Nil
    then show ?case by (simp add: child_entry_def)
  next
    case (Cons n names)
    then show ?case by (simp add: find_child_skip del: listing_simps(2))
  qed
  then show ?thesis by (simp add: remove_child_def)
qed

text \<open>
  It is wrong otherwise: a sibling listed earlier whose name extends the removed one loses
  its separator and its first characters, and the removed name stays.
\<close>

lemma remove_child_corrupts:
  assumes "nul_free name" and "prefix name n"
  shows "remove_child (listing (n # rest)) name = Some (drop (length name) n @ listing rest)"
  using find_child_hit [OF assms, of rest] assms(2)
  by (auto simp: remove_child_def erase_at_def prefix_def)

text \<open>A sequence of operations on one file's lock.\<close>

fun meta_op :: "lock_op \<Rightarrow> file_meta \<Rightarrow> (bool \<times> file_meta) result" where
  "meta_op (LAcquire ex sid) m = meta_acquire ex sid m"
| "meta_op (LRelease sid) m = Inr (meta_release sid m)"
| "meta_op LReset m = Inr (True, meta_delete m)"

fun meta_ops :: "lock_op list \<Rightarrow> file_meta \<Rightarrow> (bool list \<times> file_meta) result" where
  "meta_ops [] m = Inr ([], m)"
| "meta_ops (x # xs) m =
     bindE (meta_op x m) (\<lambda>(b, m1). bindE (meta_ops xs m1) (\<lambda>(bs, m2). Inr (b # bs, m2)))"

lemma meta_op_run: "meta_op x m = meta_lock.run_op x m"
  by (cases x) simp_all

lemma meta_ops_run: "meta_ops xs m = meta_lock.run_ops xs m"
  by (induction xs arbitrary: m) (simp_all add: meta_op_run)

section \<open>Properties\<close>

text \<open>
  Removing a name from a listing. For names without zero characters, removing a name
  from a directory's listing takes exactly its entry out and keeps the order of the others, provided
  that it is not a prefix of a name listed before it.
\<close>

theorem listing_removal:
  assumes "\<forall>n \<in> set (names @ [name]). nul_free n" and "\<forall>n \<in> set names. \<not> prefix name n"
  shows "remove_child (listing (names @ name # rest)) name = Some (listing (names @ rest))"
  using assms by (rule remove_child_listing)

theorem listing_removal_witness:
  "remove_child (listing ([''a''] @ ''ab'' # [''c''])) ''ab'' = Some (listing ([''a''] @ [''c'']))"
  by (rule listing_removal) (simp_all add: nul_free_def)

text \<open>
  The metadata's lock is a reader/writer lock under every sequence of operations. Starting
  from a well-formed metadata, no sequence of acquisitions, releases and deletes crashes, the
  answers are those of the abstract lock run on the same sequence, and the final metadata stands for
  its final state.
\<close>

theorem lock_operations_refine:
  assumes "lock_wf m"
  shows "\<exists>m'. meta_ops ops m = Inr (fst (rw_run ops (abs_lock m)), m') \<and>
    abs_lock m' = snd (rw_run ops (abs_lock m)) \<and> lock_wf m'"
  unfolding meta_ops_run using assms by (rule meta_lock.run_ops_refine)

theorem lock_operations_refine_witness:
  "\<exists>m'. meta_ops [LAcquire False 1, LAcquire True 2, LRelease 1, LAcquire True 2] new_file_meta =
      Inr (fst (rw_run [LAcquire False 1, LAcquire True 2, LRelease 1, LAcquire True 2] (abs_lock new_file_meta)), m') \<and>
    abs_lock m' = snd (rw_run [LAcquire False 1, LAcquire True 2, LRelease 1, LAcquire True 2] (abs_lock new_file_meta)) \<and>
    lock_wf m'"
  by (rule lock_operations_refine) (rule lock_wf_new)

end
