(* ===== verification/Nuraft_Buffer.thy ===== *)
theory Nuraft_Buffer
  imports Prelude
begin

text \<open>
  The byte buffers of NuRaft (\<open>nuraft::buffer\<close>, \<open>nuraft::buffer_serializer\<close>),
  a library outside the repository: its operations are the fields of a record
  \<open>buf_api\<close> that every serializing definition takes as an argument, and what the
  sources rely on is the locale \<open>buffer_api\<close>: what is put is got back, the widths, a
  four-byte length in front of a string, an allocated buffer has the requested size. A
  little-endian implementation \<open>le_buf\<close> interprets the locale.
\<close>

record buf_api =
  alloc :: "nat \<Rightarrow> byte list"
  put_u8 :: "byte \<Rightarrow> byte list"
  put_i32 :: "i32 \<Rightarrow> byte list"
  put_i64 :: "i64 \<Rightarrow> byte list"
  put_str :: "string \<Rightarrow> byte list"
  get_i8 :: "byte list \<Rightarrow> (byte \<times> byte list) option"
  get_i32 :: "byte list \<Rightarrow> (i32 \<times> byte list) option"
  get_i64 :: "byte list \<Rightarrow> (i64 \<times> byte list) option"
  get_str :: "byte list \<Rightarrow> (string \<times> byte list) option"

locale buffer_api =
  fixes B :: buf_api
  assumes alloc_length: "length (alloc B n) = n"
    and get_put_u8: "get_i8 B (put_u8 B b @ bs) = Some (b, bs)"
    and get_put_i32: "get_i32 B (put_i32 B x @ bs) = Some (x, bs)"
    and get_put_i64: "get_i64 B (put_i64 B y @ bs) = Some (y, bs)"
    and get_put_str: "length s < 2 ^ 32 \<Longrightarrow> get_str B (put_str B s @ bs) = Some (s, bs)"
    and put_u8_length: "length (put_u8 B b) = 1"
    and put_i32_length: "length (put_i32 B x) = 4"
    and put_i64_length: "length (put_i64 B y) = 8"
    and put_str_length: "length (put_str B s) = 4 + length s"
begin

lemmas get_put = get_put_u8 get_put_i32 get_put_i64 get_put_str
lemmas put_lengths = put_u8_length put_i32_length put_i64_length put_str_length

end

text \<open>
  Writing a sequence of values from the start of a buffer of \<open>n\<close> bytes: the
  serializer throws when a value does not fit, and leaves the bytes after the last value
  as \<open>alloc\<close> returned them. A read past the end throws too.
\<close>

definition write_buffer :: "buf_api \<Rightarrow> nat \<Rightarrow> byte list \<Rightarrow> byte list result" where
  "write_buffer B n bs =
     (if length bs \<le> n then Inr (bs @ drop (length bs) (alloc B n)) else Inl Buffer_overflow)"

definition read_buffer :: "('a \<times> byte list) option \<Rightarrow> ('a \<times> byte list) result" where
  "read_buffer r = (case r of None \<Rightarrow> Inl Buffer_overflow | Some x \<Rightarrow> Inr x)"

lemma write_buffer_Inr [result_simps]:
  "write_buffer B n bs = Inr out \<longleftrightarrow> length bs \<le> n \<and> out = bs @ drop (length bs) (alloc B n)"
  by (auto simp: write_buffer_def)

lemma write_buffer_Inl [result_simps]:
  "write_buffer B n bs = Inl e \<longleftrightarrow> n < length bs \<and> e = Buffer_overflow"
  by (auto simp: write_buffer_def)

lemma read_buffer_Some [simp]: "read_buffer (Some x) = Inr x"
  by (simp add: read_buffer_def)

section \<open>A little-endian implementation\<close>

fun le_bytes :: "nat \<Rightarrow> 'a::len word \<Rightarrow> byte list" where
  "le_bytes 0 w = []"
| "le_bytes (Suc n) w = ucast w # le_bytes n (drop_bit 8 w)"

fun le_word :: "byte list \<Rightarrow> 'a::len word" where
  "le_word [] = 0"
| "le_word (b # bs) = or (ucast b) (push_bit 8 (le_word bs))"

lemma length_le_bytes [simp]: "length (le_bytes n w) = n"
  by (induction n arbitrary: w) auto

lemma le_word_bytes: "le_word (le_bytes n w) = take_bit (8 * n) w"
proof (induction n arbitrary: w)
  case 0
  then show ?case by simp
next
  case (Suc n)
  show ?case
    by (rule bit_eqI) (auto simp: Suc.IH bit_simps)
qed

definition le_get :: "nat \<Rightarrow> byte list \<Rightarrow> ('a::len word \<times> byte list) option" where
  "le_get n bs = (if n \<le> length bs then Some (le_word (take n bs), drop n bs) else None)"

lemma le_get_put: "LENGTH('a) = 8 * n \<Longrightarrow> le_get n (le_bytes n (w :: 'a::len word) @ bs) = Some (w, bs)"
  using take_bit_length_eq [of w] by (simp add: le_get_def le_word_bytes)

definition byte_of_char :: "char \<Rightarrow> byte" where
  "byte_of_char c = word_of_nat (of_char c)"

definition char_of_byte :: "byte \<Rightarrow> char" where
  "char_of_byte b = char_of (unat b)"

lemma char_of_byte_of_char [simp]: "char_of_byte (byte_of_char c) = c"
proof -
  have "(of_char c :: nat) < 256" by simp
  then have "unat (word_of_nat (of_char c) :: byte) = of_char c"
    by (simp add: unsigned_of_nat take_bit_nat_eq_self)
  then show ?thesis by (simp add: char_of_byte_def byte_of_char_def)
qed

definition le_put_str :: "string \<Rightarrow> byte list" where
  "le_put_str s = le_bytes 4 (of_nat (length s) :: i32) @ map byte_of_char s"

definition le_get_str :: "byte list \<Rightarrow> (string \<times> byte list) option" where
  "le_get_str bs =
     (case le_get 4 bs of
        None \<Rightarrow> None
      | Some (n :: i32, r) \<Rightarrow>
          if unat n \<le> length r then Some (map char_of_byte (take (unat n) r), drop (unat n) r)
          else None)"

definition le_buf :: buf_api where
  "le_buf = \<lparr>alloc = (\<lambda>n. replicate n 0), put_u8 = le_bytes 1, put_i32 = le_bytes 4,
     put_i64 = le_bytes 8, put_str = le_put_str, get_i8 = le_get 1, get_i32 = le_get 4,
     get_i64 = le_get 8, get_str = le_get_str\<rparr>"

lemma length_le_put_str: "length (le_put_str s) = 4 + length s"
  by (simp add: le_put_str_def)

lemma le_get_put_str:
  "length s < 2 ^ 32 \<Longrightarrow> le_get_str (le_put_str s @ bs) = Some (s, bs)"
proof -
  assume "length s < 2 ^ 32"
  then have "unat (of_nat (length s) :: i32) = length s" by (rule unat_of_nat32)
  moreover have "le_get 4 (le_bytes 4 (of_nat (length s) :: i32) @ map byte_of_char s @ bs)
      = Some (of_nat (length s) :: i32, map byte_of_char s @ bs)"
    by (rule le_get_put) simp
  ultimately show ?thesis
    by (simp add: le_get_str_def le_put_str_def comp_def)
qed

interpretation le: buffer_api le_buf
  by unfold_locales
    (auto simp: le_buf_def length_le_put_str le_get_put_str intro!: le_get_put simp del: le_bytes.simps)

end
