(* ===== verification/Wire.thy ===== *)
theory Wire
  imports Nuraft_Buffer
begin

text \<open>
  The structs that \<open>codegen.cpp\<close> generates from \<open>protos/raft.proto\<close>, by what the
  generated code does: the generator walks the messages in file order, numbers those
  whose name ends in "Action" (the enumeration \<open>ActionName\<close>), and emits for each message
  a struct with its fields, a constructor that reads them from a buffer in order (after
  checking the action's number) and a \<open>serialize\<close> that allocates the sum of the fields'
  sizes and puts them in order. \<open>raft_proto\<close> is the content of the proto file; the
  generated functions are written once over the field list of a message, as the generator
  writes them, and the typed actions and replies of the state machine are layered on top.
\<close>

section \<open>Fields\<close>

datatype proto_type = TYPE_INT64 | TYPE_INT32 | TYPE_STRING | TYPE_OTHER

datatype fval = VI64 i64 | VI32 i32 | VStr string

fun type_of :: "fval \<Rightarrow> proto_type" where
  "type_of (VI64 _) = TYPE_INT64"
| "type_of (VI32 _) = TYPE_INT32"
| "type_of (VStr _) = TYPE_STRING"

text \<open>The expression \<open>gen_size\<close> emits: \<open>sizeof\<close> of the type, or of \<open>size ()\<close> plus the length.\<close>

fun field_size :: "fval \<Rightarrow> nat" where
  "field_size (VI64 _) = 8"
| "field_size (VI32 _) = 4"
| "field_size (VStr s) = 8 + length s"

fun put_field :: "buf_api \<Rightarrow> fval \<Rightarrow> byte list" where
  "put_field B (VI64 x) = put_i64 B x"
| "put_field B (VI32 x) = put_i32 B x"
| "put_field B (VStr s) = put_str B s"

fun get_field :: "buf_api \<Rightarrow> proto_type \<Rightarrow> byte list \<Rightarrow> (fval \<times> byte list) result" where
  "get_field B TYPE_INT64 bs = bindE (read_buffer (get_i64 B bs)) (\<lambda>(x, r). Inr (VI64 x, r))"
| "get_field B TYPE_INT32 bs = bindE (read_buffer (get_i32 B bs)) (\<lambda>(x, r). Inr (VI32 x, r))"
| "get_field B TYPE_STRING bs = bindE (read_buffer (get_str B bs)) (\<lambda>(s, r). Inr (VStr s, r))"
| "get_field B TYPE_OTHER bs = Inl Terminated"

definition put_fields :: "buf_api \<Rightarrow> fval list \<Rightarrow> byte list" where
  "put_fields B vs = concat (map (put_field B) vs)"

fun get_fields :: "buf_api \<Rightarrow> proto_type list \<Rightarrow> byte list \<Rightarrow> (fval list \<times> byte list) result" where
  "get_fields B [] bs = Inr ([], bs)"
| "get_fields B (t # ts) bs =
     bindE (get_field B t bs) (\<lambda>(v, r).
     bindE (get_fields B ts r) (\<lambda>(vs, r'). Inr (v # vs, r')))"

fun fits :: "fval \<Rightarrow> bool" where
  "fits (VStr s) = (length s < 2 ^ 32)"
| "fits _ = True"

lemma put_fields_simps [simp]:
  "put_fields B [] = []" "put_fields B (v # vs) = put_field B v @ put_fields B vs"
  by (simp_all add: put_fields_def)

context buffer_api
begin

lemma get_put_field: "fits v \<Longrightarrow> get_field B (type_of v) (put_field B v @ bs) = Inr (v, bs)"
  by (cases v) (simp_all add: get_put)

lemma get_put_fields:
  "list_all fits vs \<Longrightarrow> get_fields B (map type_of vs) (put_fields B vs @ bs) = Inr (vs, bs)"
  by (induction vs) (simp_all add: get_put_field)

lemma put_field_length: "length (put_field B v) \<le> field_size v"
  by (cases v) (simp_all add: put_lengths)

lemma put_fields_length: "length (put_fields B vs) \<le> sum_list (map field_size vs)"
proof (induction vs)
  case (Cons v vs)
  then show ?case using put_field_length [of v] by simp
qed simp

end

section \<open>Messages\<close>

definition raft_proto :: "(string \<times> (string \<times> proto_type) list) list" where
  "raft_proto =
     [(''OpenAction'', [(''session_id'', TYPE_INT64), (''path'', TYPE_STRING),
        (''is_directory'', TYPE_INT32), (''is_ephemeral'', TYPE_INT32)]),
      (''CloseAction'', [(''session_id'', TYPE_INT64), (''fh'', TYPE_INT32)]),
      (''StartSessionAction'', []),
      (''EndSessionAction'', [(''session_id'', TYPE_INT64)]),
      (''AcqAction'', [(''session_id'', TYPE_INT64), (''fh'', TYPE_INT32), (''ex'', TYPE_INT32)]),
      (''RelAction'', [(''session_id'', TYPE_INT64), (''fh'', TYPE_INT32)]),
      (''SetContentAction'', [(''session_id'', TYPE_INT64), (''fh'', TYPE_INT32),
        (''content'', TYPE_STRING)]),
      (''DeleteAction'', [(''session_id'', TYPE_INT64), (''fh'', TYPE_INT32)]),
      (''Response'', [(''res'', TYPE_INT32), (''msg'', TYPE_STRING)]),
      (''OpenReturn'', [(''res'', TYPE_INT32), (''msg'', TYPE_STRING), (''fh'', TYPE_INT32)]),
      (''StartSessionReturn'', [(''res'', TYPE_INT32), (''msg'', TYPE_STRING),
        (''session_id'', TYPE_INT64)]),
      (''CloseReturn'', [(''res'', TYPE_INT32), (''msg'', TYPE_STRING),
        (''need_notify'', TYPE_INT32), (''parent_path'', TYPE_STRING)])]"

definition ends_with :: "string \<Rightarrow> string \<Rightarrow> bool" where
  "ends_with s t \<longleftrightarrow> suffix t s"

definition is_action :: "string \<Rightarrow> bool" where
  "is_action name \<longleftrightarrow> ends_with name ''Action''"

definition action_names :: "string list" where
  "action_names = filter is_action (map fst raft_proto)"

fun index_of :: "'a \<Rightarrow> 'a list \<Rightarrow> nat" where
  "index_of x [] = 0"
| "index_of x (y # ys) = (if x = y then 0 else Suc (index_of x ys))"

definition action_number :: "string \<Rightarrow> byte" where
  "action_number name = of_nat (index_of name action_names)"

definition message_types :: "string \<Rightarrow> proto_type list" where
  "message_types name = (case map_of raft_proto name of None \<Rightarrow> [] | Some fs \<Rightarrow> map snd fs)"

definition serialize_struct :: "buf_api \<Rightarrow> string \<Rightarrow> fval list \<Rightarrow> byte list result" where
  "serialize_struct B name vs =
     write_buffer B ((if is_action name then 1 else 0) + sum_list (map field_size vs))
       ((if is_action name then put_u8 B (action_number name) else []) @ put_fields B vs)"

definition deserialize_struct :: "buf_api \<Rightarrow> string \<Rightarrow> byte list \<Rightarrow> fval list result" where
  "deserialize_struct B name bs =
     bindE (if is_action name then
              bindE (read_buffer (get_i8 B bs)) (\<lambda>(n, r).
              bindE (assertE (n = action_number name)) (\<lambda>_. Inr r))
            else Inr bs) (\<lambda>r.
     bindE (get_fields B (message_types name) r) (\<lambda>(vs, _). Inr vs))"

context buffer_api
begin

text \<open>The allocation always suffices, and reading a written struct gives its fields.\<close>

lemma serialize_struct_total: "\<exists>bs. serialize_struct B name vs = Inr bs"
  using put_fields_length [of vs] by (simp add: serialize_struct_def result_simps put_lengths)

lemma serialize_struct_layout:
  "serialize_struct B name vs = Inr bs \<Longrightarrow>
   \<exists>tail. bs = (if is_action name then put_u8 B (action_number name) else []) @ put_fields B vs @ tail"
  by (auto simp: serialize_struct_def result_simps)

lemma struct_roundtrip:
  assumes "list_all fits vs" and "map type_of vs = message_types name"
    and "serialize_struct B name vs = Inr bs"
  shows "deserialize_struct B name bs = Inr vs"
  using serialize_struct_layout [OF assms(3)] get_put_fields [OF assms(1)] assms(2)
  by (auto simp: deserialize_struct_def get_put)

text \<open>
  A reply can be read as any message whose fields are a prefix of its own, which is how
  the handlers read every reply as a \<open>Response\<close> first.
\<close>

lemma struct_prefix:
  assumes "list_all fits vs" and "map type_of vs = message_types name'"
    and "\<not> is_action name" and "\<not> is_action name'"
    and "serialize_struct B name (vs @ ws) = Inr bs"
  shows "deserialize_struct B name' bs = Inr vs"
proof -
  obtain tail where "bs = put_fields B vs @ put_fields B ws @ tail"
    using serialize_struct_layout [OF assms(5)] assms(3) by (auto simp: put_fields_def)
  then show ?thesis using get_put_fields [OF assms(1)] assms(2,4)
    by (simp add: deserialize_struct_def)
qed

end

section \<open>Actions\<close>

datatype action =
    OpenAction i64 string i32 i32
  | CloseAction i64 i32
  | StartSessionAction
  | EndSessionAction i64
  | AcqAction i64 i32 i32
  | RelAction i64 i32
  | SetContentAction i64 i32 string
  | DeleteAction i64 i32

fun action_name :: "action \<Rightarrow> string" where
  "action_name (OpenAction _ _ _ _) = ''OpenAction''"
| "action_name (CloseAction _ _) = ''CloseAction''"
| "action_name StartSessionAction = ''StartSessionAction''"
| "action_name (EndSessionAction _) = ''EndSessionAction''"
| "action_name (AcqAction _ _ _) = ''AcqAction''"
| "action_name (RelAction _ _) = ''RelAction''"
| "action_name (SetContentAction _ _ _) = ''SetContentAction''"
| "action_name (DeleteAction _ _) = ''DeleteAction''"

fun action_fields :: "action \<Rightarrow> fval list" where
  "action_fields (OpenAction s p d e) = [VI64 s, VStr p, VI32 d, VI32 e]"
| "action_fields (CloseAction s f) = [VI64 s, VI32 f]"
| "action_fields StartSessionAction = []"
| "action_fields (EndSessionAction s) = [VI64 s]"
| "action_fields (AcqAction s f x) = [VI64 s, VI32 f, VI32 x]"
| "action_fields (RelAction s f) = [VI64 s, VI32 f]"
| "action_fields (SetContentAction s f c) = [VI64 s, VI32 f, VStr c]"
| "action_fields (DeleteAction s f) = [VI64 s, VI32 f]"

definition action_of :: "string \<Rightarrow> fval list \<Rightarrow> action option" where
  "action_of name vs =
     (case vs of
        [] \<Rightarrow> if name = ''StartSessionAction'' then Some StartSessionAction else None
      | [VI64 s] \<Rightarrow> if name = ''EndSessionAction'' then Some (EndSessionAction s) else None
      | [VI64 s, VI32 f] \<Rightarrow>
          if name = ''CloseAction'' then Some (CloseAction s f)
          else if name = ''RelAction'' then Some (RelAction s f)
          else if name = ''DeleteAction'' then Some (DeleteAction s f) else None
      | [VI64 s, VI32 f, VI32 x] \<Rightarrow> if name = ''AcqAction'' then Some (AcqAction s f x) else None
      | [VI64 s, VI32 f, VStr c] \<Rightarrow>
          if name = ''SetContentAction'' then Some (SetContentAction s f c) else None
      | [VI64 s, VStr p, VI32 d, VI32 e] \<Rightarrow>
          if name = ''OpenAction'' then Some (OpenAction s p d e) else None
      | _ \<Rightarrow> None)"

definition serialize_action :: "buf_api \<Rightarrow> action \<Rightarrow> byte list result" where
  "serialize_action B a = serialize_struct B (action_name a) (action_fields a)"

text \<open>The dispatch function the generator emits last.\<close>

definition create_action_from_buf :: "buf_api \<Rightarrow> byte list \<Rightarrow> action result" where
  "create_action_from_buf B bs =
     bindE (read_buffer (get_i8 B bs)) (\<lambda>(n, _).
       if unat n < length action_names then
         (let name = action_names ! unat n in
          bindE (deserialize_struct B name bs) (\<lambda>vs.
            case action_of name vs of Some a \<Rightarrow> Inr a | None \<Rightarrow> Inl Terminated))
       else Inl Assert_failed)"

lemma action_names_eq:
  "action_names = [''OpenAction'', ''CloseAction'', ''StartSessionAction'', ''EndSessionAction'',
     ''AcqAction'', ''RelAction'', ''SetContentAction'', ''DeleteAction'']"
  by (simp add: action_names_def raft_proto_def is_action_def ends_with_def suffix_def)

lemma action_of_fields [simp]: "action_of (action_name a) (action_fields a) = Some a"
  by (cases a) (simp_all add: action_of_def)

lemma action_types: "map type_of (action_fields a) = message_types (action_name a)"
  by (cases a) (simp_all add: message_types_def raft_proto_def)

lemma action_number_at:
  "unat (action_number (action_name a)) < length action_names \<and>
   action_names ! unat (action_number (action_name a)) = action_name a"
  by (cases a) (simp_all add: action_number_def action_names_eq)

lemma is_action_name [simp]: "is_action (action_name a)"
  by (cases a) (simp_all add: is_action_def ends_with_def suffix_def)

definition action_fits :: "action \<Rightarrow> bool" where
  "action_fits a = list_all fits (action_fields a)"

section \<open>Replies\<close>

text \<open>
  The state machine's replies. The reply to \<open>EndSessionAction\<close> is not a generated struct:
  \<open>StateMachine.cpp\<close> allocates and fills its buffer itself, with the size it computed.
\<close>

datatype sm_ret =
    Response i32 string
  | OpenReturn i32 string i32
  | StartSessionReturn i32 string i64
  | CloseReturn i32 string i32 string
  | EndSessionReturn nat "string list"

fun serialize_ret :: "buf_api \<Rightarrow> sm_ret \<Rightarrow> byte list result" where
  "serialize_ret B (Response res msg) = serialize_struct B ''Response'' [VI32 res, VStr msg]"
| "serialize_ret B (OpenReturn res msg fh) =
     serialize_struct B ''OpenReturn'' [VI32 res, VStr msg, VI32 fh]"
| "serialize_ret B (StartSessionReturn res msg sid) =
     serialize_struct B ''StartSessionReturn'' [VI32 res, VStr msg, VI64 sid]"
| "serialize_ret B (CloseReturn res msg need parent) =
     serialize_struct B ''CloseReturn'' [VI32 res, VStr msg, VI32 need, VStr parent]"
| "serialize_ret B (EndSessionReturn n parents) =
     write_buffer B n
       (put_i32 B 0 @ put_str B ''OK'' @ put_i32 B (of_nat (length parents)) @
        concat (map (put_str B) parents))"

definition read_response :: "buf_api \<Rightarrow> byte list \<Rightarrow> (i32 \<times> string) result" where
  "read_response B bs =
     bindE (deserialize_struct B ''Response'' bs) (\<lambda>vs.
       case vs of [VI32 res, VStr msg] \<Rightarrow> Inr (res, msg) | _ \<Rightarrow> Inl Terminated)"

definition read_open_return :: "buf_api \<Rightarrow> byte list \<Rightarrow> (i32 \<times> string \<times> i32) result" where
  "read_open_return B bs =
     bindE (deserialize_struct B ''OpenReturn'' bs) (\<lambda>vs.
       case vs of [VI32 res, VStr msg, VI32 fh] \<Rightarrow> Inr (res, msg, fh) | _ \<Rightarrow> Inl Terminated)"

definition read_start_session_return :: "buf_api \<Rightarrow> byte list \<Rightarrow> (i32 \<times> string \<times> i64) result" where
  "read_start_session_return B bs =
     bindE (deserialize_struct B ''StartSessionReturn'' bs) (\<lambda>vs.
       case vs of [VI32 res, VStr msg, VI64 sid] \<Rightarrow> Inr (res, msg, sid) | _ \<Rightarrow> Inl Terminated)"

definition read_close_return :: "buf_api \<Rightarrow> byte list \<Rightarrow> (i32 \<times> string \<times> i32 \<times> string) result" where
  "read_close_return B bs =
     bindE (deserialize_struct B ''CloseReturn'' bs) (\<lambda>vs.
       case vs of [VI32 res, VStr msg, VI32 need, VStr parent] \<Rightarrow> Inr (res, msg, need, parent)
       | _ \<Rightarrow> Inl Terminated)"

fun ret_res :: "sm_ret \<Rightarrow> i32" where
  "ret_res (Response res _) = res"
| "ret_res (OpenReturn res _ _) = res"
| "ret_res (StartSessionReturn res _ _) = res"
| "ret_res (CloseReturn res _ _ _) = res"
| "ret_res (EndSessionReturn _ _) = 0"

fun ret_msg :: "sm_ret \<Rightarrow> string" where
  "ret_msg (Response _ msg) = msg"
| "ret_msg (OpenReturn _ msg _) = msg"
| "ret_msg (StartSessionReturn _ msg _) = msg"
| "ret_msg (CloseReturn _ msg _ _) = msg"
| "ret_msg (EndSessionReturn _ _) = ''OK''"

lemma reply_names [simp]:
  "\<not> is_action ''Response''" "\<not> is_action ''OpenReturn''" "\<not> is_action ''StartSessionReturn''"
  "\<not> is_action ''CloseReturn''"
  by (simp_all add: is_action_def ends_with_def suffix_def Cons_eq_append_conv)

lemma reply_types:
  "message_types ''Response'' = [TYPE_INT32, TYPE_STRING]"
  "message_types ''OpenReturn'' = [TYPE_INT32, TYPE_STRING, TYPE_INT32]"
  "message_types ''StartSessionReturn'' = [TYPE_INT32, TYPE_STRING, TYPE_INT64]"
  "message_types ''CloseReturn'' = [TYPE_INT32, TYPE_STRING, TYPE_INT32, TYPE_STRING]"
  by (simp_all add: message_types_def raft_proto_def)

text \<open>The loop of the handlers that reads back the strings of an end-session reply.\<close>

fun read_strs :: "buf_api \<Rightarrow> nat \<Rightarrow> byte list \<Rightarrow> string list result" where
  "read_strs B 0 bs = Inr []"
| "read_strs B (Suc n) bs =
     bindE (read_buffer (get_str B bs)) (\<lambda>(s, r).
     bindE (read_strs B n r) (\<lambda>ss. Inr (s # ss)))"

definition read_end_session_return :: "buf_api \<Rightarrow> byte list \<Rightarrow> string list result" where
  "read_end_session_return B bs =
     bindE (read_buffer (get_i32 B bs)) (\<lambda>(_, r1).
     bindE (read_buffer (get_str B r1)) (\<lambda>(_, r2).
     bindE (read_buffer (get_i32 B r2)) (\<lambda>(count, r3).
     read_strs B (nat (sint count)) r3)))"

context buffer_api
begin

lemma action_roundtrip:
  assumes "action_fits a" and "serialize_action B a = Inr bs"
  shows "create_action_from_buf B bs = Inr a"
proof -
  have ser: "serialize_struct B (action_name a) (action_fields a) = Inr bs"
    using assms(2) by (simp add: serialize_action_def)
  have des: "deserialize_struct B (action_name a) bs = Inr (action_fields a)"
    using struct_roundtrip [OF _ action_types ser] assms(1) by (simp add: action_fits_def)
  obtain tail where "bs = put_u8 B (action_number (action_name a)) @ tail"
    using serialize_struct_layout [OF ser] by auto
  then show ?thesis
    using des action_number_at [of a] by (simp add: create_action_from_buf_def get_put)
qed

lemma read_response_any:
  assumes "serialize_ret B r = Inr bs" and "length (ret_msg r) < 2 ^ 32"
  shows "read_response B bs = Inr (ret_res r, ret_msg r)"
proof (cases r)
  case (EndSessionReturn n parents)
  with assms show ?thesis
    by (auto simp: read_response_def deserialize_struct_def reply_types result_simps get_put)
next
  case (Response res msg)
  then show ?thesis
    using assms struct_prefix [of "[VI32 res, VStr msg]" "''Response''" "''Response''" "[]"]
    by (simp add: reply_types read_response_def)
next
  case (OpenReturn res msg fh)
  then show ?thesis
    using assms struct_prefix [of "[VI32 res, VStr msg]" "''Response''" "''OpenReturn''" "[VI32 fh]"]
    by (simp add: reply_types read_response_def)
next
  case (StartSessionReturn res msg sid)
  then show ?thesis
    using assms struct_prefix [of "[VI32 res, VStr msg]" "''Response''" "''StartSessionReturn''"
        "[VI64 sid]"]
    by (simp add: reply_types read_response_def)
next
  case (CloseReturn res msg need parent)
  then show ?thesis
    using assms struct_prefix [of "[VI32 res, VStr msg]" "''Response''" "''CloseReturn''"
        "[VI32 need, VStr parent]"]
    by (simp add: reply_types read_response_def)
qed

lemma read_strs_put:
  "\<forall>s \<in> set ss. length s < 2 ^ 32 \<Longrightarrow>
   read_strs B (length ss) (concat (map (put_str B) ss) @ bs) = Inr ss"
  by (induction ss) (simp_all add: get_put)

lemma read_end_session_put:
  assumes "serialize_ret B (EndSessionReturn n parents) = Inr bs"
    and "\<forall>s \<in> set parents. length s < 2 ^ 32" and "length parents < 2 ^ 31"
  shows "read_end_session_return B bs = Inr parents"
proof -
  obtain tail where "bs = put_i32 B 0 @ put_str B ''OK'' @ put_i32 B (of_nat (length parents)) @
      concat (map (put_str B) parents) @ tail"
    using assms(1) by (auto simp: result_simps)
  then show ?thesis
    using read_strs_put [OF assms(2), of tail] assms(3)
    by (simp add: read_end_session_return_def get_put sint_of_nat32)
qed

lemma read_open_put:
  "serialize_ret B (OpenReturn res msg fh) = Inr bs \<Longrightarrow> length msg < 2 ^ 32 \<Longrightarrow>
   read_open_return B bs = Inr (res, msg, fh)"
  using struct_roundtrip [of "[VI32 res, VStr msg, VI32 fh]" "''OpenReturn''" bs]
  by (simp add: reply_types read_open_return_def)

lemma read_start_session_put:
  "serialize_ret B (StartSessionReturn res msg sid) = Inr bs \<Longrightarrow> length msg < 2 ^ 32 \<Longrightarrow>
   read_start_session_return B bs = Inr (res, msg, sid)"
  using struct_roundtrip [of "[VI32 res, VStr msg, VI64 sid]" "''StartSessionReturn''" bs]
  by (simp add: reply_types read_start_session_return_def)

lemma read_close_put:
  "serialize_ret B (CloseReturn res msg need parent) = Inr bs \<Longrightarrow> length msg < 2 ^ 32 \<Longrightarrow>
   length parent < 2 ^ 32 \<Longrightarrow> read_close_return B bs = Inr (res, msg, need, parent)"
  using struct_roundtrip [of "[VI32 res, VStr msg, VI32 need, VStr parent]" "''CloseReturn''" bs]
  by (simp add: reply_types read_close_return_def)

lemma serialize_ret_struct_total:
  "(\<exists>n ps. r = EndSessionReturn n ps) \<or> (\<exists>bs. serialize_ret B r = Inr bs)"
  using serialize_struct_total by (cases r) simp_all

end

section \<open>Properties\<close>

text \<open>
  C30: an action survives the log. For any buffer library that reads back what it wrote,
  serializing an action whose strings are shorter than \<open>2 ^ 32\<close> never overflows the buffer it
  allocates, and the dispatch function reads the same action from it, by its number and fields.
\<close>

theorem actions_survive_the_log:
  assumes "buffer_api B" and "action_fits a"
  shows "\<exists>bs. serialize_action B a = Inr bs \<and> create_action_from_buf B bs = Inr a"
proof -
  obtain bs where "serialize_action B a = Inr bs"
    using buffer_api.serialize_struct_total [OF assms(1)] unfolding serialize_action_def by blast
  then show ?thesis using buffer_api.action_roundtrip [OF assms] by blast
qed

theorem actions_survive_the_log_witness:
  "\<exists>bs. serialize_action le_buf (OpenAction 3 ''/a/b'' 0 1) = Inr bs \<and>
     create_action_from_buf le_buf bs = Inr (OpenAction 3 ''/a/b'' 0 1)"
  by (rule actions_survive_the_log [OF le.buffer_api_axioms]) (simp add: action_fits_def)

end
