(* ===== verification/State_Machine.thy ===== *)
theory State_Machine
  imports Session Data_Store Wire
begin

text \<open>
  The replicated state machine (\<open>StateMachine.cpp\<close>): its state is the file store, the
  session database and the index of the last committed entry; each \<open>apply_\<close> overload is one
  function from the state to a crash or a reply with the new state, in the order of the
  code's guards and writes. References into the store are re-read after a write that may
  alias them (a root path is its own parent). A session object is shared with the database,
  so its changes are written back at once.
\<close>

record sm_state =
  ds :: data_store
  sdb :: db
  last_committed_idx :: i64

definition new_state_machine :: "data_store \<Rightarrow> db \<Rightarrow> sm_state" where
  "new_state_machine f d = \<lparr>ds = f, sdb = d, last_committed_idx = 0\<rparr>"

text \<open>
  The snapshot interface of the replication library, which the state machine does not implement: no snapshot
  is ever written, read or offered, and the index of the last committed entry that is reported is 0.
\<close>

definition apply_snapshot :: "'snapshot \<Rightarrow> sm_state \<Rightarrow> bool \<times> sm_state" where
  "apply_snapshot snap s = (False, s)"

definition last_snapshot :: "sm_state \<Rightarrow> 'snapshot option" where
  "last_snapshot s = None"

definition last_commit_index :: "sm_state \<Rightarrow> i64" where
  "last_commit_index s = 0"

definition create_snapshot :: "'snapshot \<Rightarrow> sm_state \<Rightarrow> sm_state" where
  "create_snapshot snap s = s"

definition session_not_found_str :: string where
  "session_not_found_str = ''Session Not Found''"

definition set_file :: "string \<Rightarrow> file_meta \<times> string \<Rightarrow> sm_state \<Rightarrow> sm_state" where
  "set_file key f s = s\<lparr>ds := (ds s)(key \<mapsto> f)\<rparr>"

definition set_session :: "i32 \<Rightarrow> entry \<Rightarrow> sm_state \<Rightarrow> sm_state" where
  "set_session sid e s = s\<lparr>sdb := put_session sid e (sdb s)\<rparr>"

section \<open>Opening\<close>

text \<open>
  \<open>apply_ (OpenAction)\<close> in three parts: the file's entry is created if missing and its
  flags are set; the parent is checked and a new name is appended to its listing; the
  session gets a handle and is subscribed.
\<close>

definition open_file :: "string \<Rightarrow> i32 \<Rightarrow> i32 \<Rightarrow> sm_state \<Rightarrow> sm_state result" where
  "open_file path a_is_directory a_is_ephemeral s =
     (let s0 = (if ds s path = None then set_file path (new_file_meta, []) s else s) in
      bindE (map_at (ds s0) path) (\<lambda>(meta, content).
      let meta1 = (if \<not> file_exists meta
                   then meta\<lparr>is_directory := bool_of_int a_is_directory\<rparr> else meta);
          meta2 = meta1\<lparr>is_ephemeral := Some (bool_of_int a_is_ephemeral)\<rparr>
      in Inr (set_file path (meta2, content) s0)))"

definition open_parent :: "string \<Rightarrow> sm_state \<Rightarrow> sm_state result" where
  "open_parent path s =
     (let parent = parent_path path in
      bindE (assertE (ds s parent \<noteq> None)) (\<lambda>_.
      bindE (map_at (ds s) parent) (\<lambda>(parent_meta, parent_content).
      bindE (assertE (is_directory parent_meta)) (\<lambda>_.
      bindE (map_at (ds s) path) (\<lambda>(meta, _).
      Inr (if \<not> is_root_path path \<and> \<not> file_exists meta
           then set_file parent (parent_meta, add_child parent_content (filename path)) s
           else s))))))"

definition open_handle :: "i32 \<Rightarrow> entry \<Rightarrow> string \<Rightarrow> sm_state \<Rightarrow> (sm_ret \<times> sm_state) result" where
  "open_handle sid session path s =
     bindE (map_at (ds s) path) (\<lambda>(meta, content).
     let (fh, session') = add_new_handle path (instance_num meta) session;
         meta' = meta\<lparr>file_exists := True,
                   subscribers := AList.update (entry_id session) fh (subscribers meta)\<rparr>
     in Inr (OpenReturn 0 ''OK'' fh,
             set_session sid session' (set_file path (meta', content) s)))"

definition apply_open :: "i64 \<Rightarrow> string \<Rightarrow> i32 \<Rightarrow> i32 \<Rightarrow> sm_state \<Rightarrow> (sm_ret \<times> sm_state) result" where
  "apply_open session_id path a_is_directory a_is_ephemeral s =
     (let sid = int_of_int64 session_id in
      case find_session sid (sdb s) of
        None \<Rightarrow> Inr (OpenReturn (-1) session_not_found_str (-1), s)
      | Some session \<Rightarrow>
          bindE (open_file path a_is_directory a_is_ephemeral s) (\<lambda>s1.
          bindE (open_parent path s1) (\<lambda>s2.
          open_handle sid session path s2)))"

section \<open>Closing\<close>

text \<open>
  The second half of \<open>close_file_delete_ephermeral\<close>: the session's subscription to the
  file is dropped, and an ephemeral file with no subscriber left is removed, in which case
  its parent directory is returned if its name was listed there.
\<close>

definition drop_subscriber :: "i32 \<Rightarrow> string \<Rightarrow> sm_state \<Rightarrow> (string option \<times> sm_state) result" where
  "drop_subscriber session_id key s =
     bindE (map_at (ds s) key) (\<lambda>(meta, content).
     if subscribed meta session_id \<noteq> None then
       (let meta1 = meta\<lparr>subscribers := AList.delete session_id (subscribers meta)\<rparr> in
        bindE (if subscribers meta1 = [] then read_init (is_ephemeral meta1) else Inr False) (\<lambda>del.
        if del then
          (let s2 = set_file key (meta1\<lparr>file_exists := False\<rparr>, content) s;
               parent = parent_path key
           in
           bindE (map_at (ds s2) parent) (\<lambda>(parent_meta, parent_content).
           case remove_child parent_content (filename key) of
             Some parent_content' \<Rightarrow>
               Inr (Some parent, set_file parent (parent_meta, parent_content') s2)
           | None \<Rightarrow> Inr (None, s2)))
        else Inr (None, set_file key (meta1, content) s)))
     else Inr (None, s))"

text \<open>The whole function; it also returns the session object it changed.\<close>

definition close_file_delete_ephermeral ::
    "i32 \<Rightarrow> entry \<Rightarrow> i32 \<Rightarrow> sm_state \<Rightarrow> (string option \<times> entry \<times> sm_state) result" where
  "close_file_delete_ephermeral sid session fh s =
     bindE (handle_inum fh session) (\<lambda>inum.
     if inum = -1 then Inr (None, session, s)
     else
       bindE (close_handle fh session) (\<lambda>session'.
       bindE (fh_to_key fh session') (\<lambda>key.
       bindE (drop_subscriber (entry_id session') key (set_session sid session' s)) (\<lambda>(ret, s1).
       Inr (ret, session', s1)))))"

text \<open>The result code: -2 file not found, -1 lock not held (or no session), 0 released.\<close>

definition release_lock :: "i32 \<Rightarrow> i32 \<Rightarrow> sm_state \<Rightarrow> (i32 \<times> sm_state) result" where
  "release_lock sid fh s =
     (case find_session sid (sdb s) of
        None \<Rightarrow> Inr (-1, s)
      | Some session \<Rightarrow>
          bindE (fh_to_key fh session) (\<lambda>key.
          bindE (map_at (ds s) key) (\<lambda>(meta, content).
          if \<not> file_exists meta then Inr (-2, s)
          else
            (let (released, meta') = meta_release sid meta
             in Inr (if released then 0 else -1, set_file key (meta', content) s)))))"

definition apply_close :: "i64 \<Rightarrow> i32 \<Rightarrow> sm_state \<Rightarrow> (sm_ret \<times> sm_state) result" where
  "apply_close session_id fh s =
     (let sid = int_of_int64 session_id in
      case find_session sid (sdb s) of
        None \<Rightarrow> Inr (CloseReturn (-1) session_not_found_str (int_of_bool False) [], s)
      | Some session \<Rightarrow>
          bindE (close_file_delete_ephermeral sid session fh s) (\<lambda>(ret, _, s1).
          bindE (release_lock sid fh s1) (\<lambda>(_, s2).
          case ret of
            None \<Rightarrow> Inl Bad_optional_access
          | Some parent \<Rightarrow> Inr (CloseReturn 0 ''OK'' (int_of_bool True) parent, s2))))"

section \<open>Sessions\<close>

definition apply_start_session :: "sm_state \<Rightarrow> (sm_ret \<times> sm_state) result" where
  "apply_start_session s =
     (let (session, d) = create_session (sdb s)
      in Inr (StartSessionReturn 0 ''OK'' (int64_of_int (entry_id session)), s\<lparr>sdb := d\<rparr>))"

fun end_session_loop ::
    "i32 \<Rightarrow> nat list \<Rightarrow> entry \<Rightarrow> string list \<Rightarrow> nat \<Rightarrow> sm_state \<Rightarrow> (string list \<times> nat \<times> sm_state) result"
  where
  "end_session_loop sid [] session parents sz s = Inr (parents, sz, s)"
| "end_session_loop sid (i # is) session parents sz s =
     bindE (close_file_delete_ephermeral sid session (of_nat i) s) (\<lambda>(ret, session', s1).
     let parents' = (case ret of Some p \<Rightarrow> parents @ [p] | None \<Rightarrow> parents);
         sz' = (case ret of Some p \<Rightarrow> sz + length parents' + 8 | None \<Rightarrow> sz)
     in
     bindE (release_lock sid (of_nat i) s1) (\<lambda>(_, s2).
     end_session_loop sid is session' parents' sz' s2))"

definition apply_end_session :: "i64 \<Rightarrow> sm_state \<Rightarrow> (sm_ret \<times> sm_state) result" where
  "apply_end_session session_id s =
     (let sid = int_of_int64 session_id in
      case find_session sid (sdb s) of
        None \<Rightarrow> Inr (Response (-1) session_not_found_str, s)
      | Some session \<Rightarrow>
          bindE (end_session_loop sid [0..<nat (sint (handle_count session))] session []
                   (4 + 8 + length ''OK'' + 4) s) (\<lambda>(parents, sz, s1).
          bindE (delete_session sid (sdb s1)) (\<lambda>d.
          Inr (EndSessionReturn sz parents, s1\<lparr>sdb := d\<rparr>))))"

section \<open>Content and locks\<close>

definition apply_set_content :: "i64 \<Rightarrow> i32 \<Rightarrow> string \<Rightarrow> sm_state \<Rightarrow> (sm_ret \<times> sm_state) result" where
  "apply_set_content session_id fh a_content s =
     (let sid = int_of_int64 session_id in
      case find_session sid (sdb s) of
        None \<Rightarrow> Inr (Response (-1) session_not_found_str, s)
      | Some session \<Rightarrow>
          bindE (fh_to_key fh session) (\<lambda>key.
          bindE (map_at (ds s) key) (\<lambda>(meta, content).
          bindE (handle_inum fh session) (\<lambda>inum.
          if inum \<noteq> instance_num meta then Inr (Response (-1) ''Instance num mismatch'', s)
          else if \<not> file_exists meta then Inr (Response (-1) ''File does not exist'', s)
          else Inr (Response 0 ''OK'', set_file key (meta, a_content) s)))))"

definition apply_acq :: "i64 \<Rightarrow> i32 \<Rightarrow> i32 \<Rightarrow> sm_state \<Rightarrow> (sm_ret \<times> sm_state) result" where
  "apply_acq session_id fh ex s =
     (let sid = int_of_int64 session_id in
      case find_session sid (sdb s) of
        None \<Rightarrow> Inr (Response (-1) session_not_found_str, s)
      | Some session \<Rightarrow>
          bindE (fh_to_key fh session) (\<lambda>key.
          bindE (map_at (ds s) key) (\<lambda>(meta, content).
          bindE (meta_acquire (bool_of_int ex) (entry_id session) meta) (\<lambda>(granted, meta').
          if granted then Inr (Response 0 [], set_file key (meta', content) s)
          else Inr (Response 1 ''fail to acquire'', s)))))"

definition apply_rel :: "i64 \<Rightarrow> i32 \<Rightarrow> sm_state \<Rightarrow> (sm_ret \<times> sm_state) result" where
  "apply_rel session_id fh s =
     bindE (release_lock (int_of_int64 session_id) fh s) (\<lambda>(rc, s1).
     if rc = -2 then Inr (Response (-2) ''file not found'', s1)
     else if rc = -1 then Inr (Response (-1) ''the session does not hold this lock'', s1)
     else if rc = 0 then Inr (Response 0 [], s1)
     else Inl Terminated)"

text \<open>The sessions that hold the lock of a deleted file are told so.\<close>

definition enqueue_owners :: "i32 set \<Rightarrow> i32 \<Rightarrow> db \<Rightarrow> db" where
  "enqueue_owners owners fh d =
     d\<lparr>session_db := (\<lambda>sid. if sid \<in> owners
        then map_option (\<lambda>e. snd (entry_enqueue_event fh e)) (session_db d sid)
        else session_db d sid)\<rparr>"

definition apply_delete :: "i64 \<Rightarrow> i32 \<Rightarrow> sm_state \<Rightarrow> (sm_ret \<times> sm_state) result" where
  "apply_delete session_id fh s =
     (let sid = int_of_int64 session_id in
      case find_session sid (sdb s) of
        None \<Rightarrow> Inr (Response (-1) session_not_found_str, s)
      | Some session \<Rightarrow>
          bindE (fh_to_key fh session) (\<lambda>key.
          bindE (map_at (ds s) key) (\<lambda>(meta, content).
          bindE (assertE (\<not> (is_directory meta \<and> content \<noteq> []))) (\<lambda>_.
          let s1 = set_file key (meta_delete meta, [])
                     (s\<lparr>sdb := enqueue_owners (lock_owners meta) fh (sdb s)\<rparr>);
              parent = parent_path key
          in
          bindE (map_at (ds s1) parent) (\<lambda>(parent_meta, parent_content).
          Inr (Response 0 [],
               case remove_child parent_content (filename key) of
                 Some parent_content' \<Rightarrow> set_file parent (parent_meta, parent_content') s1
               | None \<Rightarrow> s1))))))"

section \<open>Applying and committing\<close>

fun apply_action :: "action \<Rightarrow> sm_state \<Rightarrow> (sm_ret \<times> sm_state) result" where
  "apply_action (OpenAction sid path d e) s = apply_open sid path d e s"
| "apply_action (CloseAction sid fh) s = apply_close sid fh s"
| "apply_action StartSessionAction s = apply_start_session s"
| "apply_action (EndSessionAction sid) s = apply_end_session sid s"
| "apply_action (AcqAction sid fh ex) s = apply_acq sid fh ex s"
| "apply_action (RelAction sid fh) s = apply_rel sid fh s"
| "apply_action (SetContentAction sid fh c) s = apply_set_content sid fh c s"
| "apply_action (DeleteAction sid fh) s = apply_delete sid fh s"

definition commit :: "buf_api \<Rightarrow> i64 \<Rightarrow> byte list \<Rightarrow> sm_state \<Rightarrow> (byte list \<times> sm_state) result" where
  "commit B log_idx data s =
     bindE (create_action_from_buf B data) (\<lambda>a.
     bindE (apply_action a s) (\<lambda>(ret, s1).
     bindE (serialize_ret B ret) (\<lambda>buf.
     Inr (buf, s1\<lparr>last_committed_idx := log_idx\<rparr>))))"

text \<open>
  The start state \<open>main\<close> in \<open>server.cpp\<close> builds: an empty session database and a store
  with the existing directory "/".
\<close>

definition init_state :: sm_state where
  "init_state = \<lparr>ds = [''/'' \<mapsto> (new_file_meta\<lparr>file_exists := True, is_directory := True\<rparr>, [])],
     sdb = empty_db, last_committed_idx = 0\<rparr>"

text \<open>A replica's run over a log of actions.\<close>

fun run_log :: "action list \<Rightarrow> sm_state \<Rightarrow> (sm_ret list \<times> sm_state) result" where
  "run_log [] s = Inr ([], s)"
| "run_log (a # as) s =
     bindE (apply_action a s) (\<lambda>(r, s1).
     bindE (run_log as s1) (\<lambda>(rs, s2). Inr (r # rs, s2)))"

lemma set_file_simps [simp]:
  "ds (set_file key f s) = (ds s)(key \<mapsto> f)" "sdb (set_file key f s) = sdb s"
  "last_committed_idx (set_file key f s) = last_committed_idx s"
  by (simp_all add: set_file_def)

lemma set_session_simps [simp]:
  "ds (set_session sid e s) = ds s" "sdb (set_session sid e s) = put_session sid e (sdb s)"
  "last_committed_idx (set_session sid e s) = last_committed_idx s"
  by (simp_all add: set_session_def)

text \<open>The branches of \<open>drop_subscriber\<close> that return.\<close>

lemma drop_subscriber_cases:
  assumes "drop_subscriber sid key s = Inr (ret, s')" and m: "ds s key = Some (m, c)"
    and m1: "m1 = m\<lparr>subscribers := AList.delete sid (subscribers m)\<rparr>"
  obtains (unsubscribed) "subscribed m sid = None" "ret = None" "s' = s"
  | (kept) "subscribed m sid \<noteq> None" "\<not> (subscribers m1 = [] \<and> is_ephemeral m1 = Some True)" "ret = None"
      "s' = set_file key (m1, c) s"
  | (removed) pm pc where "subscribed m sid \<noteq> None" "subscribers m1 = []" "is_ephemeral m1 = Some True"
      "ds (set_file key (m1\<lparr>file_exists := False\<rparr>, c) s) (parent_path key) = Some (pm, pc)"
      "remove_child pc (filename key) = None" "ret = None"
      "s' = set_file key (m1\<lparr>file_exists := False\<rparr>, c) s"
  | (unlisted) pm pc pc' where "subscribed m sid \<noteq> None" "subscribers m1 = []" "is_ephemeral m1 = Some True"
      "ds (set_file key (m1\<lparr>file_exists := False\<rparr>, c) s) (parent_path key) = Some (pm, pc)"
      "remove_child pc (filename key) = Some pc'" "ret = Some (parent_path key)"
      "s' = set_file (parent_path key) (pm, pc') (set_file key (m1\<lparr>file_exists := False\<rparr>, c) s)"
proof (cases "subscribed m sid = None")
  case True
  then show thesis using assms that(1) by (simp add: drop_subscriber_def)
next
  case False
  show thesis
  proof (cases "subscribers m1 = [] \<and> is_ephemeral m1 = Some True")
    case True
    then have "bindE (map_at (ds (set_file key (m1\<lparr>file_exists := False\<rparr>, c) s)) (parent_path key))
        (\<lambda>(parent_meta, parent_content).
           case remove_child parent_content (filename key) of
             Some parent_content' \<Rightarrow>
               Inr (Some (parent_path key), set_file (parent_path key) (parent_meta, parent_content')
                  (set_file key (m1\<lparr>file_exists := False\<rparr>, c) s))
           | None \<Rightarrow> Inr (None, set_file key (m1\<lparr>file_exists := False\<rparr>, c) s)) = Inr (ret, s')"
      using assms(1) m False by (simp add: drop_subscriber_def Let_def flip: m1)
    then obtain pm pc where
        pm: "ds (set_file key (m1\<lparr>file_exists := False\<rparr>, c) s) (parent_path key) = Some (pm, pc)"
      and rm: "(case remove_child pc (filename key) of
             Some parent_content' \<Rightarrow>
               Inr (Some (parent_path key), set_file (parent_path key) (pm, parent_content')
                  (set_file key (m1\<lparr>file_exists := False\<rparr>, c) s))
           | None \<Rightarrow> Inr (None, set_file key (m1\<lparr>file_exists := False\<rparr>, c) s))
           = (Inr (ret, s') :: (string option \<times> sm_state) result)"
      unfolding bindE_Inr_iff map_at_Inr_iff by auto
    show thesis
      using rm that(3) [OF False _ _ pm] that(4) [OF False _ _ pm] True by (auto split: option.splits)
  next
    case nd: False
    then show thesis
      using assms(1) m False that(2) [OF False nd]
      by (auto simp: drop_subscriber_def Let_def result_simps simp flip: m1 split: if_splits)
  qed
qed

lemma run_log_append:
  "run_log (as @ bs) s =
   bindE (run_log as s) (\<lambda>(rs, s1). bindE (run_log bs s1) (\<lambda>(rs', s2). Inr (rs @ rs', s2)))"
proof (induction as arbitrary: s)
  case Nil
  show ?case by (cases "run_log bs s") auto
next
  case (Cons a as)
  show ?case
  proof (cases "apply_action a s")
    case (Inr p)
    obtain r s1 where p: "p = (r, s1)" by (cases p)
    show ?thesis
    proof (cases "run_log as s1")
      case (Inr q)
      obtain rs s2 where q: "q = (rs, s2)" by (cases q)
      show ?thesis
        using \<open>apply_action a s = Inr p\<close> p Inr q Cons.IH [of s1] by (cases "run_log bs s2") auto
    qed (use Inr p Cons.IH [of s1] in simp)
  qed simp
qed

section \<open>Reachable states\<close>

text \<open>
  \<open>reaches as s\<close>: a replica that committed the actions \<open>as\<close>, starting empty, is in
  state \<open>s\<close>. \<open>after_log\<close> computes that state.
\<close>

definition reaches :: "action list \<Rightarrow> sm_state \<Rightarrow> bool" where
  "reaches as s \<longleftrightarrow> (\<exists>rs. run_log as init_state = Inr (rs, s))"

definition runs :: "action list \<Rightarrow> bool" where
  "runs as \<longleftrightarrow> (case run_log as init_state of Inl _ \<Rightarrow> False | Inr _ \<Rightarrow> True)"

definition after_log :: "action list \<Rightarrow> sm_state" where
  "after_log as = (case run_log as init_state of Inl _ \<Rightarrow> init_state | Inr (_, s) \<Rightarrow> s)"

lemma reaches_after: "runs as \<Longrightarrow> reaches as (after_log as)"
  by (auto simp: runs_def reaches_def after_log_def split: sum.splits)

lemma reaches_append:
  "reaches as s \<Longrightarrow> run_log bs s = Inr (rs, s') \<Longrightarrow> reaches (as @ bs) s'"
  by (auto simp: reaches_def run_log_append)

lemma reaches_Nil: "reaches [] init_state"
  by (simp add: reaches_def)

end
