(* ===== verification/SM_Invariant.thy ===== *)
theory SM_Invariant
  imports State_Machine
begin

text \<open>
  The well-formedness invariant of the replicated state and its preservation by every
  action. The parameter \<open>n\<close> counts the actions applied so far: it bounds the session
  counter, the number of handles of a session and every instance number, so that no 32-bit
  counter wraps within a log of fewer than \<open>2 ^ 31\<close> entries.
\<close>

definition meta_ok :: "nat \<Rightarrow> file_meta \<Rightarrow> bool" where
  "meta_ok n m \<longleftrightarrow> lock_wf m \<and> distinct (map fst (subscribers m)) \<and>
     (subscribers m \<noteq> [] \<longrightarrow> is_ephemeral m \<noteq> None) \<and>
     0 \<le> sint (instance_num m) \<and> sint (instance_num m) \<le> int n"

definition entry_ok :: "nat \<Rightarrow> i32 \<Rightarrow> entry \<Rightarrow> bool" where
  "entry_ok n sid e \<longleftrightarrow> entry_id e = sid \<and> length (entry_inum e) = length (entry_v e) \<and>
     length (entry_v e) \<le> n \<and> (\<forall>i \<in> set (entry_inum e). -1 \<le> sint i \<and> sint i \<le> int n)"

definition sessions_ok :: "nat \<Rightarrow> db \<Rightarrow> bool" where
  "sessions_ok n d \<longleftrightarrow> unat (next_id d) \<le> n \<and>
     (\<forall>sid e. find_session sid d = Some e \<longrightarrow> entry_ok n sid e \<and> unat sid < unat (next_id d))"

definition files_ok :: "nat \<Rightarrow> data_store \<Rightarrow> bool" where
  "files_ok n f \<longleftrightarrow> f ''/'' \<noteq> None \<and>
     (\<forall>p m c. f p = Some (m, c) \<longrightarrow> meta_ok n m \<and> f (parent_path p) \<noteq> None)"

text \<open>
  Handles point to paths of the store, and a subscription names an open handle of its
  session on that very file.
\<close>

definition subscription_ok :: "db \<Rightarrow> string \<Rightarrow> i32 \<Rightarrow> i32 \<Rightarrow> bool" where
  "subscription_ok d p sid fh \<longleftrightarrow>
     (\<exists>e. find_session sid d = Some e \<and> handle_open e fh \<and> fh_to_key fh e = Inr p)"

definition links_ok :: "data_store \<Rightarrow> db \<Rightarrow> bool" where
  "links_ok f d \<longleftrightarrow>
     (\<forall>sid e p. find_session sid d = Some e \<longrightarrow> p \<in> set (entry_v e) \<longrightarrow> f p \<noteq> None) \<and>
     (\<forall>p m c sid fh. f p = Some (m, c) \<longrightarrow> subscribed m sid = Some fh \<longrightarrow> subscription_ok d p sid fh)"

definition sm_inv :: "nat \<Rightarrow> sm_state \<Rightarrow> bool" where
  "sm_inv n s \<longleftrightarrow> sessions_ok n (sdb s) \<and> files_ok n (ds s) \<and> links_ok (ds s) (sdb s)"

lemmas sm_inv_defs = sm_inv_def sessions_ok_def files_ok_def links_ok_def

section \<open>Consequences\<close>

lemma sm_invI:
  assumes "unat (next_id (sdb s)) \<le> n"
    and "\<And>sid e. find_session sid (sdb s) = Some e \<Longrightarrow> entry_ok n sid e"
    and "\<And>sid e. find_session sid (sdb s) = Some e \<Longrightarrow> unat sid < unat (next_id (sdb s))"
    and "ds s ''/'' \<noteq> None"
    and "\<And>p m c. ds s p = Some (m, c) \<Longrightarrow> meta_ok n m"
    and "\<And>p m c. ds s p = Some (m, c) \<Longrightarrow> ds s (parent_path p) \<noteq> None"
    and "\<And>sid e p. find_session sid (sdb s) = Some e \<Longrightarrow> p \<in> set (entry_v e) \<Longrightarrow> ds s p \<noteq> None"
    and "\<And>p m c sid fh. ds s p = Some (m, c) \<Longrightarrow> subscribed m sid = Some fh \<Longrightarrow>
           subscription_ok (sdb s) p sid fh"
  shows "sm_inv n s"
  unfolding sm_inv_defs using assms by blast

lemma sm_inv_next: "sm_inv n s \<Longrightarrow> unat (next_id (sdb s)) \<le> n"
  unfolding sm_inv_defs by blast

lemma sm_inv_entry: "sm_inv n s \<Longrightarrow> find_session sid (sdb s) = Some e \<Longrightarrow> entry_ok n sid e"
  unfolding sm_inv_defs by blast

lemma sm_inv_fresh:
  "sm_inv n s \<Longrightarrow> find_session sid (sdb s) = Some e \<Longrightarrow> unat sid < unat (next_id (sdb s))"
  unfolding sm_inv_defs by blast

lemma sm_inv_root: "sm_inv n s \<Longrightarrow> ds s ''/'' \<noteq> None"
  unfolding sm_inv_defs by blast

lemma sm_inv_meta: "sm_inv n s \<Longrightarrow> ds s p = Some (m, c) \<Longrightarrow> meta_ok n m"
  unfolding sm_inv_defs by blast

lemma sm_inv_parent: "sm_inv n s \<Longrightarrow> ds s p = Some (m, c) \<Longrightarrow> ds s (parent_path p) \<noteq> None"
  unfolding sm_inv_defs by blast

lemma sm_inv_path:
  "sm_inv n s \<Longrightarrow> find_session sid (sdb s) = Some e \<Longrightarrow> p \<in> set (entry_v e) \<Longrightarrow> ds s p \<noteq> None"
  unfolding sm_inv_defs by blast

lemma sm_inv_subscription:
  "sm_inv n s \<Longrightarrow> ds s p = Some (m, c) \<Longrightarrow> subscribed m sid = Some fh \<Longrightarrow> subscription_ok (sdb s) p sid fh"
  unfolding sm_inv_defs by blast

lemmas sm_inv_dests = sm_inv_next sm_inv_entry sm_inv_fresh sm_inv_root sm_inv_meta sm_inv_parent
  sm_inv_path sm_inv_subscription

lemma sm_inv_key:
  assumes "sm_inv n s" and "find_session sid (sdb s) = Some e" and "fh_to_key fh e = Inr p"
  shows "\<exists>m c. ds s p = Some (m, c)"
proof -
  have "p \<in> set (entry_v e)"
    using assms(3) by (auto simp: fh_to_key_def result_simps in_range_def)
  then show ?thesis using sm_inv_path [OF assms(1,2)] by auto
qed

lemma meta_ok_mono: "meta_ok n m \<Longrightarrow> n \<le> n' \<Longrightarrow> meta_ok n' m"
  by (auto simp: meta_ok_def)

lemma entry_ok_mono: "entry_ok n sid e \<Longrightarrow> n \<le> n' \<Longrightarrow> entry_ok n' sid e"
  by (fastforce simp: entry_ok_def)

lemma sm_inv_mono:
  assumes "sm_inv n s" and "n \<le> n'"
  shows "sm_inv n' s"
proof (rule sm_invI)
  show "unat (next_id (sdb s)) \<le> n'" using sm_inv_next [OF assms(1)] assms(2) by simp
qed (metis assms meta_ok_mono entry_ok_mono sm_inv_dests)+

lemma sm_inv_idx [simp]: "sm_inv n (s\<lparr>last_committed_idx := i\<rparr>) = sm_inv n s"
  by (simp add: sm_inv_def)

lemma init_state_inv: "sm_inv 0 init_state"
  by (rule sm_invI)
    (auto simp: init_state_def empty_db_def find_session_def meta_ok_def lock_wf_def
      new_file_meta_def subscribed_def split: if_splits)

section \<open>Writes that keep the invariant\<close>

lemma sint_inc: "sint (x :: i32) < 2 ^ 31 - 1 \<Longrightarrow> sint (x + 1) = sint x + 1"
  using sint_ge [of x] by (simp add: sint_word_ariths signed_take_bit_int_eq_self)

lemma unat_inc: "unat (x :: i32) < 2 ^ 32 - 1 \<Longrightarrow> unat (x + 1) = unat x + 1"
  by (simp add: unat_word_ariths)

lemma sm_inv_set_file:
  assumes "sm_inv n s" and "ds s p = Some (m0, c0)" and "meta_ok n m"
    and "subscribers m = subscribers m0"
  shows "sm_inv n (set_file p (m, c) s)"
proof (rule sm_invI)
  fix q m1 c1 sid fh
  assume "ds (set_file p (m, c) s) q = Some (m1, c1)" and "subscribed m1 sid = Some fh"
  then show "subscription_ok (sdb (set_file p (m, c) s)) q sid fh"
    using sm_inv_subscription [OF assms(1)] assms(2,4) by (auto simp: subscribed_def split: if_splits)
qed (use sm_inv_dests [OF assms(1)] assms(2,3) in \<open>auto split: if_splits\<close>)

lemma sm_inv_new_file:
  assumes "sm_inv n s" and "ds s p = None" and "meta_ok n m" and "subscribers m = []"
    and "parent_path p = p \<or> ds s (parent_path p) \<noteq> None"
  shows "sm_inv n (set_file p (m, c) s)"
proof (rule sm_invI)
  fix q m1 c1 sid fh
  assume "ds (set_file p (m, c) s) q = Some (m1, c1)" and "subscribed m1 sid = Some fh"
  then show "subscription_ok (sdb (set_file p (m, c) s)) q sid fh"
    using sm_inv_subscription [OF assms(1)] assms(4) by (auto simp: subscribed_def split: if_splits)
next
  fix q m1 c1
  assume "ds (set_file p (m, c) s) q = Some (m1, c1)"
  then show "ds (set_file p (m, c) s) (parent_path q) \<noteq> None"
    using sm_inv_parent [OF assms(1)] assms(5) by (auto split: if_splits)
qed (use sm_inv_dests [OF assms(1)] assms(2,3) in \<open>auto split: if_splits\<close>)

lemma sm_inv_content:
  "sm_inv n s \<Longrightarrow> ds s p = Some (m, c0) \<Longrightarrow> sm_inv n (set_file p (m, c) s)"
  by (rule sm_inv_set_file) (auto intro: sm_inv_meta)

lemma find_put_session: "find_session j (put_session k e d) = (if j = k then Some e else find_session j d)"
  by (rule db.find_put)

lemma next_id_put [simp]: "next_id (put_session k e d) = next_id d"
  by (simp add: put_session_def)

text \<open>A session that gains a handle and subscribes to its file.\<close>

lemma sm_inv_subscribe:
  assumes inv: "sm_inv n s" and n: "n < 2 ^ 31 - 1"
    and e: "find_session sid (sdb s) = Some e" and p: "ds s p = Some (m, c0)"
    and eph: "is_ephemeral m \<noteq> None"
    and add: "add_new_handle p (instance_num m) e = (fh, e')"
    and m': "m' = m\<lparr>file_exists := True, subscribers := AList.update (entry_id e) fh (subscribers m)\<rparr>"
  shows "sm_inv (Suc n) (set_session sid e' (set_file p (m', c) s))"
proof -
  have eok: "entry_ok n sid e" using inv e by (rule sm_inv_entry)
  have mok: "meta_ok n m" using inv p by (rule sm_inv_meta)
  have e': "e' = e\<lparr>entry_v := entry_v e @ [p], entry_inum := entry_inum e @ [instance_num m]\<rparr>"
    using add by (simp add: add_new_handle_def Let_def)
  have len: "length (entry_v e) < 2 ^ 31 - 1" "length (entry_inum e) = length (entry_v e)"
    using eok n by (auto simp: entry_ok_def)
  have e'ok: "entry_ok (Suc n) sid e'"
    using eok mok by (auto simp: entry_ok_def meta_ok_def e' dest: bspec)
  have key: "fh_to_key fh e' = Inr p" "handle_inum fh e' = Inr (instance_num m)"
    using add_new_handle_lookup [OF add] len by auto
  have "instance_num m \<noteq> -1" using mok by (auto simp: meta_ok_def)
  then have new: "subscription_ok (put_session sid e' (sdb s)) p sid fh"
    using key handle_inum_open [OF key(2)] by (simp add: subscription_ok_def find_put_session)
  have old: "subscription_ok (put_session sid e' (sdb s)) q j g"
    if "subscription_ok (sdb s) q j g" for q j g
    using that e by (auto simp: subscription_ok_def find_put_session e' handle_open_def fh_to_key_def
        result_simps in_range_def nth_append)
  have sub: "subscribed m' j = (if j = sid then Some fh else subscribed m j)" for j
    using eok by (simp add: subscribed_def m' update_conv entry_ok_def)
  have "meta_ok (Suc n) m'"
    using mok eph by (auto simp: meta_ok_def m' lock_wf_def distinct_update)
  moreover have "sm_inv (Suc n) s" using inv by (rule sm_inv_mono) simp
  ultimately show ?thesis
    using sm_inv_dests [of "Suc n" s] e'ok new old sub e p
    by (intro sm_invI) (auto simp: find_put_session e' split: if_splits)
qed

text \<open>A session whose handle is closed and that no longer subscribes to the handle's file.\<close>

lemma sm_inv_unsubscribe:
  assumes inv: "sm_inv n s" and e: "find_session sid (sdb s) = Some e"
    and cl: "close_handle fh e = Inr e'" and key: "fh_to_key fh e = Inr p"
    and p: "ds s p = Some (m, c0)" and m': "meta_ok n m'"
    and sub: "subscribed m' = (subscribed m)(sid := None)"
  shows "sm_inv n (set_file p (m', c) (set_session sid e' s))"
proof -
  have eok: "entry_ok n sid e" using inv e by (rule sm_inv_entry)
  have rng: "in_range (entry_inum e) fh" and e': "e' = e\<lparr>entry_inum := (entry_inum e)[nat (sint fh) := -1]\<rparr>"
    using cl by (auto simp: close_handle_def result_simps)
  have "set (entry_inum e') \<subseteq> insert (-1) (set (entry_inum e))"
    by (simp add: e' set_update_subset_insert)
  then have e'ok: "entry_ok n sid e'"
    using eok by (auto simp: entry_ok_def e' dest!: subsetD)
  have old: "subscription_ok (put_session sid e' (sdb s)) q j g"
    if "subscription_ok (sdb s) q j g" and "j = sid \<Longrightarrow> q \<noteq> p" for q j g
  proof (cases "j = sid")
    case True
    then have "nat (sint g) \<noteq> nat (sint fh)"
      using that key e by (auto simp: subscription_ok_def fh_to_key_def result_simps)
    then show ?thesis
      using that(1) True e by (auto simp: subscription_ok_def find_put_session e' handle_open_def
          fh_to_key_def result_simps in_range_def)
  qed (use that in \<open>simp add: subscription_ok_def find_put_session\<close>)
  show ?thesis
    using sm_inv_dests [OF inv] e'ok old sub e p m'
    by (intro sm_invI) (auto simp: find_put_session e' split: if_splits)
qed

section \<open>Every action keeps the invariant\<close>

lemma meta_ok_fields:
  "meta_ok n m \<Longrightarrow> meta_ok n (m\<lparr>is_directory := d, is_ephemeral := Some e\<rparr>)"
  "meta_ok n m \<Longrightarrow> meta_ok n (m\<lparr>is_ephemeral := Some e\<rparr>)"
  "meta_ok n m \<Longrightarrow> meta_ok n (m\<lparr>file_exists := b\<rparr>)"
  by (auto simp: meta_ok_def lock_wf_def)

lemma meta_ok_new: "meta_ok n new_file_meta"
  by (simp add: meta_ok_def lock_wf_def new_file_meta_def)

lemma meta_ok_acquire: "meta_ok n m \<Longrightarrow> meta_acquire ex sid m = Inr (b, m') \<Longrightarrow> meta_ok n m'"
  using lock_wf_acquire [of m ex sid b m']
  by (auto simp: meta_ok_def meta_acquire_def result_simps Let_def split: if_splits)

lemma meta_acquire_subscribers:
  "meta_acquire ex sid m = Inr (b, m') \<Longrightarrow> subscribers m' = subscribers m"
  by (auto simp: meta_acquire_def result_simps Let_def split: if_splits)

lemma meta_ok_release: "meta_ok n m \<Longrightarrow> meta_release sid m = (b, m') \<Longrightarrow> meta_ok n m'"
  using lock_wf_release [of m sid] by (auto simp: meta_ok_def meta_release_def)

lemma meta_ok_delete: "meta_ok n m \<Longrightarrow> n < 2 ^ 31 - 1 \<Longrightarrow> meta_ok (Suc n) (meta_delete m)"
  using lock_wf_delete [of m] sint_inc [of "instance_num m"] by (auto simp: meta_ok_def meta_delete_def)

lemma set_file_twice [simp]: "set_file p f (set_file p g s) = set_file p f s"
  by (simp add: set_file_def)

lemma open_file_inv:
  assumes inv: "sm_inv n s" and ap: "open_file path d e s = Inr s1"
    and par: "ds s1 (parent_path path) \<noteq> None"
  shows "sm_inv n s1 \<and> sdb s1 = sdb s \<and> (\<exists>m c. ds s1 path = Some (m, c) \<and> is_ephemeral m \<noteq> None)"
proof (cases "ds s path")
  case None
  define m where "m = new_file_meta\<lparr>is_directory := bool_of_int d, is_ephemeral := Some (bool_of_int e)\<rparr>"
  have s1: "s1 = set_file path (m, []) s"
    using ap None by (auto simp: open_file_def Let_def m_def new_file_meta_def)
  moreover have "meta_ok n m" "subscribers m = []"
    by (auto simp: m_def new_file_meta_def meta_ok_def lock_wf_def)
  ultimately show ?thesis
    using sm_inv_new_file [OF inv None] par by (auto simp: m_def split: if_splits)
next
  case (Some f)
  obtain m0 c where f: "f = (m0, c)" by (cases f)
  define m where "m = (if \<not> file_exists m0 then m0\<lparr>is_directory := bool_of_int d\<rparr> else m0)
    \<lparr>is_ephemeral := Some (bool_of_int e)\<rparr>"
  have s1: "s1 = set_file path (m, c) s" using ap Some f by (auto simp: open_file_def Let_def m_def)
  moreover have "meta_ok n m" "subscribers m = subscribers m0"
    using sm_inv_meta [OF inv] Some f meta_ok_fields by (auto simp: m_def)
  ultimately show ?thesis
    using sm_inv_set_file [OF inv Some [unfolded f]] by (auto simp: m_def)
qed

lemma open_parent_inv:
  assumes inv: "sm_inv n s" and ap: "open_parent path s = Inr s1"
    and m: "ds s path = Some (m, c)"
  shows "sm_inv n s1 \<and> sdb s1 = sdb s \<and> (\<exists>c1. ds s1 path = Some (m, c1))"
proof (cases "s1 = s")
  case False
  then obtain pm pc where "ds s (parent_path path) = Some (pm, pc)"
      "s1 = set_file (parent_path path) (pm, add_child pc (filename path)) s"
    using ap by (auto simp: open_parent_def Let_def result_simps split: if_splits)
  then show ?thesis using sm_inv_content [OF inv] m by auto
qed (use inv m in simp)

lemma open_handle_inv:
  assumes inv: "sm_inv n s" and n: "n < 2 ^ 31 - 1" and e: "find_session sid (sdb s) = Some session"
    and m: "ds s path = Some (m, c)" "is_ephemeral m \<noteq> None"
    and ap: "open_handle sid session path s = Inr (r, s')"
  shows "sm_inv (Suc n) s'"
proof -
  obtain fh session' where add: "add_new_handle path (instance_num m) session = (fh, session')"
    by (cases "add_new_handle path (instance_num m) session")
  show ?thesis
    using ap m(1) add sm_inv_subscribe [OF inv n e m add refl]
    by (auto simp: open_handle_def Let_def)
qed

lemma open_parent_exists: "open_parent path s = Inr s1 \<Longrightarrow> ds s (parent_path path) \<noteq> None"
  by (auto simp: open_parent_def Let_def result_simps)

lemma apply_open_inv:
  assumes inv: "sm_inv n s" and n: "n < 2 ^ 31 - 1"
    and ap: "apply_open session_id path d e s = Inr (r, s')"
  shows "sm_inv (Suc n) s'"
proof (cases "find_session (int_of_int64 session_id) (sdb s)")
  case None
  then show ?thesis using ap sm_inv_mono [OF inv, of "Suc n"] by (simp add: apply_open_def)
next
  case (Some session)
  then obtain s1 s2 where s1: "open_file path d e s = Inr s1" and s2: "open_parent path s1 = Inr s2"
    and s': "open_handle (int_of_int64 session_id) session path s2 = Inr (r, s')"
    using ap by (auto simp: apply_open_def Let_def result_simps)
  from open_file_inv [OF inv s1 open_parent_exists [OF s2]]
  obtain m c where i1: "sm_inv n s1" "sdb s1 = sdb s" "ds s1 path = Some (m, c)" "is_ephemeral m \<noteq> None"
    by blast
  from open_parent_inv [OF i1(1) s2 i1(3)]
  obtain c1 where i2: "sm_inv n s2" "sdb s2 = sdb s1" "ds s2 path = Some (m, c1)" by blast
  show ?thesis using open_handle_inv [OF i2(1) n _ i2(3) i1(4) s'] Some i2(2) i1(2) by simp
qed

lemma apply_start_session_inv:
  assumes inv: "sm_inv n s" and n: "n < 2 ^ 31 - 1" and ap: "apply_start_session s = Inr (r, s')"
  shows "sm_inv (Suc n) s'"
proof -
  obtain e d where cr: "create_session (sdb s) = (e, d)" by (cases "create_session (sdb s)")
  then have s': "s' = s\<lparr>sdb := d\<rparr>" using ap by (simp add: apply_start_session_def)
  note find = find_create_session [OF cr]
  have nx: "next_id d = next_id (sdb s) + 1" using cr by (auto simp: create_session_def Let_def)
  have un: "unat (next_id d) = unat (next_id (sdb s)) + 1"
    using sm_inv_next [OF inv] n unat_inc [of "next_id (sdb s)"] nx by simp
  have new: "find_session (next_id (sdb s)) (sdb s) = None"
    using sm_inv_fresh [OF inv, of "next_id (sdb s)"] by (cases "find_session (next_id (sdb s)) (sdb s)") auto
  have sub: "subscription_ok (sdb s) q j g \<Longrightarrow> subscription_ok d q j g" for q j g
    using find new by (auto simp: subscription_ok_def)
  have inv1: "sm_inv (Suc n) s" using inv by (rule sm_inv_mono) simp
  have "entry_ok (Suc n) (next_id (sdb s)) e" "entry_v e = []" using find
    by (auto simp: entry_ok_def new_entry_def)
  then show ?thesis
    unfolding s' using sm_inv_dests [OF inv1] sm_inv_next [OF inv] sm_inv_fresh [OF inv] un sub find
    by (intro sm_invI) (auto split: if_splits intro: less_SucI)
qed

lemma apply_set_content_inv:
  "sm_inv n s \<Longrightarrow> apply_set_content sid fh c s = Inr (r, s') \<Longrightarrow> sm_inv n s'"
  by (auto simp: apply_set_content_def Let_def result_simps split: option.splits if_splits
      intro: sm_inv_content)

lemma apply_acq_inv:
  assumes inv: "sm_inv n s" and ap: "apply_acq session_id fh ex s = Inr (r, s')"
  shows "sm_inv n s'"
proof (cases "s' = s")
  case False
  then obtain key m c sid m' where "ds s key = Some (m, c)"
      "meta_acquire (bool_of_int ex) sid m = Inr (True, m')" "s' = set_file key (m', c) s"
    using ap by (auto simp: apply_acq_def Let_def result_simps split: option.splits if_splits)
  then show ?thesis
    using sm_inv_set_file [OF inv] meta_ok_acquire sm_inv_meta [OF inv] meta_acquire_subscribers by metis
qed (use inv in simp)

lemma release_lock_inv:
  assumes inv: "sm_inv n s" and ap: "release_lock sid fh s = Inr (rc, s')"
  shows "sm_inv n s' \<and> sdb s' = sdb s"
proof (cases "s' = s")
  case False
  then obtain key m c b m' where "ds s key = Some (m, c)"
      "meta_release sid m = (b, m')" "s' = set_file key (m', c) s"
    using ap by (auto simp: release_lock_def Let_def result_simps split: option.splits if_splits prod.splits)
  moreover from this(2) have "subscribers m' = subscribers m" by (auto simp: meta_release_def)
  ultimately show ?thesis
    using sm_inv_set_file [OF inv] meta_ok_release sm_inv_meta [OF inv] by (metis set_file_simps(2))
qed (use inv in simp)

lemma apply_rel_inv: "sm_inv n s \<Longrightarrow> apply_rel sid fh s = Inr (r, s') \<Longrightarrow> sm_inv n s'"
  using release_lock_inv by (fastforce simp: apply_rel_def result_simps split: if_splits)


text \<open>
  Closing a handle: the session object returned is the one now in the database, the handle
  is closed afterwards and no other handle changes.
\<close>

lemma meta_ok_unsubscribe:
  "meta_ok n m \<Longrightarrow> meta_ok n (m\<lparr>subscribers := AList.delete sid (subscribers m)\<rparr>)"
  by (auto simp: meta_ok_def lock_wf_def distinct_delete)

lemma subscribed_delete:
  "subscribed (m\<lparr>subscribers := AList.delete sid (subscribers m)\<rparr>) = (subscribed m)(sid := None)"
  by (simp add: subscribed_def delete_conv')

lemma subscribed_file_exists [simp]: "subscribed (m\<lparr>file_exists := b\<rparr>) = subscribed m"
  by (simp add: subscribed_def)

definition closed_upto :: "entry \<Rightarrow> i32 \<Rightarrow> entry \<Rightarrow> bool" where
  "closed_upto e fh e' \<longleftrightarrow> entry_v e' = entry_v e \<and> entry_id e' = entry_id e \<and>
     length (entry_inum e') = length (entry_inum e) \<and> kathread e' = kathread e \<and>
     \<not> handle_open e' fh \<and> (\<forall>g. handle_open e' g \<longrightarrow> handle_open e g)"

lemma closed_upto_close: "close_handle fh e = Inr e' \<Longrightarrow> closed_upto e fh e'"
  by (auto simp: closed_upto_def close_handle_def handle_open_def result_simps in_range_def
      nth_list_update split: if_splits)

lemma close_file_inv:
  assumes inv: "sm_inv n s" and e: "find_session sid (sdb s) = Some session"
    and ap: "close_file_delete_ephermeral sid session fh s = Inr (ret, session', s')"
  shows "sm_inv n s' \<and> sdb s' = put_session sid session' (sdb s) \<and> closed_upto session fh session'"
proof -
  obtain inum where inum: "handle_inum fh session = Inr inum"
    using ap by (auto simp: close_file_delete_ephermeral_def result_simps)
  show ?thesis
  proof (cases "inum = -1")
    case True
    then have "session' = session" "s' = s" using ap inum by (auto simp: close_file_delete_ephermeral_def)
    moreover have "\<not> handle_open session fh" using handle_inum_open [OF inum] True by simp
    moreover have "put_session sid session (sdb s) = sdb s"
      using e by (simp add: put_session_def find_session_def fun_upd_idem)
    ultimately show ?thesis using inv by (simp add: closed_upto_def)
  next
    case False
    obtain key where se: "close_handle fh session = Inr session'" and key: "fh_to_key fh session' = Inr key"
      and dr: "drop_subscriber (entry_id session') key (set_session sid session' s) = Inr (ret, s')"
      using ap inum False by (auto simp: close_file_delete_ephermeral_def result_simps)
    note fr = close_handle_frame [OF se]
    have key0: "fh_to_key fh session = Inr key" using key fr by (simp add: fh_to_key_def)
    obtain m c where m: "ds s key = Some (m, c)" using sm_inv_key [OF inv e key0] by blast
    have mok: "meta_ok n m" using sm_inv_meta [OF inv m] .
    have id: "entry_id session' = sid" using sm_inv_entry [OF inv e] fr by (simp add: entry_ok_def)
    define m1 where "m1 = m\<lparr>subscribers := AList.delete sid (subscribers m)\<rparr>"
    define s1 where "s1 = set_session sid session' s"
    have m1: "meta_ok n m1" "subscribed m1 = (subscribed m)(sid := None)"
      using meta_ok_unsubscribe [OF mok] subscribed_delete by (simp_all add: m1_def)
    have unsub: "sm_inv n (set_file key (m', c) s1)"
      if "meta_ok n m'" "subscribed m' = (subscribed m)(sid := None)" for m'
      using sm_inv_unsubscribe [OF inv e se key0 m that] by (simp add: s1_def)
    have m2: "meta_ok n (m1\<lparr>file_exists := False\<rparr>)"
      "subscribed (m1\<lparr>file_exists := False\<rparr>) = (subscribed m)(sid := None)"
      using m1 meta_ok_fields by simp_all
    have ms1: "ds s1 key = Some (m, c)" using m by (simp add: s1_def)
    from dr [folded s1_def, unfolded id] ms1 m1_def
    have "sm_inv n s' \<and> sdb s' = sdb s1"
    proof (cases rule: drop_subscriber_cases)
      case unsubscribed
      then have "subscribed m = (subscribed m)(sid := None)" by (simp add: fun_upd_idem)
      from unsub [OF mok this] ms1 have "sm_inv n s1" by (simp add: set_file_def fun_upd_idem)
      with unsubscribed show ?thesis by simp
    next
      case (unlisted pm pc pc')
      with sm_inv_content [OF unsub [OF m2] unlisted(4)] show ?thesis by simp
    qed (use unsub [OF m1] unsub [OF m2] in simp_all)
    then show ?thesis using closed_upto_close [OF se] by (simp add: s1_def)
  qed
qed

lemma apply_close_inv:
  assumes inv: "sm_inv n s" and ap: "apply_close session_id fh s = Inr (r, s')"
  shows "sm_inv n s'"
proof (cases "find_session (int_of_int64 session_id) (sdb s)")
  case None
  then show ?thesis using inv ap by (simp add: apply_close_def)
next
  case (Some session)
  then obtain p session' s1 rc where
      "close_file_delete_ephermeral (int_of_int64 session_id) session fh s = Inr (Some p, session', s1)"
      "release_lock (int_of_int64 session_id) fh s1 = Inr (rc, s')"
    using ap by (auto simp: apply_close_def Let_def result_simps split: option.splits)
  then show ?thesis using close_file_inv [OF inv Some] release_lock_inv by blast
qed

lemma end_session_loop_inv:
  assumes "sm_inv n s" and "find_session sid (sdb s) = Some session"
    and "end_session_loop sid is session parents sz s = Inr (parents', sz', s')"
  shows "sm_inv n s' \<and>
    (\<forall>j. j \<noteq> sid \<longrightarrow> find_session j (sdb s') = find_session j (sdb s)) \<and>
    (\<exists>e. find_session sid (sdb s') = Some e \<and> entry_v e = entry_v session \<and>
       (\<forall>g. handle_open e g \<longrightarrow> handle_open session g) \<and>
       (\<forall>i \<in> set is. \<not> handle_open e (of_nat i)))"
  using assms
proof (induction "is" arbitrary: session parents sz s)
  case Nil
  then show ?case by auto
next
  case (Cons i "is")
  obtain ret session1 s1 rc s2 parents1 sz1 where
      cl: "close_file_delete_ephermeral sid session (of_nat i) s = Inr (ret, session1, s1)"
    and rl: "release_lock sid (of_nat i) s1 = Inr (rc, s2)"
    and lp: "end_session_loop sid is session1 parents1 sz1 s2 = Inr (parents', sz', s')"
    using Cons.prems(3) by (auto simp: result_simps Let_def)
  from close_file_inv [OF Cons.prems(1,2) cl]
  have c: "sm_inv n s1" "find_session sid (sdb s1) = Some session1" "closed_upto session (of_nat i) session1"
    "\<forall>j. j \<noteq> sid \<longrightarrow> find_session j (sdb s1) = find_session j (sdb s)"
    by (auto simp: find_put_session)
  from release_lock_inv [OF c(1) rl] have r: "sm_inv n s2" "sdb s2 = sdb s1" by auto
  from Cons.IH [OF r(1) _ lp] c(2) r(2)
  obtain e where "sm_inv n s'" "\<forall>j. j \<noteq> sid \<longrightarrow> find_session j (sdb s') = find_session j (sdb s2)"
    "find_session sid (sdb s') = Some e" "entry_v e = entry_v session1"
    "\<forall>g. handle_open e g \<longrightarrow> handle_open session1 g" "\<forall>i \<in> set is. \<not> handle_open e (of_nat i)"
    by auto
  then show ?case using c r(2) by (auto simp: closed_upto_def)
qed

lemma in_range_index: "in_range xs g \<Longrightarrow> \<exists>i < length xs. g = of_nat i"
proof (intro exI conjI)
  assume r: "in_range xs g"
  then show "nat (sint g) < length xs" by (simp add: in_range_def)
  show "g = of_nat (nat (sint g))" using r by (simp add: in_range_def of_nat_nat)
qed

lemma sm_inv_delete_session:
  assumes inv: "sm_inv n s" and e: "find_session sid (sdb s) = Some e"
    and cl: "\<And>g. \<not> handle_open e g" and del: "delete_session sid (sdb s) = Inr d"
  shows "sm_inv n (s\<lparr>sdb := d\<rparr>)"
proof (rule sm_invI)
  note find = db.find_del [OF del]
  have nx: "next_id d = next_id (sdb s)" using del by (auto simp: delete_session_def result_simps)
  show "unat (next_id (sdb (s\<lparr>sdb := d\<rparr>))) \<le> n" using sm_inv_next [OF inv] nx by simp
  fix p m c j fh
  assume "ds (s\<lparr>sdb := d\<rparr>) p = Some (m, c)" and "subscribed m j = Some fh"
  then have "subscription_ok (sdb s) p j fh" using sm_inv_subscription [OF inv] by simp
  then show "subscription_ok (sdb (s\<lparr>sdb := d\<rparr>)) p j fh"
    using cl e find by (auto simp: subscription_ok_def)
next
  fix j e'
  assume "find_session j (sdb (s\<lparr>sdb := d\<rparr>)) = Some e'"
  then show "unat j < unat (next_id (sdb (s\<lparr>sdb := d\<rparr>)))"
    using sm_inv_fresh [OF inv] del by (auto simp: delete_session_def find_session_def result_simps split: if_splits)
qed (use sm_inv_dests [OF inv] db.find_del [OF del] in \<open>auto split: if_splits\<close>)

lemma end_session_state:
  assumes inv: "sm_inv n s" and n: "n < 2 ^ 31"
    and e: "find_session (int_of_int64 session_id) (sdb s) = Some session"
    and ap: "apply_end_session session_id s = Inr (r, s')"
  obtains parents sz s1 e1 where
    "end_session_loop (int_of_int64 session_id) [0..<length (entry_v session)] session [] 18 s
       = Inr (parents, sz, s1)"
    "r = EndSessionReturn sz parents" "sm_inv n s1"
    "find_session (int_of_int64 session_id) (sdb s1) = Some e1" "\<And>g. \<not> handle_open e1 g"
    "delete_session (int_of_int64 session_id) (sdb s1) = Inr (sdb s')" "s' = s1\<lparr>sdb := sdb s'\<rparr>"
    "\<And>j. j \<noteq> int_of_int64 session_id \<Longrightarrow> find_session j (sdb s1) = find_session j (sdb s)"
proof -
  let ?sid = "int_of_int64 session_id"
  have eok: "entry_ok n ?sid session" using sm_inv_entry [OF inv e] .
  then have cnt: "nat (sint (handle_count session)) = length (entry_v session)"
    using n by (simp add: entry_ok_def handle_count_def sint_of_nat32)
  have "bindE (end_session_loop ?sid [0..<length (entry_v session)] session [] 18 s)
      (\<lambda>(parents, sz, s1). bindE (delete_session ?sid (sdb s1)) (\<lambda>d.
         Inr (EndSessionReturn sz parents, s1\<lparr>sdb := d\<rparr>))) = Inr (r, s')"
    using ap e cnt by (simp add: apply_end_session_def Let_def)
  then obtain parents sz s1 d where
      lp: "end_session_loop ?sid [0..<length (entry_v session)] session [] 18 s = Inr (parents, sz, s1)"
    and del: "delete_session ?sid (sdb s1) = Inr d" and r: "r = EndSessionReturn sz parents"
    and s': "s' = s1\<lparr>sdb := d\<rparr>"
    by (auto simp: result_simps)
  from end_session_loop_inv [OF inv e lp] obtain e1 where
      i: "sm_inv n s1" "find_session ?sid (sdb s1) = Some e1" "entry_v e1 = entry_v session"
      "\<forall>j. j \<noteq> ?sid \<longrightarrow> find_session j (sdb s1) = find_session j (sdb s)"
      "\<forall>i \<in> set [0..<length (entry_v session)]. \<not> handle_open e1 (of_nat i)"
    by blast
  have "length (entry_inum e1) = length (entry_v session)"
    using sm_inv_entry [OF i(1,2)] i(3) by (simp add: entry_ok_def)
  then have "\<not> handle_open e1 g" for g
    using i(5) in_range_index [of "entry_inum e1" g] by (auto simp: handle_open_def)
  with that lp del r s' i show thesis by simp
qed

lemma apply_end_session_inv:
  assumes inv: "sm_inv n s" and n: "n < 2 ^ 31" and ap: "apply_end_session session_id s = Inr (r, s')"
  shows "sm_inv n s'"
proof (cases "find_session (int_of_int64 session_id) (sdb s)")
  case None
  then show ?thesis using inv ap by (simp add: apply_end_session_def)
next
  case (Some session)
  show ?thesis
    by (rule end_session_state [OF inv n Some ap]) (metis sm_inv_delete_session)
qed

text \<open>Events change only the keep-alive thread of a session.\<close>

lemma find_enqueue_owners:
  "find_session sid (enqueue_owners owners fh d) =
     (if sid \<in> owners then map_option (\<lambda>e. snd (entry_enqueue_event fh e)) (find_session sid d)
      else find_session sid d)"
  by (simp add: enqueue_owners_def find_session_def)

definition same_handles :: "db \<Rightarrow> db \<Rightarrow> bool" where
  "same_handles d d' \<longleftrightarrow> next_id d' = next_id d \<and>
     (\<forall>sid. map_option (\<lambda>e. (entry_id e, entry_v e, entry_inum e)) (find_session sid d') =
       map_option (\<lambda>e. (entry_id e, entry_v e, entry_inum e)) (find_session sid d))"

lemma same_handlesD:
  assumes "same_handles d d'" and "find_session sid d = Some e"
  obtains e' where "find_session sid d' = Some e'" "entry_id e' = entry_id e"
    "entry_v e' = entry_v e" "entry_inum e' = entry_inum e"
proof -
  have "map_option (\<lambda>e. (entry_id e, entry_v e, entry_inum e)) (find_session sid d') =
     Some (entry_id e, entry_v e, entry_inum e)"
    using assms by (simp add: same_handles_def)
  then show thesis using that by auto
qed

lemma same_handles_sym: "same_handles d d' \<Longrightarrow> same_handles d' d"
  by (simp add: same_handles_def)

lemma same_handles_enqueue_owners: "same_handles d (enqueue_owners owners fh d)"
proof -
  have "entry_id (snd (entry_enqueue_event fh e)) = entry_id e \<and>
      entry_v (snd (entry_enqueue_event fh e)) = entry_v e \<and>
      entry_inum (snd (entry_enqueue_event fh e)) = entry_inum e" for e
    by (cases "entry_enqueue_event fh e") (auto dest: enqueue_event_frame)
  moreover have "next_id (enqueue_owners owners fh d) = next_id d" by (simp add: enqueue_owners_def)
  ultimately show ?thesis
    by (auto simp: same_handles_def find_enqueue_owners option.map_comp comp_def
        intro: option.map_cong0)
qed

lemma sm_inv_same_handles:
  assumes inv: "sm_inv n s" and same: "same_handles (sdb s) d"
  shows "sm_inv n (s\<lparr>sdb := d\<rparr>)"
proof (rule sm_invI)
  show "unat (next_id (sdb (s\<lparr>sdb := d\<rparr>))) \<le> n"
    using sm_inv_next [OF inv] same by (simp add: same_handles_def)
next
  fix p m c sid fh
  assume "ds (s\<lparr>sdb := d\<rparr>) p = Some (m, c)" and "subscribed m sid = Some fh"
  then have "subscription_ok (sdb s) p sid fh" using sm_inv_subscription [OF inv] by simp
  then obtain e where e: "find_session sid (sdb s) = Some e" "handle_open e fh" "fh_to_key fh e = Inr p"
    by (auto simp: subscription_ok_def)
  obtain e' where "find_session sid d = Some e'" "entry_v e' = entry_v e" "entry_inum e' = entry_inum e"
    using same e(1) by (rule same_handlesD)
  with e show "subscription_ok (sdb (s\<lparr>sdb := d\<rparr>)) p sid fh"
    by (simp add: subscription_ok_def handle_open_def fh_to_key_def)
next
  fix sid e'
  assume "find_session sid (sdb (s\<lparr>sdb := d\<rparr>)) = Some e'"
  then obtain e where e: "find_session sid (sdb s) = Some e" "entry_id e = entry_id e'"
    "entry_v e = entry_v e'" "entry_inum e = entry_inum e'"
    using same_handlesD [OF same_handles_sym [OF same], of sid e'] by (auto elim: same_handlesD)
  show "entry_ok n sid e'" using sm_inv_entry [OF inv e(1)] e by (simp add: entry_ok_def)
  show "unat sid < unat (next_id (sdb (s\<lparr>sdb := d\<rparr>)))"
    using sm_inv_fresh [OF inv e(1)] same by (simp add: same_handles_def)
  fix p
  assume "p \<in> set (entry_v e')"
  then show "ds (s\<lparr>sdb := d\<rparr>) p \<noteq> None" using sm_inv_path [OF inv e(1)] e by simp
qed (use sm_inv_dests [OF inv] in auto)

lemma apply_delete_inv:
  assumes inv: "sm_inv n s" and n: "n < 2 ^ 31 - 1" and ap: "apply_delete session_id fh s = Inr (r, s')"
  shows "sm_inv (Suc n) s'"
proof -
  have inv1: "sm_inv (Suc n) s" using inv by (rule sm_inv_mono) simp
  show ?thesis
  proof (cases "s' = s")
    case False
    obtain key m c d pm pc where m: "ds s key = Some (m, c)" and d: "d = enqueue_owners (lock_owners m) fh (sdb s)"
      and p: "ds (set_file key (meta_delete m, []) (s\<lparr>sdb := d\<rparr>)) (parent_path key) = Some (pm, pc)"
      and s': "s' = (case remove_child pc (filename key) of
                 Some pc' \<Rightarrow> set_file (parent_path key) (pm, pc') (set_file key (meta_delete m, []) (s\<lparr>sdb := d\<rparr>))
               | None \<Rightarrow> set_file key (meta_delete m, []) (s\<lparr>sdb := d\<rparr>))"
      using ap False unfolding apply_delete_def Let_def
      by (auto simp: result_simps simp del: set_file_simps split: option.splits)
    have "sm_inv (Suc n) (s\<lparr>sdb := d\<rparr>)"
      unfolding d by (rule sm_inv_same_handles [OF inv1 same_handles_enqueue_owners])
    then have i: "sm_inv (Suc n) (set_file key (meta_delete m, []) (s\<lparr>sdb := d\<rparr>))"
      using sm_inv_set_file [of "Suc n" "s\<lparr>sdb := d\<rparr>" key m c "meta_delete m"]
        meta_ok_delete [OF sm_inv_meta [OF inv m] n] m by (simp add: meta_delete_def)
    then show ?thesis unfolding s' using sm_inv_content [OF i p] by (auto split: option.split)
  qed (use inv1 in simp)
qed

lemma apply_action_inv:
  assumes inv: "sm_inv n s" and n: "n < 2 ^ 31 - 1" and ap: "apply_action a s = Inr (r, s')"
  shows "sm_inv (Suc n) s'"
proof (cases a)
  case (OpenAction sid p d e)
  then show ?thesis using apply_open_inv [OF inv n] ap by simp
next
  case StartSessionAction
  then show ?thesis using apply_start_session_inv [OF inv n] ap by simp
next
  case (DeleteAction sid fh)
  then show ?thesis using apply_delete_inv [OF inv n] ap by simp
next
  case (CloseAction sid fh)
  then show ?thesis using apply_close_inv [OF inv] ap sm_inv_mono [of n s' "Suc n"] by simp
next
  case (EndSessionAction sid)
  then show ?thesis using apply_end_session_inv [OF inv] n ap sm_inv_mono [of n s' "Suc n"] by simp
next
  case (AcqAction sid fh ex)
  then show ?thesis using apply_acq_inv [OF inv] ap sm_inv_mono [of n s' "Suc n"] by simp
next
  case (RelAction sid fh)
  then show ?thesis using apply_rel_inv [OF inv] ap sm_inv_mono [of n s' "Suc n"] by simp
next
  case (SetContentAction sid fh c)
  then show ?thesis using apply_set_content_inv [OF inv] ap sm_inv_mono [of n s' "Suc n"] by simp
qed

lemma run_log_inv:
  "sm_inv n s \<Longrightarrow> n + length as < 2 ^ 31 \<Longrightarrow> run_log as s = Inr (rs, s') \<Longrightarrow> sm_inv (n + length as) s'"
proof (induction as arbitrary: n s rs)
  case Nil
  then show ?case by simp
next
  case (Cons a as)
  obtain r s1 rs1 where 1: "apply_action a s = Inr (r, s1)" "run_log as s1 = Inr (rs1, s')"
    using Cons.prems(3) by (auto simp: result_simps)
  have "sm_inv (Suc n) s1" using apply_action_inv [OF Cons.prems(1) _ 1(1)] Cons.prems(2) by simp
  from Cons.IH [OF this _ 1(2)] Cons.prems(2) show ?case by simp
qed

end
