(* ===== verification/SM_Behaviour.thy ===== *)
theory SM_Behaviour
  imports SM_Invariant
begin

text \<open>
  The behaviour of the state machine's actions beyond well-formedness: how files and
  handles evolve over a log (instance numbers only grow, handles keep their path and are
  only ever closed), what deletion does to handles, exclusion by the advisory lock, what
  the end of a session releases, and exactly when an action brings the process down.
\<close>

section \<open>Evolution of files and handles\<close>

definition file_evolves :: "data_store \<Rightarrow> data_store \<Rightarrow> bool" where
  "file_evolves f f' \<longleftrightarrow> (\<forall>p m c. f p = Some (m, c) \<longrightarrow>
     (\<exists>m' c'. f' p = Some (m', c') \<and> sint (instance_num m) \<le> sint (instance_num m')))"

definition entry_evolves :: "entry \<Rightarrow> entry \<Rightarrow> bool" where
  "entry_evolves e e' \<longleftrightarrow> (\<forall>i < length (entry_v e).
     i < length (entry_v e') \<and> entry_v e' ! i = entry_v e ! i \<and>
     (entry_inum e' ! i = entry_inum e ! i \<or> entry_inum e' ! i = -1))"

definition db_evolves :: "db \<Rightarrow> db \<Rightarrow> bool" where
  "db_evolves d d' \<longleftrightarrow> unat (next_id d) \<le> unat (next_id d') \<and>
     (\<forall>sid e e'. find_session sid d = Some e \<longrightarrow> find_session sid d' = Some e' \<longrightarrow> entry_evolves e e') \<and>
     (\<forall>sid e'. find_session sid d' = Some e' \<longrightarrow> find_session sid d = None \<longrightarrow>
        unat (next_id d) \<le> unat sid)"

definition evolves :: "sm_state \<Rightarrow> sm_state \<Rightarrow> bool" where
  "evolves s s' \<longleftrightarrow> file_evolves (ds s) (ds s') \<and> db_evolves (sdb s) (sdb s')"

lemma file_evolves_refl [simp]: "file_evolves f f"
  by (simp add: file_evolves_def)

lemma file_evolves_trans: "file_evolves f g \<Longrightarrow> file_evolves g h \<Longrightarrow> file_evolves f h"
  unfolding file_evolves_def by (meson order_trans)

lemma entry_evolves_refl [simp]: "entry_evolves e e"
  by (simp add: entry_evolves_def)

lemma entry_evolves_trans: "entry_evolves e e1 \<Longrightarrow> entry_evolves e1 e2 \<Longrightarrow> entry_evolves e e2"
  unfolding entry_evolves_def by metis

lemma db_evolves_refl [simp]: "db_evolves d d"
  by (simp add: db_evolves_def)

lemma db_evolves_trans:
  assumes 1: "db_evolves d d1" and 2: "db_evolves d1 d2" and old: "sessions_ok n d"
  shows "db_evolves d d2"
proof -
  have mid: "find_session sid d1 \<noteq> None"
    if "find_session sid d = Some e" "find_session sid d2 = Some e2" for sid e e2
  proof
    assume "find_session sid d1 = None"
    then have "unat (next_id d1) \<le> unat sid" using 2 that(2) by (auto simp: db_evolves_def)
    moreover have "unat sid < unat (next_id d)" using old that(1) by (auto simp: sessions_ok_def)
    ultimately show False using 1 by (simp add: db_evolves_def)
  qed
  have "entry_evolves e e2"
    if f: "find_session sid d = Some e" "find_session sid d2 = Some e2" for sid e e2
  proof -
    obtain e1 where "find_session sid d1 = Some e1" using mid [OF f] by auto
    then have "entry_evolves e e1" "entry_evolves e1 e2" using 1 2 f by (auto simp: db_evolves_def)
    then show ?thesis by (rule entry_evolves_trans)
  qed
  moreover have "unat (next_id d) \<le> unat sid"
    if "find_session sid d2 = Some e2" "find_session sid d = None" for sid e2
    using 1 2 that by (cases "find_session sid d1") (force simp: db_evolves_def)+
  ultimately show ?thesis using 1 2 by (auto simp: db_evolves_def)
qed

lemma evolves_refl [simp]: "evolves s s"
  by (simp add: evolves_def)

lemma evolves_trans: "sm_inv n s \<Longrightarrow> evolves s s1 \<Longrightarrow> evolves s1 s2 \<Longrightarrow> evolves s s2"
  unfolding evolves_def sm_inv_def by (blast intro: file_evolves_trans db_evolves_trans)

lemma evolves_set_file:
  "(\<And>m0 c0. ds s p = Some (m0, c0) \<Longrightarrow> sint (instance_num m0) \<le> sint (instance_num m)) \<Longrightarrow>
   evolves s (set_file p (m, c) s)"
  by (auto simp: evolves_def file_evolves_def)

lemma evolves_set_content: "ds s p = Some (m, c0) \<Longrightarrow> evolves s (set_file p (m, c) s)"
  by (rule evolves_set_file) simp

lemma db_evolvesI:
  assumes "unat (next_id d) \<le> unat (next_id d')"
    and "\<And>sid e e'. find_session sid d = Some e \<Longrightarrow> find_session sid d' = Some e' \<Longrightarrow> entry_evolves e e'"
    and "\<And>sid e'. find_session sid d' = Some e' \<Longrightarrow> find_session sid d = None \<Longrightarrow>
           unat (next_id d) \<le> unat sid"
  shows "db_evolves d d'"
  using assms unfolding db_evolves_def by blast

lemma evolves_set_session:
  assumes "find_session sid (sdb s) = Some e" and "entry_evolves e e'"
  shows "evolves s (set_session sid e' s)"
proof -
  have "db_evolves (sdb s) (put_session sid e' (sdb s))"
    using assms by (intro db_evolvesI) (simp_all add: find_put_session split: if_splits)
  then show ?thesis by (simp add: evolves_def)
qed

lemma evolves_same_handles:
  assumes same: "same_handles (sdb s) d"
  shows "evolves s (s\<lparr>sdb := d\<rparr>)"
proof -
  have "db_evolves (sdb s) d"
  proof (rule db_evolvesI)
    show "unat (next_id (sdb s)) \<le> unat (next_id d)" using same by (simp add: same_handles_def)
  next
    fix sid e e'
    assume e: "find_session sid (sdb s) = Some e" "find_session sid d = Some e'"
    obtain e1 where "find_session sid d = Some e1" "entry_v e1 = entry_v e" "entry_inum e1 = entry_inum e"
      using same e(1) by (rule same_handlesD)
    with e(2) show "entry_evolves e e'" by (simp add: entry_evolves_def)
  next
    fix sid e'
    assume "find_session sid d = Some e'" and "find_session sid (sdb s) = None"
    then show "unat (next_id (sdb s)) \<le> unat sid"
      using same_handlesD [OF same_handles_sym [OF same]] by (metis option.distinct(1))
  qed
  then show ?thesis by (simp add: evolves_def)
qed

lemma evolves_delete_session: "delete_session sid (sdb s) = Inr d \<Longrightarrow> evolves s (s\<lparr>sdb := d\<rparr>)"
  by (auto simp: evolves_def db_evolves_def delete_session_def find_session_def result_simps
      split: if_splits)

lemma entry_evolves_add: "add_new_handle p n e = (fh, e') \<Longrightarrow> length (entry_inum e) = length (entry_v e) \<Longrightarrow>
    entry_evolves e e'"
  by (auto simp: add_new_handle_def Let_def entry_evolves_def nth_append)

lemma entry_evolves_close: "close_handle fh e = Inr e' \<Longrightarrow> entry_evolves e e'"
  by (auto simp: close_handle_def result_simps entry_evolves_def in_range_def nth_list_update)

lemma open_file_evolves: "open_file p d e s = Inr s1 \<Longrightarrow> evolves s s1"
  by (cases "ds s p")
    (auto simp: open_file_def Let_def intro!: evolves_set_file split: if_splits)

lemma open_parent_evolves: "open_parent p s = Inr s1 \<Longrightarrow> evolves s s1"
  by (auto simp: open_parent_def Let_def result_simps intro!: evolves_set_content split: if_splits)

lemma open_handle_evolves:
  assumes "sm_inv n s" and e: "find_session sid (sdb s) = Some e" and ap: "open_handle sid e p s = Inr (r, s')"
  shows "evolves s s'"
proof -
  obtain m c where m: "ds s p = Some (m, c)" using ap by (auto simp: open_handle_def result_simps)
  obtain fh e' where add: "add_new_handle p (instance_num m) e = (fh, e')"
    by (cases "add_new_handle p (instance_num m) e")
  define m' where "m' = m\<lparr>file_exists := True, subscribers := AList.update (entry_id e) fh (subscribers m)\<rparr>"
  have s': "s' = set_session sid e' (set_file p (m', c) s)"
    using ap m add by (simp add: open_handle_def Let_def m'_def)
  have "length (entry_inum e) = length (entry_v e)" using sm_inv_entry [OF assms(1,2)] by (simp add: entry_ok_def)
  then have "entry_evolves e e'" using add by (rule entry_evolves_add [rotated])
  then have "evolves (set_file p (m', c) s) s'" unfolding s' using e by (intro evolves_set_session) auto
  moreover have "evolves s (set_file p (m', c) s)" using m by (intro evolves_set_file) (simp add: m'_def)
  ultimately show ?thesis using evolves_trans [OF assms(1)] by blast
qed

lemma apply_open_evolves:
  assumes inv: "sm_inv n s" and ap: "apply_open session_id p d e s = Inr (r, s')"
  shows "evolves s s'"
proof (cases "find_session (int_of_int64 session_id) (sdb s)")
  case None
  then show ?thesis using ap by (simp add: apply_open_def)
next
  case (Some session)
  then obtain s1 s2 where s1: "open_file p d e s = Inr s1" and s2: "open_parent p s1 = Inr s2"
    and s': "open_handle (int_of_int64 session_id) session p s2 = Inr (r, s')"
    using ap by (auto simp: apply_open_def Let_def result_simps)
  from open_file_inv [OF inv s1 open_parent_exists [OF s2]]
  obtain m c where i1: "sm_inv n s1" "sdb s1 = sdb s" "ds s1 p = Some (m, c)" by blast
  from open_parent_inv [OF i1(1) s2 i1(3)] have i2: "sm_inv n s2" "sdb s2 = sdb s1" by auto
  show ?thesis
    using evolves_trans [OF inv evolves_trans [OF inv open_file_evolves [OF s1] open_parent_evolves [OF s2]]]
      open_handle_evolves [OF i2(1) _ s'] Some i2(2) i1(2) by simp
qed

lemma drop_subscriber_evolves:
  assumes "drop_subscriber sid key s = Inr (ret, s')" and inv: "sm_inv n s"
  shows "evolves s s'"
proof -
  obtain m c where m: "ds s key = Some (m, c)"
    using assms by (auto simp: drop_subscriber_def result_simps)
  define m1 where "m1 = m\<lparr>subscribers := AList.delete sid (subscribers m)\<rparr>"
  have e: "evolves s (set_file key (m1, c) s)" "evolves s (set_file key (m1\<lparr>file_exists := False\<rparr>, c) s)"
    using m by (auto intro!: evolves_set_file simp: m1_def)
  from assms(1) m m1_def show ?thesis
  proof (cases rule: drop_subscriber_cases)
    case (unlisted pm pc pc')
    then show ?thesis using evolves_trans [OF inv e(2) evolves_set_content [OF unlisted(4)]] by simp
  qed (use e in simp_all)
qed

lemma close_file_evolves:
  assumes inv: "sm_inv n s" and e: "find_session sid (sdb s) = Some session"
    and ap: "close_file_delete_ephermeral sid session fh s = Inr (ret, session', s')"
  shows "evolves s s'"
proof -
  obtain inum where inum: "handle_inum fh session = Inr inum"
    using ap by (auto simp: close_file_delete_ephermeral_def result_simps)
  show ?thesis
  proof (cases "inum = -1")
    case True
    then show ?thesis using ap inum by (simp add: close_file_delete_ephermeral_def)
  next
    case False
    obtain key where se: "close_handle fh session = Inr session'" and key: "fh_to_key fh session' = Inr key"
      and dr: "drop_subscriber (entry_id session') key (set_session sid session' s) = Inr (ret, s')"
      using ap inum False by (auto simp: close_file_delete_ephermeral_def result_simps)
    have "evolves s (set_session sid session' s)"
      using e entry_evolves_close [OF se] by (rule evolves_set_session)
    moreover obtain m c where "ds (set_session sid session' s) key = Some (m, c)"
      using dr by (auto simp: drop_subscriber_def result_simps)
    moreover have "evolves (set_session sid session' s) s'"
    proof -
      define m1 where "m1 = m\<lparr>subscribers := AList.delete (entry_id session') (subscribers m)\<rparr>"
      let ?s1 = "set_session sid session' s"
      let ?s2 = "set_file key (m1\<lparr>file_exists := False\<rparr>, c) ?s1"
      have f: "file_evolves (ds ?s1) (ds ?s2)" "file_evolves (ds ?s1) (ds (set_file key (m1, c) ?s1))"
        using calculation(2) by (auto simp: file_evolves_def m1_def)
      from dr calculation(2) m1_def show ?thesis
      proof (cases rule: drop_subscriber_cases)
        case (unlisted pm pc pc')
        then have "file_evolves (ds ?s2) (ds s')" by (auto simp: file_evolves_def)
        with f(1) have "file_evolves (ds ?s1) (ds s')" by (rule file_evolves_trans)
        with unlisted(7) show ?thesis by (simp add: evolves_def)
      qed (use f in \<open>simp_all add: evolves_def\<close>)
    qed
    ultimately show ?thesis using evolves_trans [OF inv] by blast
  qed
qed

lemma release_lock_evolves: "release_lock sid fh s = Inr (rc, s') \<Longrightarrow> evolves s s'"
  by (auto simp: release_lock_def meta_release_def result_simps intro!: evolves_set_file
      split: option.splits if_splits)

lemma end_session_loop_evolves:
  assumes "sm_inv n s" and "find_session sid (sdb s) = Some session"
    and "end_session_loop sid is session parents sz s = Inr (parents', sz', s')"
  shows "evolves s s'"
  using assms
proof (induction "is" arbitrary: session parents sz s)
  case (Cons i "is")
  obtain ret session1 s1 rc s2 parents1 sz1 where
      cl: "close_file_delete_ephermeral sid session (of_nat i) s = Inr (ret, session1, s1)"
    and rl: "release_lock sid (of_nat i) s1 = Inr (rc, s2)"
    and lp: "end_session_loop sid is session1 parents1 sz1 s2 = Inr (parents', sz', s')"
    using Cons.prems(3) by (auto simp: result_simps Let_def)
  from close_file_inv [OF Cons.prems(1,2) cl]
  have c: "sm_inv n s1" "find_session sid (sdb s1) = Some session1" by (auto simp: find_put_session)
  from release_lock_inv [OF c(1) rl] have r: "sm_inv n s2" "sdb s2 = sdb s1" by auto
  have "evolves s2 s'" using Cons.IH [OF r(1) _ lp] c(2) r(2) by simp
  with evolves_trans [OF Cons.prems(1) close_file_evolves [OF Cons.prems(1,2) cl] release_lock_evolves [OF rl]]
  show ?case by (rule evolves_trans [OF Cons.prems(1)])
qed simp

lemma apply_end_session_evolves:
  assumes inv: "sm_inv n s" and n: "n < 2 ^ 31" and ap: "apply_end_session session_id s = Inr (r, s')"
  shows "evolves s s'"
proof (cases "find_session (int_of_int64 session_id) (sdb s)")
  case None
  then show ?thesis using ap by (simp add: apply_end_session_def)
next
  case (Some session)
  show ?thesis
  proof (rule end_session_state [OF inv n Some ap])
    fix parents sz s1 e1
    assume lp: "end_session_loop (int_of_int64 session_id) [0..<length (entry_v session)] session [] 18 s
       = Inr (parents, sz, s1)"
      and del: "delete_session (int_of_int64 session_id) (sdb s1) = Inr (sdb s')" "s' = s1\<lparr>sdb := sdb s'\<rparr>"
    show ?thesis
      using evolves_trans [OF inv end_session_loop_evolves [OF inv Some lp]] evolves_delete_session [OF del(1)] del(2)
      by simp
  qed
qed

lemma apply_start_session_evolves:
  assumes inv: "sm_inv n s" and n: "n < 2 ^ 31 - 1" and ap: "apply_start_session s = Inr (r, s')"
  shows "evolves s s'"
proof -
  obtain e d where cr: "create_session (sdb s) = (e, d)" by (cases "create_session (sdb s)")
  then have s': "s' = s\<lparr>sdb := d\<rparr>" using ap by (simp add: apply_start_session_def)
  have nx: "next_id d = next_id (sdb s) + 1" using cr by (auto simp: create_session_def Let_def)
  have un: "unat (next_id d) = unat (next_id (sdb s)) + 1"
    using sm_inv_next [OF inv] n unat_inc [of "next_id (sdb s)"] nx by simp
  have "db_evolves (sdb s) d"
  proof (rule db_evolvesI)
    fix sid e0 e1
    assume 0: "find_session sid (sdb s) = Some e0" and 1: "find_session sid d = Some e1"
    have "sid \<noteq> next_id (sdb s)" using sm_inv_fresh [OF inv 0] by auto
    then show "entry_evolves e0 e1" using find_create_session [OF cr] 0 1 by simp
  qed (use find_create_session [OF cr] un in \<open>auto split: if_splits\<close>)
  then show ?thesis by (simp add: evolves_def s')
qed

lemma apply_delete_evolves:
  assumes inv: "sm_inv n s" and n: "n < 2 ^ 31 - 1" and ap: "apply_delete session_id fh s = Inr (r, s')"
  shows "evolves s s'"
proof (cases "s' = s")
  case False
  obtain key m c d pm pc where m: "ds s key = Some (m, c)" and d: "d = enqueue_owners (lock_owners m) fh (sdb s)"
    and p: "ds (set_file key (meta_delete m, []) (s\<lparr>sdb := d\<rparr>)) (parent_path key) = Some (pm, pc)"
    and s': "s' = (case remove_child pc (filename key) of
               Some pc' \<Rightarrow> set_file (parent_path key) (pm, pc') (set_file key (meta_delete m, []) (s\<lparr>sdb := d\<rparr>))
             | None \<Rightarrow> set_file key (meta_delete m, []) (s\<lparr>sdb := d\<rparr>))"
    using ap False unfolding apply_delete_def Let_def
    by (auto simp: result_simps simp del: set_file_simps split: option.splits)
  have "sint (instance_num m) < 2 ^ 31 - 1" using sm_inv_meta [OF inv m] n by (auto simp: meta_ok_def)
  then have "sint (instance_num m) \<le> sint (instance_num (meta_delete m))"
    by (simp add: meta_delete_def sint_inc)
  then have "evolves (s\<lparr>sdb := d\<rparr>) (set_file key (meta_delete m, []) (s\<lparr>sdb := d\<rparr>))"
    using m by (intro evolves_set_file) simp
  then have "evolves s (set_file key (meta_delete m, []) (s\<lparr>sdb := d\<rparr>))"
    using evolves_trans [OF inv evolves_same_handles] same_handles_enqueue_owners d by blast
  then show ?thesis
    using evolves_trans [OF inv] evolves_set_content [OF p] unfolding s' by (auto split: option.split)
qed simp

lemma apply_action_evolves:
  assumes inv: "sm_inv n s" and n: "n < 2 ^ 31 - 1" and ap: "apply_action a s = Inr (r, s')"
  shows "evolves s s'"
proof (cases a)
  case (OpenAction sid p d e)
  then show ?thesis using apply_open_evolves [OF inv] ap by simp
next
  case (CloseAction sid fh)
  show ?thesis
  proof (cases "find_session (int_of_int64 sid) (sdb s)")
    case None
    then show ?thesis using ap CloseAction by (simp add: apply_close_def)
  next
    case (Some session)
    then obtain p session' s1 rc where
        cl: "close_file_delete_ephermeral (int_of_int64 sid) session fh s = Inr (Some p, session', s1)" and
        rl: "release_lock (int_of_int64 sid) fh s1 = Inr (rc, s')"
      using ap CloseAction by (auto simp: apply_close_def Let_def result_simps split: option.splits)
    show ?thesis using evolves_trans [OF inv close_file_evolves [OF inv Some cl] release_lock_evolves [OF rl]] .
  qed
next
  case StartSessionAction
  then show ?thesis using apply_start_session_evolves [OF inv n] ap by simp
next
  case (EndSessionAction sid)
  then show ?thesis using apply_end_session_evolves [OF inv] n ap by simp
next
  case (AcqAction sid fh ex)
  have "meta_acquire b k m = Inr (g, m') \<Longrightarrow> instance_num m' = instance_num m" for b k m g m'
    by (auto simp: meta_acquire_def result_simps Let_def split: if_splits)
  then show ?thesis
    using ap AcqAction by (auto simp: apply_acq_def Let_def result_simps intro!: evolves_set_file
        split: option.splits if_splits)
next
  case (RelAction sid fh)
  then show ?thesis
    using ap release_lock_evolves by (auto simp: apply_rel_def result_simps split: if_splits)
next
  case (SetContentAction sid fh c)
  then show ?thesis
    using ap by (auto simp: apply_set_content_def Let_def result_simps intro!: evolves_set_content
        split: option.splits if_splits)
next
  case (DeleteAction sid fh)
  then show ?thesis using apply_delete_evolves [OF inv n] ap by simp
qed

lemma run_log_evolves:
  "sm_inv n s \<Longrightarrow> n + length as < 2 ^ 31 \<Longrightarrow> run_log as s = Inr (rs, s') \<Longrightarrow> evolves s s'"
proof (induction as arbitrary: n s rs)
  case Nil
  then show ?case by simp
next
  case (Cons a as)
  obtain r s1 rs1 where 1: "apply_action a s = Inr (r, s1)" "run_log as s1 = Inr (rs1, s')"
    using Cons.prems(3) by (auto simp: result_simps)
  have n: "n < 2 ^ 31 - 1" using Cons.prems(2) by simp
  have "sm_inv (Suc n) s1" using apply_action_inv [OF Cons.prems(1) n 1(1)] .
  from Cons.IH [OF this _ 1(2)] Cons.prems(2) have "evolves s1 s'" by simp
  with apply_action_evolves [OF Cons.prems(1) n 1(1)] show ?case by (rule evolves_trans [OF Cons.prems(1)])
qed

section \<open>Stale handles\<close>

text \<open>A handle whose instance number is behind that of its file can no longer write.\<close>

definition stale :: "sm_state \<Rightarrow> i32 \<Rightarrow> nat \<Rightarrow> string \<Rightarrow> bool" where
  "stale s sid i p \<longleftrightarrow> (\<exists>e m c. find_session sid (sdb s) = Some e \<and> i < length (entry_v e) \<and>
     entry_v e ! i = p \<and> ds s p = Some (m, c) \<and> sint (entry_inum e ! i) < sint (instance_num m))"

lemma stale_evolves:
  assumes st: "stale s sid i p" and ev: "evolves s s'" and inv: "sm_inv n s'"
    and e': "find_session sid (sdb s') = Some e'"
  shows "stale s' sid i p"
proof -
  obtain e m c where e: "find_session sid (sdb s) = Some e" "i < length (entry_v e)" "entry_v e ! i = p"
    and m: "ds s p = Some (m, c)" "sint (entry_inum e ! i) < sint (instance_num m)"
    using st by (auto simp: stale_def)
  obtain m' c' where m': "ds s' p = Some (m', c')" "sint (instance_num m) \<le> sint (instance_num m')"
    using ev m(1) unfolding evolves_def file_evolves_def by metis
  have "entry_evolves e e'" using ev e(1) e' by (auto simp: evolves_def db_evolves_def)
  then have "i < length (entry_v e')" "entry_v e' ! i = p"
    and "entry_inum e' ! i = entry_inum e ! i \<or> entry_inum e' ! i = -1"
    using e by (auto simp: entry_evolves_def)
  moreover have "0 \<le> sint (instance_num m')" using sm_inv_meta [OF inv m'(1)] by (simp add: meta_ok_def)
  ultimately show ?thesis using m m' e' by (auto simp: stale_def)
qed

lemma stale_set_content:
  assumes st: "stale s (int_of_int64 session_id) i p" and i: "i < 2 ^ 31" and inv: "sm_inv n s"
  shows "apply_set_content session_id (of_nat i) c s = Inr (Response (-1) ''Instance num mismatch'', s)"
proof -
  obtain e m c0 where e: "find_session (int_of_int64 session_id) (sdb s) = Some e" "i < length (entry_v e)"
      "entry_v e ! i = p" and m: "ds s p = Some (m, c0)" "sint (entry_inum e ! i) < sint (instance_num m)"
    using st by (auto simp: stale_def)
  have "length (entry_inum e) = length (entry_v e)" using sm_inv_entry [OF inv e(1)] by (simp add: entry_ok_def)
  then have "fh_to_key (of_nat i) e = Inr p" "handle_inum (of_nat i) e = Inr (entry_inum e ! i)"
    using e i in_range_of_nat [of i "entry_v e"] in_range_of_nat [of i "entry_inum e"] by (simp_all add: fh_to_key_def handle_inum_def result_simps sint_of_nat32)
  moreover have "entry_inum e ! i \<noteq> instance_num m" using m(2) by auto
  ultimately show ?thesis using e(1) m(1) by (simp add: apply_set_content_def)
qed

end
