(* ===== verification/SM_Locks.thy ===== *)
theory SM_Locks
  imports SM_Behaviour
begin

text \<open>
  The advisory lock over whole logs: an exclusive lock stays with its owner until the owner
  releases or closes a handle or ends its session, or the file is deleted; what the end of a
  session releases, and the one case in which it does not.
\<close>

definition lock_state :: "sm_state \<Rightarrow> string \<Rightarrow> rw_state option" where
  "lock_state s p = map_option (\<lambda>(m, _). abs_lock m) (ds s p)"

definition resolves :: "sm_state \<Rightarrow> i64 \<Rightarrow> i32 \<Rightarrow> string \<Rightarrow> bool" where
  "resolves s session_id fh p \<longleftrightarrow>
     (\<exists>e. find_session (int_of_int64 session_id) (sdb s) = Some e \<and> fh_to_key fh e = Inr p)"

text \<open>
  The actions that may take the lock of \<open>p\<close> away from \<open>sid\<close>: its own close or release of a
  handle to \<open>p\<close>, the end of its session, and a delete of \<open>p\<close> by anyone.
\<close>

fun disturbs :: "sm_state \<Rightarrow> i32 \<Rightarrow> string \<Rightarrow> action \<Rightarrow> bool" where
  "disturbs s sid p (CloseAction x fh) = (int_of_int64 x = sid \<and> resolves s x fh p)"
| "disturbs s sid p (EndSessionAction x) = (int_of_int64 x = sid)"
| "disturbs s sid p (RelAction x fh) = (int_of_int64 x = sid \<and> resolves s x fh p)"
| "disturbs s sid p (DeleteAction x fh) = resolves s x fh p"
| "disturbs s sid p _ = False"

fun undisturbed :: "i32 \<Rightarrow> string \<Rightarrow> action list \<Rightarrow> sm_state \<Rightarrow> bool" where
  "undisturbed sid p [] s = True"
| "undisturbed sid p (a # as) s =
     (\<not> disturbs s sid p a \<and>
      (case apply_action a s of Inr (_, s1) \<Rightarrow> undisturbed sid p as s1 | Inl _ \<Rightarrow> True))"

section \<open>Lock fields under the writes of the state machine\<close>

definition excl :: "sm_state \<Rightarrow> string \<Rightarrow> i32 \<Rightarrow> bool" where
  "excl s p sid \<longleftrightarrow> (\<exists>m c. ds s p = Some (m, c) \<and> lock_owners m = {sid} \<and> is_locked_ex m = Some True)"

lemma excl_lock_state:
  assumes "sm_inv n s"
  shows "lock_state s p = Some (Exclusive sid) \<longleftrightarrow> excl s p sid"
proof (cases "ds s p")
  case None
  then show ?thesis by (simp add: lock_state_def excl_def)
next
  case (Some f)
  obtain m c where f: "f = (m, c)" by (cases f)
  have "lock_wf m" using sm_inv_meta [OF assms] Some f by (simp add: meta_ok_def)
  then show ?thesis
    by (cases rule: lock_wf_cases) (auto simp: lock_state_def excl_def Some f abs_lock_def)
qed

lemma excl_set_file:
  "excl s p sid \<Longrightarrow>
   (\<And>m0 c0. q = p \<Longrightarrow> ds s p = Some (m0, c0) \<Longrightarrow> lock_owners m0 = {sid} \<Longrightarrow> is_locked_ex m0 = Some True \<Longrightarrow>
      lock_owners m = {sid} \<and> is_locked_ex m = Some True) \<Longrightarrow>
   excl (set_file q (m, c) s) p sid"
  by (auto simp: excl_def)

lemma excl_upd:
  assumes "excl s p sid" and "ds s q = Some (m0, c0)"
    and "lock_owners m0 = {sid} \<Longrightarrow> lock_owners m = {sid}" and "is_locked_ex m = is_locked_ex m0"
  shows "excl (set_file q (m, c) s) p sid"
  using assms by (cases "q = p") (auto simp: excl_def)

lemma excl_set_content: "excl s p sid \<Longrightarrow> ds s q = Some (m, c0) \<Longrightarrow> excl (set_file q (m, c) s) p sid"
  by (rule excl_set_file) auto

lemma excl_set_session [simp]: "excl (set_session j e s) p sid = excl s p sid"
  by (simp add: excl_def)

lemma excl_sdb [simp]: "excl (s\<lparr>sdb := d\<rparr>) p sid = excl s p sid"
  by (simp add: excl_def)

lemma open_file_excl: "excl s p sid \<Longrightarrow> open_file q d e s = Inr s1 \<Longrightarrow> excl s1 p sid"
  by (cases "ds s q")
    (auto simp: open_file_def Let_def excl_def split: if_splits)

lemma open_parent_excl: "excl s p sid \<Longrightarrow> open_parent q s = Inr s1 \<Longrightarrow> excl s1 p sid"
  by (auto simp: open_parent_def Let_def result_simps intro!: excl_set_content split: if_splits)

lemma open_handle_excl: "excl s p sid \<Longrightarrow> open_handle j e q s = Inr (r, s1) \<Longrightarrow> excl s1 p sid"
  by (auto simp: open_handle_def Let_def result_simps split_def intro!: excl_upd)

lemma apply_open_excl:
  assumes ex: "excl s p sid" and ap: "apply_open j q d e s = Inr (r, s')"
  shows "excl s' p sid"
proof (cases "find_session (int_of_int64 j) (sdb s)")
  case (Some session)
  then obtain s1 s2 where "open_file q d e s = Inr s1" "open_parent q s1 = Inr s2"
      "open_handle (int_of_int64 j) session q s2 = Inr (r, s')"
    using ap by (auto simp: apply_open_def Let_def result_simps)
  then show ?thesis using ex open_file_excl open_parent_excl open_handle_excl by blast
qed (use ex ap in \<open>simp add: apply_open_def\<close>)

lemma drop_subscriber_excl:
  assumes "drop_subscriber j key s = Inr (ret, s')" and ex: "excl s p sid"
  shows "excl s' p sid"
proof -
  obtain m c where m: "ds s key = Some (m, c)" using assms by (auto simp: drop_subscriber_def result_simps)
  define m1 where "m1 = m\<lparr>subscribers := AList.delete j (subscribers m)\<rparr>"
  have e: "excl (set_file key (m1, c) s) p sid" "excl (set_file key (m1\<lparr>file_exists := False\<rparr>, c) s) p sid"
    by (rule excl_upd [OF ex m]; simp add: m1_def)+
  from assms(1) m m1_def show ?thesis
  proof (cases rule: drop_subscriber_cases)
    case (unlisted pm pc pc')
    then show ?thesis using excl_set_content [OF e(2) unlisted(4)] by simp
  qed (use e ex in simp_all)
qed

lemma close_file_excl:
  assumes "close_file_delete_ephermeral j e fh s = Inr (ret, e', s')" and "excl s p sid"
  shows "excl s' p sid"
  using assms drop_subscriber_excl
  by (fastforce simp: close_file_delete_ephermeral_def result_simps split: if_splits)

lemma release_lock_excl:
  assumes ap: "release_lock j fh s = Inr (rc, s')" and ex: "excl s p sid"
    and other: "j \<noteq> sid \<or> \<not> (\<exists>e. find_session j (sdb s) = Some e \<and> fh_to_key fh e = Inr p)"
  shows "excl s' p sid"
proof (cases "s' = s")
  case False
  then obtain e key m c where e: "find_session j (sdb s) = Some e" "fh_to_key fh e = Inr key"
    and m: "ds s key = Some (m, c)" and s': "s' = set_file key (snd (meta_release j m), c) s"
    using ap by (auto simp: release_lock_def meta_release_def result_simps split: option.splits if_splits)
  show ?thesis
  proof (cases "key = p")
    case True
    then have "j \<noteq> sid" using other e by blast
    then show ?thesis unfolding s' by (intro excl_upd [OF ex m]) (auto simp: meta_release_def)
  qed (use ex s' in \<open>simp add: excl_def\<close>)
qed (use ex in simp)

lemma drop_subscriber_sdb: "drop_subscriber j key s = Inr (ret, s') \<Longrightarrow> sdb s' = sdb s"
  by (auto simp: drop_subscriber_def Let_def result_simps split: if_splits option.splits)

lemma close_file_handles:
  assumes "close_file_delete_ephermeral j e fh s = Inr (ret, e', s')" and "find_session j (sdb s) = Some e"
  shows "\<exists>e2. find_session j (sdb s') = Some e2 \<and> entry_v e2 = entry_v e"
proof -
  obtain inum where inum: "handle_inum fh e = Inr inum"
    using assms(1) by (auto simp: close_file_delete_ephermeral_def result_simps)
  show ?thesis
  proof (cases "inum = -1")
    case True
    then show ?thesis using assms inum by (simp add: close_file_delete_ephermeral_def)
  next
    case False
    then obtain key where "close_handle fh e = Inr e'"
      and "drop_subscriber (entry_id e') key (set_session j e' s) = Inr (ret, s')"
      using assms(1) inum by (auto simp: close_file_delete_ephermeral_def result_simps)
    then show ?thesis using drop_subscriber_sdb close_handle_frame by (fastforce simp: find_put_session)
  qed
qed

lemma end_session_loop_excl:
  "end_session_loop j is e ps sz s = Inr (ps', sz', s') \<Longrightarrow> excl s p sid \<Longrightarrow> j \<noteq> sid \<Longrightarrow> excl s' p sid"
proof (induction "is" arbitrary: e ps sz s)
  case (Cons i "is")
  obtain ret e1 s1 rc s2 ps1 sz1 where
      "close_file_delete_ephermeral j e (of_nat i) s = Inr (ret, e1, s1)"
      "release_lock j (of_nat i) s1 = Inr (rc, s2)"
      "end_session_loop j is e1 ps1 sz1 s2 = Inr (ps', sz', s')"
    using Cons.prems(1) by (auto simp: result_simps Let_def)
  then show ?case using Cons.IH Cons.prems(2,3) close_file_excl release_lock_excl by blast
qed simp

lemma meta_acquire_excl:
  "lock_owners m = {sid} \<Longrightarrow> is_locked_ex m = Some True \<Longrightarrow> meta_acquire ex j m = Inr (False, m)"
  by (simp add: meta_acquire_def)

lemma apply_acq_excl:
  assumes "excl s p sid" and "apply_acq j fh ex s = Inr (r, s')"
  shows "excl s' p sid \<and> (resolves s j fh p \<longrightarrow> r = Response 1 ''fail to acquire'' \<and> s' = s)"
proof (cases "find_session (int_of_int64 j) (sdb s)")
  case None
  then show ?thesis using assms by (simp add: apply_acq_def resolves_def)
next
  case (Some e)
  then obtain q m c where q: "fh_to_key fh e = Inr q" "ds s q = Some (m, c)"
    using assms(2) by (auto simp: apply_acq_def Let_def result_simps)
  show ?thesis
  proof (cases "q = p")
    case True
    then have "meta_acquire (bool_of_int ex) (entry_id e) m = Inr (False, m)"
      using assms(1) q(2) by (intro meta_acquire_excl [of m sid]) (auto simp: excl_def)
    then show ?thesis using assms Some q by (simp add: apply_acq_def Let_def)
  next
    case False
    then show ?thesis
      using assms Some q by (auto simp: apply_acq_def Let_def result_simps resolves_def
          intro!: excl_set_file split: if_splits)
  qed
qed

lemma apply_delete_excl:
  assumes ex: "excl s p sid" and ap: "apply_delete j fh s = Inr (r, s')" and nd: "\<not> resolves s j fh p"
  shows "excl s' p sid"
proof (cases "s' = s")
  case False
  obtain e key m c d pm pc where e: "find_session (int_of_int64 j) (sdb s) = Some e" "fh_to_key fh e = Inr key"
    and m: "ds s key = Some (m, c)"
    and p: "ds (set_file key (meta_delete m, []) (s\<lparr>sdb := d\<rparr>)) (parent_path key) = Some (pm, pc)"
    and s': "s' = (case remove_child pc (filename key) of
               Some pc' \<Rightarrow> set_file (parent_path key) (pm, pc') (set_file key (meta_delete m, []) (s\<lparr>sdb := d\<rparr>))
             | None \<Rightarrow> set_file key (meta_delete m, []) (s\<lparr>sdb := d\<rparr>))"
    using ap False unfolding apply_delete_def Let_def
    by (auto simp: result_simps simp del: set_file_simps split: option.splits)
  have "key \<noteq> p" using nd e by (auto simp: resolves_def)
  then have "excl (set_file key (meta_delete m, []) (s\<lparr>sdb := d\<rparr>)) p sid"
    using ex by (intro excl_set_file) auto
  then show ?thesis using excl_set_content [OF _ p] unfolding s' by (auto split: option.split)
qed (use ex in simp)

lemma apply_action_excl:
  assumes ex: "excl s p sid" and ap: "apply_action a s = Inr (r, s')"
    and nd: "\<not> disturbs s sid p a"
  shows "excl s' p sid"
proof (cases a)
  case (OpenAction j q d e)
  then show ?thesis using apply_open_excl [OF ex] ap by simp
next
  case (CloseAction j fh)
  show ?thesis
  proof (cases "find_session (int_of_int64 j) (sdb s)")
    case (Some e)
    then obtain ret e' s1 rc where cl: "close_file_delete_ephermeral (int_of_int64 j) e fh s = Inr (ret, e', s1)"
      and rl: "release_lock (int_of_int64 j) fh s1 = Inr (rc, s')"
      using ap CloseAction by (auto simp: apply_close_def Let_def result_simps split: option.splits)
    obtain e2 where e2: "find_session (int_of_int64 j) (sdb s1) = Some e2" "entry_v e2 = entry_v e"
      using close_file_handles [OF cl Some] by blast
    then have "int_of_int64 j \<noteq> sid \<or>
        \<not> (\<exists>e. find_session (int_of_int64 j) (sdb s1) = Some e \<and> fh_to_key fh e = Inr p)"
      using nd CloseAction Some by (auto simp: resolves_def fh_to_key_def)
    then show ?thesis using release_lock_excl [OF rl close_file_excl [OF cl ex]] by blast
  qed (use ap ex CloseAction in \<open>simp add: apply_close_def\<close>)
next
  case StartSessionAction
  then show ?thesis using ap ex by (auto simp: apply_start_session_def split: prod.splits)
next
  case (EndSessionAction j)
  then show ?thesis
    using ap nd ex end_session_loop_excl
    by (fastforce simp: apply_end_session_def Let_def result_simps split: option.splits)
next
  case (AcqAction j fh x)
  then show ?thesis using apply_acq_excl [OF ex] ap by simp
next
  case (RelAction j fh)
  then show ?thesis
    using ap nd ex release_lock_excl [of "int_of_int64 j" fh s]
    by (fastforce simp: apply_rel_def resolves_def result_simps split: if_splits)
next
  case (SetContentAction j fh c)
  then show ?thesis
    using ap ex by (auto simp: apply_set_content_def Let_def result_simps intro!: excl_set_content
        split: option.splits if_splits)
next
  case (DeleteAction j fh)
  then show ?thesis using apply_delete_excl [OF ex] ap nd by simp
qed

lemma run_log_excl:
  "excl s p sid \<Longrightarrow> run_log as s = Inr (rs, s') \<Longrightarrow> undisturbed sid p as s \<Longrightarrow> excl s' p sid"
proof (induction as arbitrary: s rs)
  case (Cons a as)
  obtain r s1 rs1 where 1: "apply_action a s = Inr (r, s1)" "run_log as s1 = Inr (rs1, s')"
    using Cons.prems(2) by (auto simp: result_simps)
  then show ?case using Cons apply_action_excl [OF Cons.prems(1) 1(1)] by simp
qed simp

section \<open>The end of a session\<close>

text \<open>Closing and releasing never create a file or add an owner.\<close>

definition shrinks :: "sm_state \<Rightarrow> sm_state \<Rightarrow> bool" where
  "shrinks s s' \<longleftrightarrow> (\<forall>p m' c'. ds s' p = Some (m', c') \<longrightarrow>
     (\<exists>m c. ds s p = Some (m, c) \<and> (file_exists m' \<longrightarrow> file_exists m) \<and> lock_owners m' \<subseteq> lock_owners m))"

lemma shrinks_refl [simp]: "shrinks s s"
  by (simp add: shrinks_def)

lemma shrinks_trans: "shrinks s s1 \<Longrightarrow> shrinks s1 s2 \<Longrightarrow> shrinks s s2"
  unfolding shrinks_def by (meson subset_trans)

lemma shrinks_set_file:
  "ds s p = Some (m0, c0) \<Longrightarrow> (file_exists m \<longrightarrow> file_exists m0) \<Longrightarrow> lock_owners m \<subseteq> lock_owners m0 \<Longrightarrow>
   shrinks s (set_file p (m, c) s)"
  by (auto simp: shrinks_def)

lemma shrinks_set_session [simp]: "shrinks s (set_session j e s)"
  by (simp add: shrinks_def)

lemma drop_subscriber_shrinks:
  assumes "drop_subscriber j key s = Inr (ret, s')"
  shows "shrinks s s'"
proof -
  obtain m c where m: "ds s key = Some (m, c)" using assms by (auto simp: drop_subscriber_def result_simps)
  define m1 where "m1 = m\<lparr>subscribers := AList.delete j (subscribers m)\<rparr>"
  have e: "shrinks s (set_file key (m1, c) s)" "shrinks s (set_file key (m1\<lparr>file_exists := False\<rparr>, c) s)"
    using m by (auto intro!: shrinks_set_file simp: m1_def)
  from assms m m1_def show ?thesis
  proof (cases rule: drop_subscriber_cases)
    case (unlisted pm pc pc')
    from unlisted(4) have "shrinks (set_file key (m1\<lparr>file_exists := False\<rparr>, c) s) s'"
      unfolding unlisted(7) by (rule shrinks_set_file) auto
    then show ?thesis by (rule shrinks_trans [OF e(2)])
  qed (use e in simp_all)
qed

lemma close_file_shrinks:
  "close_file_delete_ephermeral j e fh s = Inr (ret, e', s') \<Longrightarrow> shrinks s s'"
  using drop_subscriber_shrinks shrinks_trans [OF shrinks_set_session]
  by (fastforce simp: close_file_delete_ephermeral_def result_simps split: if_splits)

lemma release_lock_shrinks: "release_lock j fh s = Inr (rc, s') \<Longrightarrow> shrinks s s'"
  by (auto simp: release_lock_def meta_release_def result_simps intro!: shrinks_set_file
      split: option.splits if_splits)

definition not_holding :: "i32 \<Rightarrow> string \<Rightarrow> sm_state \<Rightarrow> bool" where
  "not_holding sid p s \<longleftrightarrow> (\<forall>m c. ds s p = Some (m, c) \<longrightarrow> file_exists m \<longrightarrow> sid \<notin> lock_owners m)"

lemma not_holding_shrinks: "not_holding sid p s \<Longrightarrow> shrinks s s' \<Longrightarrow> not_holding sid p s'"
  unfolding not_holding_def shrinks_def by blast

lemma release_lock_releases:
  "release_lock sid fh s = Inr (rc, s') \<Longrightarrow> find_session sid (sdb s) = Some e \<Longrightarrow> fh_to_key fh e = Inr p \<Longrightarrow>
   not_holding sid p s'"
  by (auto simp: release_lock_def meta_release_def not_holding_def result_simps split: if_splits)

lemma end_session_loop_releases:
  assumes "sm_inv n s" and "find_session sid (sdb s) = Some session"
    and "end_session_loop sid is session ps sz s = Inr (ps', sz', s')"
  shows "shrinks s s' \<and> (\<forall>i \<in> set is. \<forall>p. fh_to_key (of_nat i) session = Inr p \<longrightarrow> not_holding sid p s')"
  using assms
proof (induction "is" arbitrary: session ps sz s)
  case (Cons i "is")
  obtain ret session1 s1 rc s2 ps1 sz1 where
      cl: "close_file_delete_ephermeral sid session (of_nat i) s = Inr (ret, session1, s1)"
    and rl: "release_lock sid (of_nat i) s1 = Inr (rc, s2)"
    and lp: "end_session_loop sid is session1 ps1 sz1 s2 = Inr (ps', sz', s')"
    using Cons.prems(3) by (auto simp: result_simps Let_def)
  from close_file_inv [OF Cons.prems(1,2) cl]
  have c: "sm_inv n s1" "find_session sid (sdb s1) = Some session1" "entry_v session1 = entry_v session"
    by (auto simp: find_put_session closed_upto_def)
  then have key: "fh_to_key g session1 = fh_to_key g session" for g by (simp add: fh_to_key_def)
  from release_lock_inv [OF c(1) rl] have r: "sm_inv n s2" "sdb s2 = sdb s1" by auto
  note IH = Cons.IH [OF r(1) _ lp, unfolded r(2), OF c(2)]
  have "not_holding sid p s'" if "fh_to_key (of_nat i) session = Inr p" for p
    using release_lock_releases [OF rl c(2)] key that IH not_holding_shrinks by metis
  moreover have "shrinks s s'"
    using shrinks_trans [OF shrinks_trans [OF close_file_shrinks [OF cl] release_lock_shrinks [OF rl]]] IH by blast
  ultimately show ?case using IH key by auto
qed simp

text \<open>
  After the end of a session its id is unknown, no file lists it as a subscriber, and it
  owns the lock of no existing file it had opened; other sessions are untouched.
\<close>

lemma apply_end_session_effect:
  assumes inv: "sm_inv n s" and n: "n < 2 ^ 31"
    and e: "find_session (int_of_int64 session_id) (sdb s) = Some e"
    and ap: "apply_end_session session_id s = Inr (r, s')"
  shows "find_session (int_of_int64 session_id) (sdb s') = None"
    and "\<And>p m c. ds s' p = Some (m, c) \<Longrightarrow> subscribed m (int_of_int64 session_id) = None"
    and "\<And>p. p \<in> set (entry_v e) \<Longrightarrow> not_holding (int_of_int64 session_id) p s'"
    and "\<And>j. j \<noteq> int_of_int64 session_id \<Longrightarrow> find_session j (sdb s') = find_session j (sdb s)"
proof -
  let ?sid = "int_of_int64 session_id"
  obtain parents sz s1 e1 where
    lp: "end_session_loop ?sid [0..<length (entry_v e)] e [] 18 s = Inr (parents, sz, s1)"
    and del: "delete_session ?sid (sdb s1) = Inr (sdb s')" and s': "s' = s1\<lparr>sdb := sdb s'\<rparr>"
    and oth: "\<And>j. j \<noteq> ?sid \<Longrightarrow> find_session j (sdb s1) = find_session j (sdb s)"
    by (rule end_session_state [OF inv n e ap]) metis
  have ds: "ds s' = ds s1" using s' by (metis sm_state.select_convs(1) sm_state.surjective sm_state.update_convs(2))
  show none: "find_session ?sid (sdb s') = None" using db.find_del [OF del] by simp
  show "find_session j (sdb s') = find_session j (sdb s)" if "j \<noteq> ?sid" for j
    using db.find_del [OF del] oth that by simp
  have inv': "sm_inv n s'" using apply_end_session_inv [OF inv n ap] .
  show "subscribed m ?sid = None" if "ds s' p = Some (m, c)" for p m c
    using sm_inv_subscription [OF inv' that, of ?sid] none
    by (cases "subscribed m ?sid") (auto simp: subscription_ok_def)
  show "not_holding ?sid p s'" if p: "p \<in> set (entry_v e)" for p
  proof -
    obtain i where i: "i < length (entry_v e)" "entry_v e ! i = p" using p by (auto simp: in_set_conv_nth)
    have "i < 2 ^ 31" using i sm_inv_entry [OF inv e] n by (simp add: entry_ok_def)
    then have "fh_to_key (of_nat i) e = Inr p"
      using i in_range_of_nat [of i "entry_v e"] by (simp add: fh_to_key_def result_simps sint_of_nat32)
    then have "not_holding ?sid p s1"
      using end_session_loop_releases [OF inv e lp] i by auto
    then show ?thesis by (simp add: not_holding_def ds)
  qed
qed

end
