(* ===== verification/SM_Crash.thy ===== *)
theory SM_Crash
  imports SM_Locks
begin

text \<open>
  When a committed action brings a replica down. In a well-formed state the answer is a
  condition on the action and the state, \<open>crashes\<close>: a handle outside the session's
  table, an open below something that is not a directory, the removal of a directory with
  children, and every close that does not remove an ephemeral file, because
  \<open>apply_ (CloseAction)\<close> reads the returned optional without testing it. Starting and
  ending a session never crash the state machine itself.
\<close>

definition parent_is_directory :: "sm_state \<Rightarrow> string \<Rightarrow> i32 \<Rightarrow> bool" where
  "parent_is_directory s path d \<longleftrightarrow>
     (if parent_path path = path then
        (case ds s path of
           Some (m, _) \<Rightarrow> if file_exists m then is_directory m else bool_of_int d
         | None \<Rightarrow> bool_of_int d)
      else (\<exists>pm pc. ds s (parent_path path) = Some (pm, pc) \<and> is_directory pm))"

definition removes_ephemeral :: "sm_state \<Rightarrow> i32 \<Rightarrow> entry \<Rightarrow> i32 \<Rightarrow> bool" where
  "removes_ephemeral s sid e fh \<longleftrightarrow> handle_open e fh \<and>
     (\<exists>p m c pm pc. fh_to_key fh e = Inr p \<and> ds s p = Some (m, c) \<and>
        map fst (subscribers m) = [sid] \<and> is_ephemeral m = Some True \<and>
        ds s (parent_path p) = Some (pm, pc) \<and> remove_child pc (filename p) \<noteq> None)"

definition session_of :: "sm_state \<Rightarrow> i64 \<Rightarrow> entry option" where
  "session_of s session_id = find_session (int_of_int64 session_id) (sdb s)"

fun crashes :: "action \<Rightarrow> sm_state \<Rightarrow> bool" where
  "crashes (OpenAction x p d _) s = (session_of s x \<noteq> None \<and> \<not> parent_is_directory s p d)"
| "crashes (CloseAction x fh) s =
     (\<exists>e. session_of s x = Some e \<and>
        (\<not> in_range (entry_v e) fh \<or> \<not> removes_ephemeral s (int_of_int64 x) e fh))"
| "crashes StartSessionAction s = False"
| "crashes (EndSessionAction _) s = False"
| "crashes (AcqAction x fh _) s = (\<exists>e. session_of s x = Some e \<and> \<not> in_range (entry_v e) fh)"
| "crashes (RelAction x fh) s = (\<exists>e. session_of s x = Some e \<and> \<not> in_range (entry_v e) fh)"
| "crashes (SetContentAction x fh _) s = (\<exists>e. session_of s x = Some e \<and> \<not> in_range (entry_v e) fh)"
| "crashes (DeleteAction x fh) s =
     (\<exists>e. session_of s x = Some e \<and>
        (\<not> in_range (entry_v e) fh \<or>
         (\<exists>p m c. fh_to_key fh e = Inr p \<and> ds s p = Some (m, c) \<and> is_directory m \<and> c \<noteq> [])))"

lemma fh_to_key_in_range: "in_range (entry_v e) fh \<Longrightarrow> \<exists>p. fh_to_key fh e = Inr p"
  by (simp add: fh_to_key_def result_simps)

lemma fh_to_key_out: "\<not> in_range (entry_v e) fh \<Longrightarrow> fh_to_key fh e = Inl Out_of_range"
  by (simp add: fh_to_key_def result_simps)

lemma key_file:
  assumes "sm_inv n s" and "find_session sid (sdb s) = Some e" and "in_range (entry_v e) fh"
  obtains p m c where "fh_to_key fh e = Inr p" "ds s p = Some (m, c)"
  using fh_to_key_in_range [OF assms(3)] sm_inv_key [OF assms(1,2)] by blast

lemma handle_inum_in_range:
  "entry_ok n sid e \<Longrightarrow> in_range (entry_v e) fh \<Longrightarrow> \<exists>k. handle_inum fh e = Inr k"
  by (auto simp: handle_inum_def result_simps entry_ok_def in_range_def)

section \<open>Closing and releasing\<close>

lemma subscribers_only:
  assumes "distinct (map fst xs)"
  shows "map_of xs k \<noteq> None \<and> AList.delete k xs = [] \<longleftrightarrow> map fst xs = [k]"
proof
  assume "map_of xs k \<noteq> None \<and> AList.delete k xs = []"
  then have k: "k \<in> set (map fst xs)" and "removeAll k (map fst xs) = []"
    using AList.delete_keys [of k xs] by (auto simp: map_of_eq_None_iff)
  then have "set (map fst xs) = {k}" using set_removeAll [of k "map fst xs"] by auto
  moreover have "length (map fst xs) = card (set (map fst xs))"
    by (simp add: distinct_card [OF assms] del: set_map length_map)
  ultimately show "map fst xs = [k]" by (auto simp: length_Suc_conv simp del: length_map)
next
  assume "map fst xs = [k]"
  then show "map_of xs k \<noteq> None \<and> AList.delete k xs = []" by (cases xs) auto
qed

lemma drop_subscriber_total:
  assumes inv: "sm_inv n s" and m: "ds s key = Some (m, c)" and ds: "ds s' = ds s"
  shows "\<exists>ret s1. drop_subscriber sid key s' = Inr (ret, s1) \<and>
    (ret \<noteq> None \<longleftrightarrow> map fst (subscribers m) = [sid] \<and> is_ephemeral m = Some True \<and>
       (\<exists>pm pc. ds s (parent_path key) = Some (pm, pc) \<and> remove_child pc (filename key) \<noteq> None))"
proof -
  have mok: "meta_ok n m" using sm_inv_meta [OF inv m] .
  obtain pm pc where p: "ds s (parent_path key) = Some (pm, pc)"
    using sm_inv_parent [OF inv m] by (cases "ds s (parent_path key)") auto
  have only: "subscribed m sid \<noteq> None \<and> AList.delete sid (subscribers m) = [] \<longleftrightarrow> map fst (subscribers m) = [sid]"
    using subscribers_only [of "subscribers m" sid] mok by (simp add: meta_ok_def subscribed_def)
  show ?thesis
  proof (cases "map fst (subscribers m) = [sid]")
    case True
    then have "subscribers m \<noteq> []" by auto
    then obtain b where b: "is_ephemeral m = Some b" using mok by (auto simp: meta_ok_def)
    obtain pm' where p': "ds (set_file key (m\<lparr>subscribers := [], file_exists := False\<rparr>, c) s') (parent_path key)
        = Some (pm', pc)"
      using p m ds by (cases "parent_path key = key") auto
    show ?thesis
      using only True b m p p' ds
      by (cases b) (auto simp: drop_subscriber_def Let_def split: option.splits)
  next
    case False
    show ?thesis
    proof (cases "subscribed m sid = None")
      case True
      then show ?thesis using m ds False by (simp add: drop_subscriber_def)
    next
      case s: False
      then have "AList.delete sid (subscribers m) \<noteq> []" using only False by auto
      then show ?thesis using m ds False s by (simp add: drop_subscriber_def Let_def)
    qed
  qed
qed

lemma close_file_total:
  assumes inv: "sm_inv n s" and e: "find_session sid (sdb s) = Some e" and r: "in_range (entry_v e) fh"
  shows "\<exists>ret e' s'. close_file_delete_ephermeral sid e fh s = Inr (ret, e', s') \<and>
    (ret \<noteq> None \<longleftrightarrow> removes_ephemeral s sid e fh)"
proof -
  have eok: "entry_ok n sid e" using sm_inv_entry [OF inv e] .
  obtain inum where inum: "handle_inum fh e = Inr inum" using handle_inum_in_range [OF eok r] by blast
  obtain p m c where p: "fh_to_key fh e = Inr p" and m: "ds s p = Some (m, c)" using key_file [OF inv e r] .
  show ?thesis
  proof (cases "inum = -1")
    case True
    then show ?thesis using inum handle_inum_open [OF inum]
      by (simp add: close_file_delete_ephermeral_def removes_ephemeral_def)
  next
    case False
    then have op: "handle_open e fh" using handle_inum_open [OF inum] by simp
    then obtain e' where e': "close_handle fh e = Inr e'"
      by (auto simp: close_handle_def handle_open_def result_simps)
    note fr = close_handle_frame [OF e']
    have id: "entry_id e' = sid" using fr eok by (simp add: entry_ok_def)
    have key: "fh_to_key fh e' = Inr p" using p fr by (simp add: fh_to_key_def)
    obtain ret s1 where d: "drop_subscriber sid p (set_session sid e' s) = Inr (ret, s1)"
      and iff: "ret \<noteq> None \<longleftrightarrow> map fst (subscribers m) = [sid] \<and> is_ephemeral m = Some True \<and>
         (\<exists>pm pc. ds s (parent_path p) = Some (pm, pc) \<and> remove_child pc (filename p) \<noteq> None)"
      using drop_subscriber_total [OF inv m, of "set_session sid e' s" sid] by fastforce
    have "removes_ephemeral s sid e fh \<longleftrightarrow> ret \<noteq> None"
      unfolding iff removes_ephemeral_def using op p m by (simp add: conj_assoc)
    moreover have "close_file_delete_ephermeral sid e fh s = Inr (ret, e', s1)"
      using inum False e' key id d by (simp add: close_file_delete_ephermeral_def)
    ultimately show ?thesis by blast
  qed
qed

lemma release_lock_total:
  assumes inv: "sm_inv n s" and e: "find_session sid (sdb s) = Some e" and r: "in_range (entry_v e) fh"
  shows "\<exists>rc s'. release_lock sid fh s = Inr (rc, s') \<and> rc \<in> {-2, -1, 0}"
proof -
  obtain p m c where "fh_to_key fh e = Inr p" "ds s p = Some (m, c)" using key_file [OF inv e r] .
  then show ?thesis using e by (auto simp: release_lock_def meta_release_def)
qed

lemma end_session_loop_total:
  assumes "sm_inv n s" and "find_session sid (sdb s) = Some session"
    and "\<forall>i \<in> set is. in_range (entry_v session) (of_nat i)"
  shows "\<exists>ps' sz' s'. end_session_loop sid is session ps sz s = Inr (ps', sz', s')"
  using assms
proof (induction "is" arbitrary: session ps sz s)
  case (Cons i "is")
  obtain ret session1 s1 where cl: "close_file_delete_ephermeral sid session (of_nat i) s = Inr (ret, session1, s1)"
    using close_file_total [OF Cons.prems(1,2), of "of_nat i"] Cons.prems(3) by auto
  from close_file_inv [OF Cons.prems(1,2) cl]
  have c: "sm_inv n s1" "find_session sid (sdb s1) = Some session1" "entry_v session1 = entry_v session"
    by (auto simp: find_put_session closed_upto_def)
  obtain rc s2 where rl: "release_lock sid (of_nat i) s1 = Inr (rc, s2)"
    using release_lock_total [OF c(1,2), of "of_nat i"] Cons.prems(3) c(3) by auto
  from release_lock_inv [OF c(1) rl] have r: "sm_inv n s2" "sdb s2 = sdb s1" by auto
  show ?case
    using Cons.IH [OF r(1), unfolded r(2), OF c(2)] Cons.prems(3) c(3) cl rl by (simp add: Let_def)
qed simp

section \<open>Each action\<close>

lemma open_crash:
  assumes e: "find_session (int_of_int64 x) (sdb s) = Some session"
  shows "(\<exists>c. apply_open x p d ep s = Inl c) \<longleftrightarrow> \<not> parent_is_directory s p d"
proof -
  obtain s1 m c where s1: "open_file p d ep s = Inr s1" "ds s1 p = Some (m, c)"
    and dir: "is_directory m = (case ds s p of
           Some (m, _) \<Rightarrow> if file_exists m then is_directory m else bool_of_int d | None \<Rightarrow> bool_of_int d)"
    and oth: "\<And>q. q \<noteq> p \<Longrightarrow> ds s1 q = ds s q"
    by (cases "ds s p") (auto simp: open_file_def Let_def new_file_meta_def)
  have par: "(\<exists>pm pc. ds s1 (parent_path p) = Some (pm, pc) \<and> is_directory pm) \<longleftrightarrow> parent_is_directory s p d"
    using s1(2) dir oth by (cases "parent_path p = p") (auto simp: parent_is_directory_def)
  show ?thesis
  proof (cases "parent_is_directory s p d")
    case True
    then obtain s2 where "open_parent p s1 = Inr s2" "\<exists>m2 c2. ds s2 p = Some (m2, c2)"
      using par s1(2) by (cases "parent_path p = p") (auto simp: open_parent_def Let_def)
    then have "\<exists>r s'. apply_open x p d ep s = Inr (r, s')"
      using e s1(1) by (auto simp: apply_open_def open_handle_def Let_def split_def)
    then show ?thesis using True by auto
  next
    case False
    then have "\<exists>c. open_parent p s1 = Inl c"
      using par by (cases "ds s1 (parent_path p)") (auto simp: open_parent_def Let_def assertE_def)
    then show ?thesis using e s1(1) False by (auto simp: apply_open_def)
  qed
qed

lemma close_crash:
  assumes inv: "sm_inv n s" and e: "find_session (int_of_int64 x) (sdb s) = Some e"
  shows "(\<exists>c. apply_close x fh s = Inl c) \<longleftrightarrow>
    \<not> in_range (entry_v e) fh \<or> \<not> removes_ephemeral s (int_of_int64 x) e fh"
proof (cases "in_range (entry_v e) fh")
  case True
  obtain ret e' s1 where cl: "close_file_delete_ephermeral (int_of_int64 x) e fh s = Inr (ret, e', s1)"
    and ret: "ret \<noteq> None \<longleftrightarrow> removes_ephemeral s (int_of_int64 x) e fh"
    using close_file_total [OF inv e True] by blast
  from close_file_inv [OF inv e cl]
  have c: "sm_inv n s1" "find_session (int_of_int64 x) (sdb s1) = Some e'" "entry_v e' = entry_v e"
    by (auto simp: find_put_session closed_upto_def)
  obtain rc s2 where "release_lock (int_of_int64 x) fh s1 = Inr (rc, s2)"
    using release_lock_total [OF c(1,2), of fh] True c(3) by auto
  then show ?thesis using e cl ret True by (cases ret) (auto simp: apply_close_def Let_def)
next
  case False
  then have "handle_inum fh e = Inl Out_of_range"
    using sm_inv_entry [OF inv e] by (simp add: handle_inum_def result_simps entry_ok_def in_range_def)
  then show ?thesis using e False by (simp add: apply_close_def close_file_delete_ephermeral_def)
qed

lemma end_session_total:
  assumes inv: "sm_inv n s" and n: "n < 2 ^ 31"
  shows "\<exists>r s'. apply_end_session x s = Inr (r, s')"
proof (cases "find_session (int_of_int64 x) (sdb s)")
  case None
  then show ?thesis by (simp add: apply_end_session_def)
next
  case (Some e)
  let ?sid = "int_of_int64 x"
  have eok: "entry_ok n ?sid e" using sm_inv_entry [OF inv Some] .
  then have len: "length (entry_v e) < 2 ^ 31" using n by (simp add: entry_ok_def)
  then have cnt: "nat (sint (handle_count e)) = length (entry_v e)"
    by (simp add: handle_count_def sint_of_nat32)
  obtain ps sz s1 where lp: "end_session_loop ?sid [0..<length (entry_v e)] e [] 18 s = Inr (ps, sz, s1)"
    using end_session_loop_total [OF inv Some, of "[0..<length (entry_v e)]" "[]" 18] in_range_of_nat [of _ "entry_v e"] len
    by auto
  have "find_session ?sid (sdb s1) \<noteq> None" using end_session_loop_inv [OF inv Some lp] by auto
  then obtain d where "delete_session ?sid (sdb s1) = Inr d" using db.del_never_fails by blast
  then show ?thesis using Some lp cnt by (simp add: apply_end_session_def Let_def)
qed

lemma delete_crash:
  assumes inv: "sm_inv n s" and e: "find_session (int_of_int64 x) (sdb s) = Some e"
  shows "(\<exists>c. apply_delete x fh s = Inl c) \<longleftrightarrow> \<not> in_range (entry_v e) fh \<or>
    (\<exists>p m c. fh_to_key fh e = Inr p \<and> ds s p = Some (m, c) \<and> is_directory m \<and> c \<noteq> [])"
proof (cases "in_range (entry_v e) fh")
  case True
  obtain p m c where p: "fh_to_key fh e = Inr p" "ds s p = Some (m, c)" using key_file [OF inv e True] .
  obtain pm pc where "ds s (parent_path p) = Some (pm, pc)" using sm_inv_parent [OF inv p(2)] by auto
  then show ?thesis using e p True
    by (cases "is_directory m \<and> c \<noteq> []"; cases "parent_path p = p") (auto simp: apply_delete_def Let_def)
qed (use e in \<open>simp add: apply_delete_def fh_to_key_out\<close>)

lemma acq_crash:
  assumes inv: "sm_inv n s" and e: "find_session (int_of_int64 x) (sdb s) = Some e"
  shows "(\<exists>c. apply_acq x fh ex s = Inl c) \<longleftrightarrow> \<not> in_range (entry_v e) fh"
proof (cases "in_range (entry_v e) fh")
  case True
  obtain p m c where p: "fh_to_key fh e = Inr p" "ds s p = Some (m, c)" using key_file [OF inv e True] .
  have "lock_wf m" using sm_inv_meta [OF inv p(2)] by (simp add: meta_ok_def)
  then obtain b m' where "meta_acquire (bool_of_int ex) (entry_id e) m = Inr (b, m')"
    using meta_lock.acq_total by blast
  then show ?thesis using e p True by (cases b) (auto simp: apply_acq_def)
qed (use e in \<open>simp add: apply_acq_def fh_to_key_out\<close>)

lemma set_content_crash:
  assumes inv: "sm_inv n s" and e: "find_session (int_of_int64 x) (sdb s) = Some e"
  shows "(\<exists>k. apply_set_content x fh a s = Inl k) \<longleftrightarrow> \<not> in_range (entry_v e) fh"
proof (cases "in_range (entry_v e) fh")
  case True
  obtain p m c where p: "fh_to_key fh e = Inr p" "ds s p = Some (m, c)" using key_file [OF inv e True] .
  obtain k where "handle_inum fh e = Inr k" using handle_inum_in_range [OF sm_inv_entry [OF inv e] True] by blast
  then show ?thesis using e p True by (simp add: apply_set_content_def)
qed (use e in \<open>simp add: apply_set_content_def fh_to_key_out\<close>)

lemma rel_crash:
  assumes inv: "sm_inv n s" and e: "find_session (int_of_int64 x) (sdb s) = Some e"
  shows "(\<exists>k. apply_rel x fh s = Inl k) \<longleftrightarrow> \<not> in_range (entry_v e) fh"
proof (cases "in_range (entry_v e) fh")
  case True
  then show ?thesis using release_lock_total [OF inv e True] by (auto simp: apply_rel_def)
qed (use e in \<open>simp add: apply_rel_def release_lock_def fh_to_key_out\<close>)

lemma no_session:
  assumes "session_of s x = None"
  shows "apply_open x p d ep s = Inr (OpenReturn (-1) session_not_found_str (-1), s)"
    "apply_close x fh s = Inr (CloseReturn (-1) session_not_found_str 0 [], s)"
    "apply_acq x fh ex s = Inr (Response (-1) session_not_found_str, s)"
    "apply_rel x fh s = Inr (Response (-1) ''the session does not hold this lock'', s)"
    "apply_set_content x fh c s = Inr (Response (-1) session_not_found_str, s)"
    "apply_delete x fh s = Inr (Response (-1) session_not_found_str, s)"
  using assms by (simp_all add: session_of_def apply_open_def apply_close_def apply_acq_def apply_rel_def
      release_lock_def apply_set_content_def apply_delete_def int_of_bool_def)

lemma apply_action_crash:
  assumes inv: "sm_inv n s" and n: "n < 2 ^ 31 - 1"
  shows "(\<exists>c. apply_action a s = Inl c) \<longleftrightarrow> crashes a s"
proof (cases a)
  case StartSessionAction
  then show ?thesis by (simp add: apply_start_session_def split: prod.split)
next
  case (EndSessionAction x)
  then show ?thesis using end_session_total [OF inv, of x] n by auto
next
  case (OpenAction x p d e)
  then show ?thesis using open_crash [of x s _ p d e] no_session
    by (cases "session_of s x") (auto simp: session_of_def)
next
  case (CloseAction x fh)
  then show ?thesis using close_crash [OF inv] no_session
    by (cases "session_of s x") (auto simp: session_of_def)
next
  case (AcqAction x fh ex)
  then show ?thesis using acq_crash [OF inv] no_session
    by (cases "session_of s x") (auto simp: session_of_def)
next
  case (RelAction x fh)
  then show ?thesis using rel_crash [OF inv] no_session
    by (cases "session_of s x") (auto simp: session_of_def)
next
  case (SetContentAction x fh c)
  then show ?thesis using set_content_crash [OF inv] no_session
    by (cases "session_of s x") (auto simp: session_of_def)
next
  case (DeleteAction x fh)
  then show ?thesis using delete_crash [OF inv] no_session
    by (cases "session_of s x") (auto simp: session_of_def)
qed

end
