(* ===== verification/SM_Effects.thy ===== *)
theory SM_Effects
  imports SM_Crash
begin

text \<open>
  What each action does when it succeeds, in well-formed states: opening (handle,
  subscription, the parent's listing), writing, taking and releasing the lock as the
  abstract reader/writer lock does, deleting (instance number, lock, events, listing), and
  the numbering of sessions along a log.
\<close>

lemma reaches_inv: "reaches as s \<Longrightarrow> length as < 2 ^ 31 \<Longrightarrow> sm_inv (length as) s"
  using run_log_inv [OF init_state_inv, of as] by (auto simp: reaches_def)

definition exists_file :: "sm_state \<Rightarrow> string \<Rightarrow> bool" where
  "exists_file s p = (case ds s p of Some (m, _) \<Rightarrow> file_exists m | None \<Rightarrow> False)"

definition content_of :: "sm_state \<Rightarrow> string \<Rightarrow> string option" where
  "content_of s p = map_option snd (ds s p)"

lemma content_of_set_file [simp]:
  "content_of (set_file q (m, c) s) p = (if p = q then Some c else content_of s p)"
  by (simp add: content_of_def)

lemma lock_state_set_file [simp]:
  "lock_state (set_file q (m, c) s) = (lock_state s)(q \<mapsto> abs_lock m)"
  by (rule ext) (simp add: lock_state_def)

section \<open>Locks\<close>

lemma acq_effect:
  assumes inv: "sm_inv n s" and re: "resolves s x fh p" and l: "lock_state s p = Some l"
    and g: "rw_acquire (bool_of_int ex) (int_of_int64 x) l = (granted, l')"
  shows "\<exists>r s'. apply_acq x fh ex s = Inr (r, s') \<and> ret_res r = (if granted then 0 else 1) \<and>
    lock_state s' = (lock_state s)(p \<mapsto> l') \<and> sdb s' = sdb s \<and> content_of s' = content_of s \<and>
    (\<forall>q. exists_file s' q = exists_file s q)"
proof -
  obtain e where e: "find_session (int_of_int64 x) (sdb s) = Some e" "fh_to_key fh e = Inr p"
    using re by (auto simp: resolves_def)
  obtain m c where m: "ds s p = Some (m, c)" "abs_lock m = l" using l by (auto simp: lock_state_def)
  have wf: "lock_wf m" using sm_inv_meta [OF inv m(1)] by (simp add: meta_ok_def)
  have id: "entry_id e = int_of_int64 x" using sm_inv_entry [OF inv e(1)] by (simp add: entry_ok_def)
  obtain b m' where acq: "meta_acquire (bool_of_int ex) (int_of_int64 x) m = Inr (b, m')"
    using meta_lock.acq_total [OF wf] by blast
  then have b: "b = granted" "abs_lock m' = l'" using meta_lock.acq_abs [OF wf acq] g m(2) by auto
  have fe: "file_exists m' = file_exists m"
    using acq by (auto simp: meta_acquire_def result_simps Let_def split: if_splits)
  have "l' = l" if "\<not> granted" using g that by (cases "(bool_of_int ex, int_of_int64 x, l)" rule: rw_acquire.cases) auto
  then show ?thesis
    using e m id acq b fe l
    by (cases granted) (auto simp: apply_acq_def fun_eq_iff content_of_def exists_file_def)
qed

lemma rel_effect:
  assumes inv: "sm_inv n s" and re: "resolves s x fh p" and l: "lock_state s p = Some l"
    and ef: "exists_file s p" and g: "rw_release (int_of_int64 x) l = (held, l')"
  shows "\<exists>r s'. apply_rel x fh s = Inr (r, s') \<and> ret_res r = (if held then 0 else -1) \<and>
    lock_state s' = (lock_state s)(p \<mapsto> l') \<and> sdb s' = sdb s \<and> content_of s' = content_of s \<and>
    (\<forall>q. exists_file s' q = exists_file s q)"
proof -
  obtain e where e: "find_session (int_of_int64 x) (sdb s) = Some e" "fh_to_key fh e = Inr p"
    using re by (auto simp: resolves_def)
  obtain m c where m: "ds s p = Some (m, c)" "abs_lock m = l" using l by (auto simp: lock_state_def)
  have wf: "lock_wf m" using sm_inv_meta [OF inv m(1)] by (simp add: meta_ok_def)
  obtain b m' where rel: "meta_release (int_of_int64 x) m = (b, m')" by (cases "meta_release (int_of_int64 x) m")
  then have b: "b = held" "abs_lock m' = l'" using meta_lock.rel_abs [OF wf rel] g m(2) by auto
  have "file_exists m' = file_exists m" using rel by (auto simp: meta_release_def)
  then show ?thesis
    using e m rel b ef
    by (auto simp: apply_rel_def release_lock_def fun_eq_iff content_of_def exists_file_def)
qed

lemma rel_missing:
  assumes "resolves s x fh p" and "ds s p \<noteq> None" and "\<not> exists_file s p"
  shows "apply_rel x fh s = Inr (Response (-2) ''file not found'', s)"
  using assms by (auto simp: resolves_def apply_rel_def release_lock_def exists_file_def)

section \<open>Opening and writing\<close>

lemma open_file_effect:
  assumes "open_file p d e s = Inr s1"
  shows "sdb s1 = sdb s \<and> (\<forall>q. q \<noteq> p \<longrightarrow> ds s1 q = ds s q) \<and>
    (\<exists>m. ds s1 p = Some (m, case content_of s p of Some c \<Rightarrow> c | None \<Rightarrow> []) \<and>
       file_exists m = exists_file s p \<and> is_ephemeral m = Some (bool_of_int e) \<and>
       is_directory m = (if exists_file s p then is_directory (fst (the (ds s p))) else bool_of_int d))"
  using assms
  by (cases "ds s p") (auto simp: open_file_def Let_def exists_file_def content_of_def new_file_meta_def
      split: if_splits)

lemma open_parent_effect:
  assumes "open_parent p s = Inr s1" and m: "ds s p = Some (m, c)" and np: "parent_path p \<noteq> p"
  obtains pm pc where "ds s (parent_path p) = Some (pm, pc)" and "is_directory pm"
    and "s1 = (if \<not> is_root_path p \<and> \<not> file_exists m
          then set_file (parent_path p) (pm, add_child pc (filename p)) s else s)"
  using assms that by (auto simp: open_parent_def Let_def result_simps)

lemma open_effect:
  assumes inv: "sm_inv n s" and n: "n < 2 ^ 31 - 1" and ap: "apply_open x p d e s = Inr (r, s')"
    and se: "session_of s x \<noteq> None" and np: "parent_path p \<noteq> p"
  obtains fh pm pc where "r = OpenReturn 0 ''OK'' fh" and "resolves s' x fh p"
    and "exists_file s' p" and "content_of s' p = Some (case content_of s p of Some c \<Rightarrow> c | None \<Rightarrow> [])"
    and "ds s (parent_path p) = Some (pm, pc)" and "is_directory pm"
    and "ds s' (parent_path p) = Some (pm, if is_root_path p \<or> exists_file s p then pc
           else add_child pc (filename p))"
    and "\<forall>q. q \<noteq> p \<and> q \<noteq> parent_path p \<longrightarrow> ds s' q = ds s q"
    and "\<exists>m c. ds s' p = Some (m, c) \<and> subscribed m (int_of_int64 x) = Some fh \<and>
       (\<forall>e'. session_of s' x = Some e' \<longrightarrow> handle_inum fh e' = Inr (instance_num m))"
    and "\<forall>j. j \<noteq> int_of_int64 x \<longrightarrow> find_session j (sdb s') = find_session j (sdb s)"
proof -
  obtain session where session: "find_session (int_of_int64 x) (sdb s) = Some session"
    using se by (auto simp: session_of_def)
  then obtain s1 s2 where s1: "open_file p d e s = Inr s1" and s2: "open_parent p s1 = Inr s2"
    and s3: "open_handle (int_of_int64 x) session p s2 = Inr (r, s')"
    using ap by (auto simp: apply_open_def Let_def result_simps)
  from open_file_effect [OF s1] obtain m where sdb1: "sdb s1 = sdb s" and fr1: "\<forall>q. q \<noteq> p \<longrightarrow> ds s1 q = ds s q"
    and m: "ds s1 p = Some (m, case content_of s p of Some c \<Rightarrow> c | None \<Rightarrow> [])" "file_exists m = exists_file s p"
    by blast
  from open_parent_effect [OF s2 m(1) np] obtain pm pc where pm: "ds s1 (parent_path p) = Some (pm, pc)" "is_directory pm"
    and s2': "s2 = (if \<not> is_root_path p \<and> \<not> file_exists m
          then set_file (parent_path p) (pm, add_child pc (filename p)) s1 else s1)" .
  have m2: "ds s2 p = Some (m, case content_of s p of Some c \<Rightarrow> c | None \<Rightarrow> [])" using m(1) np s2' by auto
  obtain fh session' where add: "add_new_handle p (instance_num m) session = (fh, session')"
    by (cases "add_new_handle p (instance_num m) session")
  define m' where "m' = m\<lparr>file_exists := True, subscribers := AList.update (entry_id session) fh (subscribers m)\<rparr>"
  have r: "r = OpenReturn 0 ''OK'' fh"
    and s': "s' = set_session (int_of_int64 x) session'
       (set_file p (m', case content_of s p of Some c \<Rightarrow> c | None \<Rightarrow> []) s2)"
    using s3 m2 add by (auto simp: open_handle_def Let_def m'_def)
  have eok: "entry_ok n (int_of_int64 x) session" using sm_inv_entry [OF inv session] .
  have len: "length (entry_v session) < 2 ^ 31 - 1" "length (entry_inum session) = length (entry_v session)"
    and id: "entry_id session = int_of_int64 x" using eok n by (auto simp: entry_ok_def)
  note look = add_new_handle_lookup [OF add len]
  have e': "session_of s' x = Some session'" by (simp add: session_of_def s' find_put_session)
  show thesis
  proof (rule that [OF r])
    show "resolves s' x fh p" using look(1) e' by (auto simp: resolves_def session_of_def)
    show "exists_file s' p" by (simp add: exists_file_def s' m'_def)
    show "content_of s' p = Some (case content_of s p of Some c \<Rightarrow> c | None \<Rightarrow> [])"
      by (simp add: content_of_def s')
    show "ds s (parent_path p) = Some (pm, pc)" "is_directory pm" using pm fr1 np by auto
    show "ds s' (parent_path p) = Some (pm, if is_root_path p \<or> exists_file s p then pc
           else add_child pc (filename p))" using pm np m(2) by (auto simp: s' s2')
    show "\<forall>q. q \<noteq> p \<and> q \<noteq> parent_path p \<longrightarrow> ds s' q = ds s q" using fr1 by (simp add: s' s2')
    show "\<exists>m c. ds s' p = Some (m, c) \<and> subscribed m (int_of_int64 x) = Some fh \<and>
       (\<forall>e'. session_of s' x = Some e' \<longrightarrow> handle_inum fh e' = Inr (instance_num m))"
      using look(2) e' id by (auto simp: s' m'_def subscribed_def update_conv')
    show "\<forall>j. j \<noteq> int_of_int64 x \<longrightarrow> find_session j (sdb s') = find_session j (sdb s)"
      using sdb1 by (simp add: s' s2' find_put_session)
  qed
qed

lemma set_content_effect:
  assumes "session_of s x = Some e" and "fh_to_key fh e = Inr p" and "ds s p = Some (m, c0)"
    and "handle_inum fh e = Inr k"
  shows "apply_set_content x fh c s =
    Inr (if k \<noteq> instance_num m then (Response (-1) ''Instance num mismatch'', s)
         else if \<not> file_exists m then (Response (-1) ''File does not exist'', s)
         else (Response 0 ''OK'', set_file p (m, c) s))"
  using assms by (simp add: apply_set_content_def session_of_def)

section \<open>Deleting\<close>

lemma delete_effect:
  assumes ap: "apply_delete x fh s = Inr (r, s')" and re: "resolves s x fh p"
    and m: "ds s p = Some (m, c)" and np: "parent_path p \<noteq> p"
  obtains pm pc where "r = Response 0 []" and "ds s' p = Some (meta_delete m, [])"
    and "ds s (parent_path p) = Some (pm, pc)"
    and "ds s' (parent_path p) = Some (pm, case remove_child pc (filename p) of Some pc' \<Rightarrow> pc' | None \<Rightarrow> pc)"
    and "\<forall>q. q \<noteq> p \<and> q \<noteq> parent_path p \<longrightarrow> ds s' q = ds s q"
    and "\<forall>j. find_session j (sdb s') =
      (if j \<in> lock_owners m then map_option (\<lambda>e. snd (entry_enqueue_event fh e)) (find_session j (sdb s))
       else find_session j (sdb s))"
proof -
  obtain e where e: "find_session (int_of_int64 x) (sdb s) = Some e" "fh_to_key fh e = Inr p"
    using re by (auto simp: resolves_def)
  define s1 where "s1 = set_file p (meta_delete m, []) (s\<lparr>sdb := enqueue_owners (lock_owners m) fh (sdb s)\<rparr>)"
  have ds1: "ds s1 = (ds s)(p \<mapsto> (meta_delete m, []))" and sdb1: "sdb s1 = enqueue_owners (lock_owners m) fh (sdb s)"
    by (simp_all add: s1_def)
  obtain pm pc where pm: "ds s1 (parent_path p) = Some (pm, pc)" and r: "r = Response 0 []"
    and s': "s' = (case remove_child pc (filename p) of
               Some pc' \<Rightarrow> set_file (parent_path p) (pm, pc') s1 | None \<Rightarrow> s1)"
    using ap e m unfolding apply_delete_def Let_def s1_def
    by (auto simp: result_simps simp del: set_file_simps)
  show thesis
  proof (rule that [OF r])
    show "ds s' p = Some (meta_delete m, [])" using s' np ds1 by (auto split: option.split)
    show "ds s (parent_path p) = Some (pm, pc)" using pm np ds1 by simp
    show "ds s' (parent_path p) = Some (pm, case remove_child pc (filename p) of Some pc' \<Rightarrow> pc' | None \<Rightarrow> pc)"
      using s' pm by (auto split: option.split)
    show "\<forall>q. q \<noteq> p \<and> q \<noteq> parent_path p \<longrightarrow> ds s' q = ds s q" using s' ds1 by (auto split: option.split)
    have "sdb s' = sdb s1" using s' by (auto split: option.split)
    then show "\<forall>j. find_session j (sdb s') =
      (if j \<in> lock_owners m then map_option (\<lambda>e. snd (entry_enqueue_event fh e)) (find_session j (sdb s))
       else find_session j (sdb s))"
      using sdb1 by (simp add: find_enqueue_owners)
  qed
qed

lemma delete_makes_stale:
  assumes inv: "sm_inv n s" and n: "n < 2 ^ 31 - 1" and dl: "apply_delete x fh s = Inr (r, s')"
    and re: "resolves s x fh p" and np: "parent_path p \<noteq> p" and m: "ds s p = Some (m, c)"
    and e: "find_session sid (sdb s) = Some e" and i: "i < length (entry_v e)" "entry_v e ! i = p"
    and cur: "entry_inum e ! i = instance_num m"
  shows "stale s' sid i p"
proof -
  have m': "ds s' p = Some (meta_delete m, [])" by (rule delete_effect [OF dl re m np])
  have se: "find_session sid (sdb s') = (if sid \<in> lock_owners m
      then map_option (\<lambda>e. snd (entry_enqueue_event fh e)) (find_session sid (sdb s)) else find_session sid (sdb s))"
    by (rule delete_effect [OF dl re m np]) blast
  obtain k e1 where "entry_enqueue_event fh e = (k, e1)" by (cases "entry_enqueue_event fh e")
  then obtain e' where e': "find_session sid (sdb s') = Some e'" "entry_v e' = entry_v e" "entry_inum e' = entry_inum e"
    using se e enqueue_event_frame by (cases "sid \<in> lock_owners m") auto
  have "sint (instance_num m) < sint (instance_num (meta_delete m))"
    using sm_inv_meta [OF inv m] n sint_inc [of "instance_num m"] by (simp add: meta_ok_def meta_delete_def)
  then show ?thesis unfolding stale_def using e' m' i cur by auto
qed

section \<open>Session numbers\<close>

fun started :: "sm_ret list \<Rightarrow> i64 list" where
  "started [] = []"
| "started (StartSessionReturn _ _ sid # rs) = sid # started rs"
| "started (_ # rs) = started rs"

lemma started_append: "started (rs @ rs') = started rs @ started rs'"
  by (induction rs rule: started.induct) simp_all

lemma close_file_next_id:
  "close_file_delete_ephermeral j e fh s = Inr (ret, e', s') \<Longrightarrow> next_id (sdb s') = next_id (sdb s)"
  using drop_subscriber_sdb by (fastforce simp: close_file_delete_ephermeral_def result_simps split: if_splits)

lemma release_lock_sdb: "release_lock j fh s = Inr (rc, s') \<Longrightarrow> sdb s' = sdb s"
  by (auto simp: release_lock_def meta_release_def result_simps split: option.splits if_splits)

lemma end_session_loop_next_id:
  "end_session_loop j is e ps sz s = Inr (ps', sz', s') \<Longrightarrow> next_id (sdb s') = next_id (sdb s)"
proof (induction "is" arbitrary: e ps sz s)
  case (Cons i "is")
  obtain ret e1 s1 rc s2 ps1 sz1 where
      cl: "close_file_delete_ephermeral j e (of_nat i) s = Inr (ret, e1, s1)"
    and rl: "release_lock j (of_nat i) s1 = Inr (rc, s2)"
    and lp: "end_session_loop j is e1 ps1 sz1 s2 = Inr (ps', sz', s')"
    using Cons.prems(1) by (auto simp: result_simps Let_def)
  show ?case using Cons.IH [OF lp] release_lock_sdb [OF rl] close_file_next_id [OF cl] by simp
qed simp

lemma apply_action_next_id:
  assumes ap: "apply_action a s = Inr (r, s')"
  shows "started [r] = (if a = StartSessionAction then [int64_of_int (next_id (sdb s))] else []) \<and>
    next_id (sdb s') = next_id (sdb s) + of_nat (length (started [r]))"
proof (cases a)
  case (OpenAction x p d e)
  show ?thesis
  proof (cases "find_session (int_of_int64 x) (sdb s)")
    case (Some session)
    then obtain s1 s2 where s1: "open_file p d e s = Inr s1" and s2: "open_parent p s1 = Inr s2"
      and s3: "open_handle (int_of_int64 x) session p s2 = Inr (r, s')"
      using ap OpenAction by (auto simp: apply_open_def Let_def result_simps)
    have "sdb s2 = sdb s1" using s2 by (auto simp: open_parent_def Let_def result_simps)
    moreover have "(\<exists>k. r = OpenReturn 0 ''OK'' k) \<and> next_id (sdb s') = next_id (sdb s2)"
      using s3 by (auto simp: open_handle_def Let_def split_def result_simps)
    ultimately show ?thesis using OpenAction open_file_effect [OF s1] by auto
  qed (use ap OpenAction in \<open>auto simp: apply_open_def\<close>)
next
  case (CloseAction x fh)
  then show ?thesis
    using ap release_lock_sdb close_file_next_id
    by (fastforce simp: apply_close_def Let_def result_simps split: option.splits)
next
  case StartSessionAction
  then show ?thesis using ap
    by (auto simp: apply_start_session_def create_session_def new_entry_def Let_def)
next
  case (EndSessionAction x)
  then show ?thesis
    using ap end_session_loop_next_id
    by (fastforce simp: apply_end_session_def delete_session_def Let_def result_simps split: option.splits)
next
  case (AcqAction x fh ex)
  then show ?thesis using ap by (auto simp: apply_acq_def Let_def result_simps split: option.splits if_splits)
next
  case (RelAction x fh)
  then show ?thesis using ap release_lock_sdb
    by (auto simp: apply_rel_def Let_def result_simps split: option.splits if_splits)
next
  case (SetContentAction x fh c)
  then show ?thesis using ap
    by (auto simp: apply_set_content_def Let_def result_simps split: option.splits if_splits)
next
  case (DeleteAction x fh)
  then show ?thesis using ap
    by (auto simp: apply_delete_def enqueue_owners_def Let_def result_simps split: option.splits if_splits)
qed

lemma run_log_started:
  "run_log as s = Inr (rs, s') \<Longrightarrow>
   started rs = map (\<lambda>i. int64_of_int (next_id (sdb s) + of_nat i)) [0..<length (filter ((=) StartSessionAction) as)] \<and>
   next_id (sdb s') = next_id (sdb s) + of_nat (length (started rs))"
proof (induction as arbitrary: s rs)
  case (Cons a as)
  obtain r s1 rs1 where 1: "apply_action a s = Inr (r, s1)" "run_log as s1 = Inr (rs1, s')" and rs: "rs = [r] @ rs1"
    using Cons.prems by (auto simp: result_simps)
  note st = apply_action_next_id [OF 1(1)] and ih = Cons.IH [OF 1(2)]
  show ?case
  proof (cases "a = StartSessionAction")
    case True
    have "map f [0..<Suc k] = f 0 # map (\<lambda>i. f (Suc i)) [0..<k]" for f :: "nat \<Rightarrow> i64" and k
      by (simp add: map_upt_Suc del: upt_Suc)
    then show ?thesis using st ih True unfolding rs started_append
      by (simp add: add.assoc add.commute add.left_commute del: upt_Suc)
  next
    case False
    then show ?thesis using st ih unfolding rs started_append by auto
  qed
qed simp

end
