(* ===== verification/Commit.thy ===== *)
theory Commit
  imports SM_Effects
begin

text \<open>
  What \<open>commit\<close> does with a serialized entry: it decodes the action, applies it and
  serializes the reply. Every reply but that of \<open>EndSessionAction\<close> fits its buffer and
  reads back as a \<open>Response\<close>; the reply to \<open>EndSessionAction\<close> is written into a buffer
  sized with the number of parent paths where their lengths are needed, and the exact
  condition for the overflow follows. The buffer library is the parameter \<open>B\<close>.
\<close>

lemma commit_serialized:
  assumes "buffer_api B" and "action_fits a" and "serialize_action B a = Inr bs"
  shows "commit B idx bs s =
    bindE (apply_action a s) (\<lambda>(ret, s1). bindE (serialize_ret B ret) (\<lambda>buf.
      Inr (buf, s1\<lparr>last_committed_idx := idx\<rparr>)))"
  using buffer_api.action_roundtrip [OF assms] by (simp add: commit_def)

lemma ret_msg_short:
  assumes "apply_action a s = Inr (r, s')"
  shows "length (ret_msg r) < 2 ^ 32"
proof -
  have "length (ret_msg r) \<le> 100"
  proof (cases a)
    case (OpenAction x p d e)
    then show ?thesis using assms
      by (auto simp: apply_open_def open_handle_def Let_def split_def result_simps session_not_found_str_def
          split: option.splits)
  next
    case (DeleteAction x fh)
    then show ?thesis using assms
      by (auto simp: apply_delete_def Let_def result_simps session_not_found_str_def
          simp del: set_file_simps split: option.splits)
  qed (use assms in \<open>auto simp: apply_close_def apply_start_session_def apply_end_session_def apply_acq_def
      apply_rel_def apply_set_content_def Let_def split_def result_simps session_not_found_str_def
      split: option.splits if_splits\<close>)
  then show ?thesis by simp
qed

definition is_end_session :: "sm_ret \<Rightarrow> bool" where
  "is_end_session r = (case r of EndSessionReturn _ _ \<Rightarrow> True | _ \<Rightarrow> False)"

lemma commit_reply:
  assumes B: "buffer_api B" and ser: "action_fits a" "serialize_action B a = Inr bs"
    and ap: "apply_action a s = Inr (r, s')" and ne: "\<not> is_end_session r"
  shows "\<exists>buf. commit B idx bs s = Inr (buf, s'\<lparr>last_committed_idx := idx\<rparr>) \<and>
    serialize_ret B r = Inr buf \<and> read_response B buf = Inr (ret_res r, ret_msg r)"
proof -
  obtain buf where buf: "serialize_ret B r = Inr buf"
    using buffer_api.serialize_ret_struct_total [OF B, of r] ne by (auto simp: is_end_session_def)
  then show ?thesis
    using commit_serialized [OF B ser] ap buffer_api.read_response_any [OF B buf ret_msg_short [OF ap]] by simp
qed

section \<open>The reply to the end of a session\<close>

text \<open>The size computed for a reply with the given number of parent paths, and the size needed.\<close>

definition computed_size :: "nat \<Rightarrow> nat" where
  "computed_size k = 18 + (\<Sum>i = 1..k. i + 8)"

definition needed_size :: "string list \<Rightarrow> nat" where
  "needed_size parents = 14 + sum_list (map (\<lambda>p. 4 + length p) parents)"

lemma computed_size_Suc: "computed_size (Suc k) = computed_size k + (Suc k + 8)"
  by (simp add: computed_size_def)

lemma end_session_loop_size:
  "end_session_loop sid is e ps sz s = Inr (ps', sz', s') \<Longrightarrow> sz = computed_size (length ps) \<Longrightarrow>
   sz' = computed_size (length ps')"
proof (induction "is" arbitrary: e ps sz s)
  case (Cons i "is")
  obtain ret e1 s1 rc s2 where
      cl: "close_file_delete_ephermeral sid e (of_nat i) s = Inr (ret, e1, s1)"
    and rl: "release_lock sid (of_nat i) s1 = Inr (rc, s2)"
    using Cons.prems(1) by (auto simp: result_simps Let_def)
  have lp: "end_session_loop sid is e1 (case ret of Some p \<Rightarrow> ps @ [p] | None \<Rightarrow> ps)
      (case ret of Some p \<Rightarrow> sz + length (case ret of Some p \<Rightarrow> ps @ [p] | None \<Rightarrow> ps) + 8 | None \<Rightarrow> sz) s2
      = Inr (ps', sz', s')"
    using Cons.prems(1) cl rl by (simp add: Let_def)
  show ?case
    by (rule Cons.IH [OF lp]) (use Cons.prems(2) in \<open>cases ret; simp add: computed_size_Suc\<close>)
qed simp

lemma computed_size_0: "computed_size 0 = 18"
  by (simp add: computed_size_def)

lemma end_session_reply:
  assumes "apply_end_session x s = Inr (EndSessionReturn sz parents, s')"
  shows "sz = computed_size (length parents)"
proof -
  obtain session s1 where "end_session_loop (int_of_int64 x) [0..<nat (sint (handle_count session))] session [] 18 s
      = Inr (parents, sz, s1)"
    using assms by (auto simp: apply_end_session_def Let_def result_simps split: option.splits)
  then show ?thesis using end_session_loop_size computed_size_0 by fastforce
qed

context buffer_api
begin

lemma put_strs_length:
  "length (concat (map (put_str B) ps)) = sum_list (map (\<lambda>p. 4 + length p) ps)"
  by (induction ps) (simp_all add: put_lengths)

lemma end_session_overflow:
  "serialize_ret B (EndSessionReturn sz parents) = Inl e \<longleftrightarrow> e = Buffer_overflow \<and> sz < needed_size parents"
  by (auto simp: result_simps put_lengths put_strs_length needed_size_def)

lemma end_session_fits:
  "needed_size parents \<le> sz \<Longrightarrow> \<exists>buf. serialize_ret B (EndSessionReturn sz parents) = Inr buf"
  by (auto simp: result_simps put_lengths put_strs_length needed_size_def)

end

text \<open>The end of a session cannot be committed when its ephemeral files have long parent paths.\<close>

lemma end_session_commit_overflow:
  assumes B: "buffer_api B" and ser: "serialize_action B (EndSessionAction x) = Inr bs"
    and ap: "apply_end_session x s = Inr (EndSessionReturn sz parents, s')"
  shows "commit B idx bs s = Inl Buffer_overflow \<longleftrightarrow> computed_size (length parents) < needed_size parents"
proof -
  have fits: "action_fits (EndSessionAction x)" by (simp add: action_fits_def)
  have com: "commit B idx bs s = bindE (serialize_ret B (EndSessionReturn sz parents)) (\<lambda>buf.
      Inr (buf, s'\<lparr>last_committed_idx := idx\<rparr>))"
    using commit_serialized [OF B fits ser] ap by simp
  show ?thesis
    using buffer_api.end_session_overflow [OF B, of sz parents] buffer_api.end_session_fits [OF B, of parents sz]
      end_session_reply [OF ap] unfolding com by (auto simp: result_simps simp del: serialize_ret.simps)
qed

lemma one_long_parent: "computed_size 1 < needed_size [p] \<longleftrightarrow> 9 < length p"
  by (auto simp: computed_size_def needed_size_def)

end
