(* ===== verification/Raft.thy ===== *)
theory Raft
  imports Commit
begin

text \<open>
  What the handlers see of the replication library: \<open>append_entries\<close> of a buffer, with
  the result's acceptance, code and buffer, and whether this server leads and who does. The
  library is not part of the sources, so it is a parameter (\<open>raft_api\<close>); the locale
  \<open>raft_library\<close> states what is relied on: a call answers after its entry, and
  possibly others before and after it, have been committed to this server's state machine, and an answer that
  is accepted with code OK carries what \<open>commit\<close> returned for this entry; otherwise
  nothing is known of the entry except that the state moved by committed entries. The
  instance \<open>leader_raft\<close> is a leader without competing entries.

  The second part is the vocabulary of the handlers: RPC status values, and
  \<open>'r proc\<close>, a handler that either has returned or waits for a condition on the shared state
  before it continues.
\<close>

datatype raft_code = RAFT_OK | RAFT_NOT_LEADER | RAFT_FAILED

record cmd_result =
  get_accepted :: bool
  get_result_code :: raft_code
  result_buf :: "byte list"

record raft_api =
  append_entries :: "byte list \<Rightarrow> sm_state \<Rightarrow> (cmd_result \<times> sm_state) result"
  is_leader :: bool
  get_leader :: i32

definition committed :: "cmd_result \<Rightarrow> bool" where
  "committed r \<longleftrightarrow> get_accepted r \<and> get_result_code r = RAFT_OK"

definition same_store :: "sm_state \<Rightarrow> sm_state \<Rightarrow> bool" where
  "same_store s s' \<longleftrightarrow> ds s = ds s' \<and> sdb s = sdb s'"

locale raft_library =
  fixes R :: raft_api and B :: buf_api
  assumes append_committed: "append_entries R bs s = Inr (r, s') \<Longrightarrow> committed r \<Longrightarrow>
      \<exists>before after rs rs' s1 s2 s3 idx. run_log before s = Inr (rs, s1) \<and>
        commit B idx bs s1 = Inr (result_buf r, s2) \<and> run_log after s2 = Inr (rs', s3) \<and> same_store s' s3"
    and append_moved: "append_entries R bs s = Inr (r, s') \<Longrightarrow>
      \<exists>as rs s1. run_log as s = Inr (rs, s1) \<and> same_store s' s1"

definition leader_raft :: "buf_api \<Rightarrow> raft_api" where
  "leader_raft B = \<lparr>append_entries = (\<lambda>bs s. bindE (commit B 0 bs s) (\<lambda>(buf, s').
     Inr (\<lparr>get_accepted = True, get_result_code = RAFT_OK, result_buf = buf\<rparr>, s'))),
     is_leader = True, get_leader = 0\<rparr>"

section \<open>Status values\<close>

text \<open>
  \<open>grpc::Status\<close>: a code and a message. The codes the sources use are the library's OK,
  CANCELLED, DEADLINE_EXCEEDED, ABORTED and UNAVAILABLE and the two of \<open>skinny::ErrorCode\<close>.
\<close>

record status =
  error_code :: int
  error_message :: string

definition status_ok :: status where
  "status_ok = \<lparr>error_code = 0, error_message = []\<rparr>"

definition is_ok :: "status \<Rightarrow> bool" where
  "is_ok st \<longleftrightarrow> error_code st = 0"

definition CANCELLED :: int where "CANCELLED = 1"
definition DEADLINE_EXCEEDED :: int where "DEADLINE_EXCEEDED = 4"
definition ABORTED :: int where "ABORTED = 10"
definition UNAVAILABLE :: int where "UNAVAILABLE = 14"

datatype error_code = NOT_LEADER | LOCK_RELATED

fun code_of :: "error_code \<Rightarrow> int" where
  "code_of NOT_LEADER = 100"
| "code_of LOCK_RELATED = 101"

lemmas status_codes = CANCELLED_def DEADLINE_EXCEEDED_def ABORTED_def UNAVAILABLE_def

definition session_not_found_status :: status where
  "session_not_found_status = \<lparr>error_code = CANCELLED, error_message = session_not_found_str\<rparr>"

text \<open>\<open>std::to_string\<close> and \<open>std::stoi\<close> of an \<open>int\<close>, as decimal numerals.\<close>

fun digits :: "nat \<Rightarrow> string" where
  "digits n = (if n < 10 then [char_of (48 + n)] else digits (n div 10) @ [char_of (48 + n mod 10)])"

declare digits.simps [simp del]

definition to_string :: "i32 \<Rightarrow> string" where
  "to_string x = (if sint x < 0 then CHR ''-'' # digits (nat (- sint x)) else digits (nat (sint x)))"

definition is_digit :: "char \<Rightarrow> bool" where
  "is_digit c \<longleftrightarrow> of_char c \<in> {48 .. (57 :: nat)}"

definition number_of :: "string \<Rightarrow> nat" where
  "number_of cs = foldl (\<lambda>n c. 10 * n + (of_char c - 48)) 0 cs"

text \<open>
  \<open>stoi\<close> reads an optional minus sign and the longest row of digits; it throws when there is no
  digit or the value does not fit in 32 bits. (Leading white space and a plus sign, which it
  also accepts, do not occur in what \<open>to_string\<close> writes.)
\<close>

definition stoi :: "string \<Rightarrow> i32 option" where
  "stoi s =
     (let neg = (s \<noteq> [] \<and> hd s = CHR ''-'');
          cs = takeWhile is_digit (if neg then tl s else s);
          v = (if neg then - int (number_of cs) else int (number_of cs))
      in if cs = [] \<or> v < - (2 ^ 31) \<or> 2 ^ 31 \<le> v then None else Some (word_of_int v))"

lemma digit_char:
  "n < 10 \<Longrightarrow> is_digit (char_of (48 + n)) \<and> of_char (char_of (48 + n)) = (48 + n :: nat)"
  by (simp add: is_digit_def)

lemma digits_digits: "list_all is_digit (digits n) \<and> digits n \<noteq> []"
proof (induction n rule: digits.induct)
  case (1 n)
  then show ?case
    using digit_char [of n] digit_char [of "n mod 10"] by (simp add: digits.simps [of n])
qed

lemma number_of_digits: "number_of (digits n) = n"
proof (induction n rule: digits.induct)
  case (1 n)
  then show ?case
    using digit_char [of n] digit_char [of "n mod 10"]
    by (simp add: digits.simps [of n] number_of_def)
qed

lemma takeWhile_digits: "takeWhile is_digit (digits n) = digits n"
  using digits_digits [of n] by (simp add: takeWhile_eq_all_conv list_all_iff)

lemma stoi_to_string: "stoi (to_string x) = Some x"
proof -
  have r: "- (2 ^ 31) \<le> sint x" "sint x < 2 ^ 31" using sint_range_size [of x] by (simp_all add: word_size)
  have m: "\<not> is_digit CHR ''-''" by (simp add: is_digit_def)
  show ?thesis
  proof (cases "sint x < 0")
    case True
    then show ?thesis using r digits_digits by (simp add: to_string_def stoi_def takeWhile_digits number_of_digits)
  next
    case False
    have "hd (digits k) \<noteq> CHR ''-''" for k using digits_digits [of k] m by (cases "digits k") auto
    then show ?thesis using False r digits_digits
      by (simp add: to_string_def stoi_def takeWhile_digits number_of_digits)
  qed
qed

section \<open>Handlers that wait\<close>

datatype 'r proc =
    Return 'r
  | Await "sm_state \<Rightarrow> bool" "sm_state \<Rightarrow> ('r proc \<times> sm_state) result"

type_synonym 'r handler = "sm_state \<Rightarrow> ('r proc \<times> sm_state) result"

text \<open>
  Running a handler to its end: while it waits the environment changes the state, and it goes on in a
  state in which its condition holds. \<open>env\<close> is what the environment may do in one stretch.
\<close>

inductive finishes :: "(sm_state \<Rightarrow> sm_state \<Rightarrow> bool) \<Rightarrow> 'r proc \<Rightarrow> sm_state \<Rightarrow> 'r \<Rightarrow> sm_state \<Rightarrow> bool"
  for env where
  returned: "finishes env (Return r) s r s"
| resumed: "env s s1 \<Longrightarrow> c s1 \<Longrightarrow> f s1 = Inr (p, s2) \<Longrightarrow> finishes env p s2 r s3 \<Longrightarrow>
    finishes env (Await c f) s r s3"

inductive_cases finishes_ReturnE: "finishes env (Return r0) s r s'"
inductive_cases finishes_AwaitE: "finishes env (Await c f) s r s'"
inductive_simps finishes_Return: "finishes env (Return r0) s r s'"
inductive_simps finishes_Await: "finishes env (Await c f) s r s'"

section \<open>The leader without competing entries\<close>

text \<open>Serialized entries decode, so what such a leader commits is an action.\<close>

lemma commit_moves:
  assumes "commit B idx bs s = Inr (buf, s')"
  shows "\<exists>a r s1. run_log [a] s = Inr ([r], s1) \<and> same_store s' s1"
proof -
  obtain a r s1 where "apply_action a s = Inr (r, s1)" "s' = s1\<lparr>last_committed_idx := idx\<rparr>"
    using assms by (auto simp: commit_def result_simps)
  then show ?thesis by (intro exI [of _ a] exI [of _ r] exI [of _ s1]) (simp add: same_store_def)
qed

interpretation leader: raft_library "leader_raft B" B
proof
  fix bs s r s'
  assume ap: "append_entries (leader_raft B) bs s = Inr (r, s')"
  then have c: "commit B 0 bs s = Inr (result_buf r, s')"
    by (auto simp: leader_raft_def result_simps)
  show "\<exists>as rs s1. run_log as s = Inr (rs, s1) \<and> same_store s' s1" using commit_moves [OF c] by blast
  show "\<exists>before after rs rs' s1 s2 s3 idx. run_log before s = Inr (rs, s1) \<and>
        commit B idx bs s1 = Inr (result_buf r, s2) \<and> run_log after s2 = Inr (rs', s3) \<and> same_store s' s3"
    using c by (intro exI [of _ "[]"] exI [of _ s] exI [of _ s'] exI [of _ 0]) (simp add: same_store_def)
qed

end
