(* ===== verification/Skinny_Impl.thy ===== *)
theory Skinny_Impl
  imports Raft
begin

text \<open>
  The RPC handlers (\<open>SkinnyImpl.cpp\<close>). Each is a function from the shared state to a crash
  (an exception of \<open>at\<close> or of a buffer, a failed assertion) or to a \<open>proc\<close> that
  either has returned a status and a response, or waits: for the acknowledgement of the events it
  enqueued (\<open>notify_events\<close>, also the copy in \<open>server.cpp\<close>) or for a lock. Mutexes
  are not part of the state. A session that was removed from the database counts as one whose
  waiters are released: nothing can keep its thread alive any more, and the thread's timeout
  cancels it.
\<close>

definition parse_raft_result :: "raft_api \<Rightarrow> buf_api \<Rightarrow> cmd_result \<Rightarrow> status result" where
  "parse_raft_result R B r =
     (if get_accepted r \<and> get_result_code r = RAFT_OK then
        bindE (read_response B (result_buf r)) (\<lambda>(res, msg).
          if 0 \<le> sint res then Inr status_ok
          else Inr \<lparr>error_code = ABORTED, error_message = msg\<rparr>)
      else if get_result_code r = RAFT_NOT_LEADER then
        Inr \<lparr>error_code = code_of NOT_LEADER, error_message = to_string (get_leader R)\<rparr>
      else Inr \<lparr>error_code = ABORTED, error_message = []\<rparr>)"

section \<open>Notifying subscribers\<close>

text \<open>
  One pass over the subscribers: those whose session is gone or whose handle is closed are
  dropped, the others get an event if their session has a keep-alive thread. The result is the
  kept subscribers, the (session, event) pairs to wait for, and the sessions.
\<close>

fun notify_loop :: "(i32 \<times> i32) list \<Rightarrow> db \<Rightarrow> ((i32 \<times> i32) list \<times> (i32 \<times> i32) list \<times> db) result" where
  "notify_loop [] d = Inr ([], [], d)"
| "notify_loop ((sid, fh) # subs) d =
     (case find_session sid d of
        None \<Rightarrow> notify_loop subs d
      | Some e \<Rightarrow>
          bindE (handle_inum fh e) (\<lambda>inum.
          if inum \<noteq> -1 then
            (let (eid, e') = entry_enqueue_event fh e in
             bindE (notify_loop subs (put_session sid e' d)) (\<lambda>(kept, waits, d').
             Inr ((sid, fh) # kept, (case eid of Some k \<Rightarrow> (sid, k) # waits | None \<Rightarrow> waits), d')))
          else notify_loop subs d))"

definition all_acked :: "(i32 \<times> i32) list \<Rightarrow> sm_state \<Rightarrow> bool" where
  "all_acked waits s =
     list_all (\<lambda>(sid, eid). case find_session sid (sdb s) of
        None \<Rightarrow> True | Some e \<Rightarrow> entry_unblocked eid e) waits"

fun block_returns :: "(i32 \<times> i32) list \<Rightarrow> db \<Rightarrow> db" where
  "block_returns [] d = d"
| "block_returns ((sid, eid) # waits) d =
     block_returns waits
       (case find_session sid d of None \<Rightarrow> d | Some e \<Rightarrow> put_session sid (entry_block_return eid e) d)"

text \<open>\<open>notify_events\<close> of the file at \<open>key\<close>, followed by the rest \<open>k\<close> of the handler.\<close>

definition notify_events :: "string \<Rightarrow> 'r handler \<Rightarrow> 'r handler" where
  "notify_events key k s =
     bindE (map_at (ds s) key) (\<lambda>(meta, content).
     bindE (notify_loop (subscribers meta) (sdb s)) (\<lambda>(kept, waits, d).
     let s1 = set_file key (meta\<lparr>subscribers := kept\<rparr>, content) (s\<lparr>sdb := d\<rparr>) in
     if waits = [] then k s1
     else Inr (Await (all_acked waits) (\<lambda>s2. k (s2\<lparr>sdb := block_returns waits (sdb s2)\<rparr>)), s1)))"

section \<open>Handlers\<close>

definition reply :: "'r \<Rightarrow> 'r handler" where
  "reply r s = Inr (Return r, s)"

text \<open>
  The common opening of the handlers: serialize the action, append it, and go on with the result
  when its status is OK; \<open>none\<close> is the response message as it was on entry.
\<close>

definition append_action ::
    "raft_api \<Rightarrow> buf_api \<Rightarrow> action \<Rightarrow> 'a \<Rightarrow> (byte list \<Rightarrow> (status \<times> 'a) handler) \<Rightarrow> (status \<times> 'a) handler" where
  "append_action R B a none k s =
     bindE (serialize_action B a) (\<lambda>bs.
     bindE (append_entries R bs s) (\<lambda>(raft_ret, s1).
     bindE (parse_raft_result R B raft_ret) (\<lambda>st.
     if \<not> is_ok st then reply (st, none) s1
     else k (result_buf raft_ret) s1)))"

definition Open :: "raft_api \<Rightarrow> buf_api \<Rightarrow> i64 \<Rightarrow> string \<Rightarrow> bool \<Rightarrow> bool \<Rightarrow> (status \<times> i32) handler" where
  "Open R B session_id path a_is_directory a_is_ephemeral =
     append_action R B (OpenAction session_id path (int_of_bool a_is_directory) (int_of_bool a_is_ephemeral)) 0
       (\<lambda>buf s. bindE (read_open_return B buf) (\<lambda>(_, _, fh).
          notify_events (parent_path path) (reply (status_ok, fh)) s))"

definition Close :: "raft_api \<Rightarrow> buf_api \<Rightarrow> i64 \<Rightarrow> i32 \<Rightarrow> (status \<times> unit) handler" where
  "Close R B session_id fh =
     append_action R B (CloseAction session_id fh) ()
       (\<lambda>buf s. bindE (read_close_return B buf) (\<lambda>(_, _, need_notify, parent).
          if need_notify \<noteq> 0 then notify_events parent (reply (status_ok, ())) s
          else reply (status_ok, ()) s))"

definition GetContent :: "raft_api \<Rightarrow> i64 \<Rightarrow> i32 \<Rightarrow> (status \<times> string) handler" where
  "GetContent R session_id fh s =
     (if \<not> is_leader R then
        reply (\<lparr>error_code = code_of NOT_LEADER, error_message = to_string (get_leader R)\<rparr>, []) s
      else case find_session (int_of_int64 session_id) (sdb s) of
        None \<Rightarrow> reply (session_not_found_status, []) s
      | Some session \<Rightarrow>
          bindE (fh_to_key fh session) (\<lambda>key.
          bindE (map_at (ds s) key) (\<lambda>(meta, content).
          reply (status_ok, content) s)))"

definition SetContent :: "raft_api \<Rightarrow> buf_api \<Rightarrow> i64 \<Rightarrow> i32 \<Rightarrow> string \<Rightarrow> (status \<times> unit) handler" where
  "SetContent R B session_id fh a_content =
     append_action R B (SetContentAction session_id fh a_content) ()
       (\<lambda>buf s. case find_session (int_of_int64 session_id) (sdb s) of
          None \<Rightarrow> reply (session_not_found_status, ()) s
        | Some session \<Rightarrow>
            bindE (fh_to_key fh session) (\<lambda>key. notify_events key (reply (status_ok, ())) s))"

definition StartSession :: "raft_api \<Rightarrow> buf_api \<Rightarrow> (i32 \<Rightarrow> i32) \<Rightarrow> (status \<times> i64) handler" where
  "StartSession R B e0 =
     append_action R B StartSessionAction 0
       (\<lambda>buf s. bindE (read_start_session_return B buf) (\<lambda>(_, _, session_id).
          let sid = int_of_int64 session_id in
          if is_leader R then
            (case find_session sid (sdb s) of
               None \<Rightarrow> Inl Terminated
             | Some session \<Rightarrow>
                 reply (status_ok, session_id) (set_session sid (entry_start_kathread (e0 sid) session) s))
          else reply (status_ok, session_id) s))"

text \<open>The parents of the ephemeral files removed with a session are notified one after the other.\<close>

fun notify_all :: "string list \<Rightarrow> 'r handler \<Rightarrow> 'r handler" where
  "notify_all [] k = k"
| "notify_all (p # ps) k = notify_events p (notify_all ps k)"

definition EndSession :: "raft_api \<Rightarrow> buf_api \<Rightarrow> i64 \<Rightarrow> (status \<times> unit) handler" where
  "EndSession R B session_id =
     append_action R B (EndSessionAction session_id) ()
       (\<lambda>buf s. bindE (read_end_session_return B buf) (\<lambda>parents.
          notify_all parents (reply (status_ok, ())) s))"

text \<open>
  The part of \<open>TryAcquire\<close> and \<open>Acquire\<close> that tests the handle before the log entry:
  the response that ends the call, if any.
\<close>

definition check_handle :: "i32 \<Rightarrow> entry \<Rightarrow> file_meta \<Rightarrow> (i32 \<times> string) option result" where
  "check_handle fh session meta =
     bindE (handle_inum fh session) (\<lambda>inum.
     Inr (if inum \<noteq> instance_num meta then Some (-1, ''Instance num mismatch'')
          else if \<not> file_exists meta then Some (-2, ''File does not exist'')
          else None))"

definition TryAcquire ::
    "raft_api \<Rightarrow> buf_api \<Rightarrow> i64 \<Rightarrow> i32 \<Rightarrow> bool \<Rightarrow> (status \<times> (i32 \<times> string) option) handler" where
  "TryAcquire R B session_id fh ex s =
     (case find_session (int_of_int64 session_id) (sdb s) of
        None \<Rightarrow> reply (session_not_found_status, None) s
      | Some session \<Rightarrow>
          bindE (fh_to_key fh session) (\<lambda>key.
          bindE (map_at (ds s) key) (\<lambda>(meta, content).
          bindE (check_handle fh session meta) (\<lambda>bad.
          case bad of
            Some res \<Rightarrow> reply (status_ok, Some res) s
          | None \<Rightarrow>
              append_action R B (AcqAction session_id fh (int_of_bool ex)) None
                (\<lambda>buf s1. bindE (read_response B buf) (\<lambda>(res, msg).
                   if res = -1 then
                     reply (\<lparr>error_code = code_of LOCK_RELATED, error_message = msg\<rparr>, None) s1
                   else reply (status_ok, Some (res, msg)) s1)) s))))"

text \<open>The condition \<open>Acquire\<close> waits for on the condition variable of the file at \<open>key\<close>.\<close>

definition lock_free_for :: "bool \<Rightarrow> string \<Rightarrow> sm_state \<Rightarrow> bool" where
  "lock_free_for ex key s =
     (case ds s key of
        None \<Rightarrow> False
      | Some (meta, _) \<Rightarrow> lock_owners meta = {} \<or> \<not> ex \<and> is_locked_ex meta = Some False)"

text \<open>
  The session object a call holds on to: still in the database, or removed from it by the end of the
  session, which closed all its handles.
\<close>

definition session_object :: "entry \<Rightarrow> db \<Rightarrow> entry" where
  "session_object session d =
     (case find_session (entry_id session) d of
        Some session' \<Rightarrow> session'
      | None \<Rightarrow> session\<lparr>entry_inum := map (\<lambda>_. -1) (entry_inum session)\<rparr>)"

definition Acquire ::
    "raft_api \<Rightarrow> buf_api \<Rightarrow> i64 \<Rightarrow> i32 \<Rightarrow> bool \<Rightarrow> (status \<times> (i32 \<times> string) option) handler" where
  "Acquire R B session_id fh ex s =
     (case find_session (int_of_int64 session_id) (sdb s) of
        None \<Rightarrow> reply (session_not_found_status, None) s
      | Some session \<Rightarrow>
          bindE (fh_to_key fh session) (\<lambda>key.
          bindE (map_at (ds s) key) (\<lambda>_.
          Inr (Await (lock_free_for ex key) (\<lambda>s1.
            bindE (map_at (ds s1) key) (\<lambda>(meta, content).
            bindE (check_handle fh (session_object session (sdb s1)) meta) (\<lambda>bad.
            case bad of
              Some res \<Rightarrow> reply (status_ok, Some res) s1
            | None \<Rightarrow>
                append_action R B (AcqAction session_id fh (int_of_bool ex)) None
                  (\<lambda>buf s2. bindE (read_response B buf) (\<lambda>(res, msg).
                     bindE (assertE (res = 0)) (\<lambda>_.
                     reply (status_ok, Some (res, msg)) s2))) s1))), s))))"

definition Release :: "raft_api \<Rightarrow> buf_api \<Rightarrow> i64 \<Rightarrow> i32 \<Rightarrow> (status \<times> unit) handler" where
  "Release R B session_id fh s =
     (case find_session (int_of_int64 session_id) (sdb s) of
        None \<Rightarrow> reply (session_not_found_status, ()) s
      | Some session \<Rightarrow>
          bindE (fh_to_key fh session) (\<lambda>key.
          bindE (map_at (ds s) key) (\<lambda>_.
          append_action R B (RelAction session_id fh) ()
            (\<lambda>buf s1. bindE (read_response B buf) (\<lambda>(res, msg).
               if sint res < 0 then
                 reply (\<lparr>error_code = code_of LOCK_RELATED, error_message = msg\<rparr>, ()) s1
               else reply (status_ok, ()) s1)) s)))"

definition Delete :: "raft_api \<Rightarrow> buf_api \<Rightarrow> i64 \<Rightarrow> i32 \<Rightarrow> (status \<times> i32) handler" where
  "Delete R B session_id fh =
     append_action R B (DeleteAction session_id fh) 0
       (\<lambda>buf s. bindE (read_response B buf) (\<lambda>(res, msg).
          case find_session (int_of_int64 session_id) (sdb s) of
            None \<Rightarrow> reply (session_not_found_status, res) s
          | Some session \<Rightarrow>
              bindE (fh_to_key fh session) (\<lambda>key.
              notify_events (parent_path key) (reply (status_ok, res)) s)))"

section \<open>Keep-alive calls\<close>

text \<open>
  \<open>KeepAlive\<close> finishes the call \<open>r\<close> with an error, or hands it to the session's thread
  (\<open>None\<close>), which finishes it later.
\<close>

definition KeepAlive :: "raft_api \<Rightarrow> nat \<Rightarrow> i64 \<Rightarrow> i32 option \<Rightarrow> sm_state \<Rightarrow> status option \<times> sm_state" where
  "KeepAlive R r session_id acked_event s =
     (if \<not> is_leader R then
        (Some \<lparr>error_code = code_of NOT_LEADER, error_message = to_string (get_leader R)\<rparr>, s)
      else
        (let sid = int_of_int64 session_id in
         case find_session sid (sdb s) of
           None \<Rightarrow> (Some session_not_found_status, s)
         | Some session \<Rightarrow>
             (None, set_session sid
                (entry_set_reactor r (case acked_event of Some a \<Rightarrow> a | None \<Rightarrow> -1) session) s)))"

section \<open>Notification\<close>

definition thread_of :: "i32 \<Rightarrow> db \<Rightarrow> ka_thread option" where
  "thread_of sid d = (case find_session sid d of None \<Rightarrow> None | Some e \<Rightarrow> kathread e)"

text \<open>The (session, event) pairs a notification of these subscribers waits for.\<close>

definition event_waits :: "(i32 \<times> i32) list \<Rightarrow> db \<Rightarrow> (i32 \<times> i32) list" where
  "event_waits subs d =
     List.map_filter (\<lambda>(sid, fh). map_option (\<lambda>t. (sid, event_id t)) (thread_of sid d)) subs"

definition notified_db :: "(i32 \<times> i32) list \<Rightarrow> db \<Rightarrow> db \<Rightarrow> bool" where
  "notified_db subs d d' \<longleftrightarrow> next_id d' = next_id d \<and> (\<forall>j. find_session j d' =
     (case map_of subs j of
        None \<Rightarrow> find_session j d
      | Some fh \<Rightarrow> map_option (\<lambda>e. snd (entry_enqueue_event fh e)) (find_session j d)))"

lemma event_waits_put:
  "sid \<notin> fst ` set subs \<Longrightarrow> event_waits subs (put_session sid e d) = event_waits subs d"
  by (induction subs) (auto simp: event_waits_def List.map_filter_simps thread_of_def find_put_session split: option.split)

lemma notify_loop_live:
  assumes "distinct (map fst subs)"
    and "\<forall>(sid, fh) \<in> set subs. \<exists>e. find_session sid d = Some e \<and> handle_open e fh"
  shows "\<exists>d'. notify_loop subs d = Inr (subs, event_waits subs d, d') \<and> notified_db subs d d'"
  using assms
proof (induction subs arbitrary: d)
  case Nil
  then show ?case by (simp add: event_waits_def List.map_filter_simps notified_db_def)
next
  case (Cons sub subs)
  obtain sid fh where sub: "sub = (sid, fh)" by (cases sub)
  obtain e where e: "find_session sid d = Some e" "handle_open e fh" using Cons.prems(2) sub by auto
  then obtain inum where inum: "handle_inum fh e = Inr inum"
    by (auto simp: handle_open_def handle_inum_def result_simps)
  have ne: "inum \<noteq> -1" using handle_inum_open [OF inum] e(2) by simp
  obtain eid e' where en: "entry_enqueue_event fh e = (eid, e')" by (cases "entry_enqueue_event fh e")
  have nin: "sid \<notin> fst ` set subs" using Cons.prems(1) sub by simp
  have live: "\<forall>(j, g) \<in> set subs. \<exists>e1. find_session j (put_session sid e' d) = Some e1 \<and> handle_open e1 g"
  proof (safe)
    fix j g
    assume jg: "(j, g) \<in> set subs"
    then have "j \<noteq> sid" using nin by (force simp: image_iff)
    then show "\<exists>e1. find_session j (put_session sid e' d) = Some e1 \<and> handle_open e1 g"
      using Cons.prems(2) jg by (auto simp: find_put_session)
  qed
  obtain d' where d': "notify_loop subs (put_session sid e' d) = Inr (subs, event_waits subs d, d')"
      "notified_db subs (put_session sid e' d) d'"
    using Cons.IH [OF _ live] Cons.prems(1) event_waits_put [OF nin] by auto
  have w: "event_waits (sub # subs) d = (case eid of Some k \<Rightarrow> (sid, k) # event_waits subs d | None \<Rightarrow> event_waits subs d)"
    using en e(1) sub
    by (auto simp: event_waits_def List.map_filter_simps thread_of_def entry_enqueue_event_def ka_enqueue_event_def
        Let_def split: option.splits)
  have "map_of subs sid = None" using nin by (simp add: map_of_eq_None_iff)
  then have "notified_db (sub # subs) d d'"
    using d'(2) en e(1) sub by (auto simp: notified_db_def find_put_session split: option.split)
  then show ?case using d'(1) e(1) inum ne en w sub by simp
qed

lemma all_acked_wait:
  "all_acked waits s \<Longrightarrow> (sid, eid) \<in> set waits \<Longrightarrow> thread_of sid (sdb s) = Some t \<Longrightarrow> ka_unblocked eid t"
  by (auto simp: all_acked_def list_all_iff thread_of_def entry_unblocked_def split: option.splits)

lemma event_waits_mem:
  "(sid, fh) \<in> set subs \<Longrightarrow> thread_of sid d = Some t \<Longrightarrow> (sid, event_id t) \<in> set (event_waits subs d)"
  by (force simp: event_waits_def List.map_filter_def)

lemma notified_thread:
  assumes "notified_db subs d d'" and "distinct (map fst subs)" and "(sid, fh) \<in> set subs"
    and "thread_of sid d = Some t"
  shows "thread_of sid d' = Some (snd (ka_enqueue_event fh t))"
proof -
  obtain e where e: "find_session sid d = Some e" "kathread e = Some t"
    using assms(4) by (auto simp: thread_of_def split: option.splits)
  have "map_of subs sid = Some fh" using assms(2,3) by simp
  then have "find_session sid d' = Some (snd (entry_enqueue_event fh e))" using assms(1) e by (simp add: notified_db_def)
  then show ?thesis using e by (simp add: thread_of_def entry_enqueue_event_def split_def Let_def)
qed

text \<open>In a well-formed state a notification drops no subscriber.\<close>

lemma notify_events_live:
  assumes inv: "sm_inv n s" and m: "ds s key = Some (m, c)"
  shows "\<exists>d. notified_db (subscribers m) (sdb s) d \<and>
    notify_events key k s =
      (let s1 = s\<lparr>sdb := d\<rparr>; waits = event_waits (subscribers m) (sdb s) in
       if waits = [] then k s1
       else Inr (Await (all_acked waits) (\<lambda>s2. k (s2\<lparr>sdb := block_returns waits (sdb s2)\<rparr>)), s1))"
proof -
  have dist: "distinct (map fst (subscribers m))" using sm_inv_meta [OF inv m] by (simp add: meta_ok_def)
  have "\<forall>(sid, fh) \<in> set (subscribers m). \<exists>e. find_session sid (sdb s) = Some e \<and> handle_open e fh"
    using sm_inv_subscription [OF inv m] dist by (fastforce simp: subscribed_def subscription_ok_def)
  from notify_loop_live [OF dist this] obtain d where
    d: "notify_loop (subscribers m) (sdb s) = Inr (subscribers m, event_waits (subscribers m) (sdb s), d)"
      "notified_db (subscribers m) (sdb s) d" by blast
  have "set_file key (m\<lparr>subscribers := subscribers m\<rparr>, c) (s\<lparr>sdb := d\<rparr>) = s\<lparr>sdb := d\<rparr>"
    using m by (simp add: set_file_def fun_upd_idem)
  then show ?thesis using d m by (intro exI [of _ d]) (simp add: notify_events_def Let_def)
qed

end
