(* ===== verification/Replication.thy ===== *)
theory Replication
  imports SM_Invariant
begin

text \<open>
  Replicas agree. Every server applies the same log, but only the leader's sessions have
  keep-alive threads. \<open>strip\<close> forgets the threads; applying an action commutes with it, so
  the replies and the replicated part of the state do not depend on which server applies
  the log. The locale \<open>replica\<close> states this for any deterministic step function with a
  view of its state.
\<close>

locale replica =
  fixes step :: "'a \<Rightarrow> 's \<Rightarrow> ('r \<times> 's) result"
    and view :: "'s \<Rightarrow> 's"
  assumes step_view: "map_sum id (map_prod id view) (step a s) = step a (view s)"
    and view_idem: "view (view s) = view s"
begin

fun steps :: "'a list \<Rightarrow> 's \<Rightarrow> ('r list \<times> 's) result" where
  "steps [] s = Inr ([], s)"
| "steps (a # as) s =
     bindE (step a s) (\<lambda>(r, s1). bindE (steps as s1) (\<lambda>(rs, s2). Inr (r # rs, s2)))"

lemma step_Inr: "step a s = Inr (r, s') \<Longrightarrow> step a (view s) = Inr (r, view s')"
  using step_view [of a s] by simp

lemma step_Inl: "step a s = Inl e \<Longrightarrow> step a (view s) = Inl e"
  using step_view [of a s] by simp

lemma steps_view: "map_sum id (map_prod id view) (steps as s) = steps as (view s)"
proof (induction as arbitrary: s)
  case Nil
  then show ?case by simp
next
  case (Cons a as)
  show ?case
  proof (cases "step a s")
    case (Inl e)
    then show ?thesis using step_Inl [OF Inl] by simp
  next
    case (Inr p)
    obtain r s1 where p: "p = (r, s1)" by (cases p)
    show ?thesis
    proof (cases "steps as s1")
      case (Inl e)
      then have "steps as (view s1) = Inl e" using Cons.IH [of s1] by simp
      then show ?thesis using Inl Inr p step_Inr by simp
    next
      case (Inr q)
      obtain rs s2 where "q = (rs, s2)" by (cases q)
      then have "steps as (view s1) = Inr (rs, view s2)" using Cons.IH [of s1] Inr by simp
      then show ?thesis using \<open>q = (rs, s2)\<close> Inr \<open>step a s = Inr p\<close> p step_Inr by simp
    qed
  qed
qed

lemma steps_agree:
  assumes "view s = view t" and "steps as s = Inr (rs, s')"
  shows "\<exists>t'. steps as t = Inr (rs, t') \<and> view t' = view s'"
proof -
  have "map_sum id (map_prod id view) (steps as t) = Inr (rs, view s')"
    using steps_view [of as s] steps_view [of as t] assms by simp
  then show ?thesis by (cases "steps as t") auto
qed

end

section \<open>Forgetting the keep-alive threads\<close>

definition strip_entry :: "entry \<Rightarrow> entry" where
  "strip_entry e = e\<lparr>kathread := None\<rparr>"

definition strip_db :: "db \<Rightarrow> db" where
  "strip_db d = d\<lparr>session_db := (\<lambda>sid. map_option strip_entry (session_db d sid))\<rparr>"

definition strip :: "sm_state \<Rightarrow> sm_state" where
  "strip s = s\<lparr>sdb := strip_db (sdb s)\<rparr>"

lemma map_sum_bindE: "map_sum id g (bindE m f) = bindE m (\<lambda>x. map_sum id g (f x))"
  by (cases m) auto

lemma bindE_map_sum: "bindE (map_sum id g m) f = bindE m (\<lambda>x. f (g x))"
  by (cases m) auto

lemmas map_sum_bindE' = map_sum_bindE [unfolded id_def]
lemmas bindE_map_sum' = bindE_map_sum [unfolded id_def]

lemma db_eqI: "next_id d = next_id d' \<Longrightarrow> (\<And>sid. session_db d sid = session_db d' sid) \<Longrightarrow> d = (d' :: db)"
  by (rule db.equality) (auto simp: fun_eq_iff)

lemma bindE_cong: "m = m' \<Longrightarrow> (\<And>x. m' = Inr x \<Longrightarrow> f x = f' x) \<Longrightarrow> bindE m f = bindE m' f'"
  by (cases m') auto

lemma strip_simps [simp]:
  "ds (strip s) = ds s" "sdb (strip s) = strip_db (sdb s)"
  "find_session sid (strip_db d) = map_option strip_entry (find_session sid d)"
  "next_id (strip_db d) = next_id d"
  by (simp_all add: strip_def strip_db_def find_session_def)

lemma strip_entry_simps [simp]:
  "entry_id (strip_entry e) = entry_id e" "entry_v (strip_entry e) = entry_v e"
  "entry_inum (strip_entry e) = entry_inum e" "kathread (strip_entry e) = None"
  "fh_to_key fh (strip_entry e) = fh_to_key fh e" "handle_inum fh (strip_entry e) = handle_inum fh e"
  "handle_count (strip_entry e) = handle_count e"
  by (simp_all add: strip_entry_def fh_to_key_def handle_inum_def handle_count_def)

lemma strip_set_file [simp]: "strip (set_file p f s) = set_file p f (strip s)"
  by (simp add: strip_def set_file_def)

lemma strip_put: "strip_db (put_session sid e d) = put_session sid (strip_entry e) (strip_db d)"
  by (rule db_eqI) (auto simp: strip_db_def put_session_def)

lemma strip_set_session [simp]: "strip (set_session sid e s) = set_session sid (strip_entry e) (strip s)"
  by (simp add: strip_def set_session_def strip_put)

lemma strip_add_handle:
  "add_new_handle p n (strip_entry e) = map_prod id strip_entry (add_new_handle p n e)"
  by (simp add: add_new_handle_def strip_entry_def Let_def)

lemma strip_close_handle:
  "close_handle fh (strip_entry e) = map_sum id strip_entry (close_handle fh e)"
  by (auto simp: close_handle_def strip_entry_def vec_set_def)

lemma strip_entry_enqueue:
  "strip_entry (snd (entry_enqueue_event fh e)) = strip_entry e"
  "snd (entry_enqueue_event fh (strip_entry e)) = strip_entry e"
  by (auto simp: entry_enqueue_event_def strip_entry_def split: option.split prod.split)

lemma strip_enqueue: "strip_db (enqueue_owners owners fh d) = strip_db d"
  by (rule db_eqI)
    (auto simp: strip_db_def enqueue_owners_def option.map_comp comp_def strip_entry_enqueue)

lemma enqueue_strip: "enqueue_owners owners fh (strip_db d) = strip_db d"
  by (rule db_eqI)
    (auto simp: strip_db_def enqueue_owners_def option.map_comp comp_def strip_entry_enqueue)

lemma strip_db_idem [simp]: "strip_db (strip_db d) = strip_db d"
  by (rule db_eqI) (auto simp: strip_db_def option.map_comp comp_def strip_entry_def
      intro!: option.map_cong0)

lemma strip_sdb [simp]: "strip (s\<lparr>sdb := d\<rparr>) = (strip s)\<lparr>sdb := strip_db d\<rparr>"
  by (simp add: strip_def)

lemma strip_sdb_id [simp]: "(strip s)\<lparr>sdb := strip_db (sdb s)\<rparr> = strip s"
  by (simp add: strip_def)

lemma strip_idem [simp]: "strip (strip s) = strip s"
  by (simp add: strip_def)

lemmas commute = map_sum_bindE bindE_map_sum map_sum_bindE' bindE_map_sum' split_def Let_def

section \<open>Every action commutes with forgetting\<close>

lemma open_file_strip: "open_file p d e (strip s) = map_sum id strip (open_file p d e s)"
  by (auto simp: open_file_def Let_def map_at_def split: option.split)

lemma open_parent_strip: "open_parent p (strip s) = map_sum id strip (open_parent p s)"
  by (auto simp: open_parent_def Let_def map_at_def assertE_def split: option.split)

lemma open_handle_strip:
  "open_handle sid (strip_entry e) p (strip s) = map_sum id (map_prod id strip) (open_handle sid e p s)"
  by (auto simp: open_handle_def Let_def map_at_def strip_add_handle map_prod_def split: option.split prod.split)

lemma apply_open_strip:
  "apply_open sid p d e (strip s) = map_sum id (map_prod id strip) (apply_open sid p d e s)"
  by (cases "find_session (int_of_int64 sid) (sdb s)")
    (simp_all add: apply_open_def commute open_file_strip open_parent_strip open_handle_strip)

lemma drop_subscriber_strip:
  "drop_subscriber sid key (strip s) = map_sum id (map_prod id strip) (drop_subscriber sid key s)"
  by (auto simp: drop_subscriber_def commute if_distrib [of "map_sum id g" for g]
      intro!: bindE_cong split: option.split)

lemma close_file_strip:
  "close_file_delete_ephermeral sid (strip_entry e) fh (strip s) =
   map_sum id (map_prod id (map_prod strip_entry strip)) (close_file_delete_ephermeral sid e fh s)"
  by (auto simp: close_file_delete_ephermeral_def commute strip_close_handle drop_subscriber_strip
      simp flip: strip_set_session intro!: bindE_cong)

lemma release_lock_strip:
  "release_lock sid fh (strip s) = map_sum id (map_prod id strip) (release_lock sid fh s)"
  by (auto simp: release_lock_def commute intro!: bindE_cong split: option.split)

lemma apply_close_strip:
  "apply_close sid fh (strip s) = map_sum id (map_prod id strip) (apply_close sid fh s)"
  by (auto simp: apply_close_def commute close_file_strip release_lock_strip intro!: bindE_cong
      split: option.split)

lemma apply_start_session_strip:
  "apply_start_session (strip s) = map_sum id (map_prod id strip) (apply_start_session s)"
proof -
  have "create_session (strip_db d) = map_prod strip_entry strip_db (create_session d)" for d
    by (auto simp: create_session_def Let_def new_entry_def strip_entry_def strip_db_def intro!: db_eqI)
  then show ?thesis by (simp add: apply_start_session_def split_def Let_def)
qed

lemma end_session_loop_strip:
  "end_session_loop sid is (strip_entry e) ps sz (strip s) =
   map_sum id (map_prod id (map_prod id strip)) (end_session_loop sid is e ps sz s)"
proof (induction "is" arbitrary: e ps sz s)
  case Nil
  show ?case by simp
next
  case (Cons i "is")
  show ?case
    by (auto simp: commute close_file_strip release_lock_strip Cons.IH intro!: bindE_cong
        split: option.split)
qed

lemma delete_session_strip: "delete_session sid (strip_db d) = map_sum id strip_db (delete_session sid d)"
  by (auto simp: delete_session_def assertE_def strip_db_def intro!: db_eqI)

lemma apply_end_session_strip:
  "apply_end_session sid (strip s) = map_sum id (map_prod id strip) (apply_end_session sid s)"
  by (auto simp: apply_end_session_def commute end_session_loop_strip delete_session_strip
      intro!: bindE_cong split: option.split)

lemma apply_set_content_strip:
  "apply_set_content sid fh c (strip s) = map_sum id (map_prod id strip) (apply_set_content sid fh c s)"
  by (auto simp: apply_set_content_def commute intro!: bindE_cong split: option.split)

lemma apply_acq_strip:
  "apply_acq sid fh ex (strip s) = map_sum id (map_prod id strip) (apply_acq sid fh ex s)"
  by (auto simp: apply_acq_def commute intro!: bindE_cong split: option.split)

lemma apply_rel_strip:
  "apply_rel sid fh (strip s) = map_sum id (map_prod id strip) (apply_rel sid fh s)"
  by (auto simp: apply_rel_def commute release_lock_strip intro!: bindE_cong)

lemma apply_delete_strip:
  "apply_delete sid fh (strip s) = map_sum id (map_prod id strip) (apply_delete sid fh s)"
  by (auto simp: apply_delete_def commute enqueue_strip strip_enqueue intro!: bindE_cong
      split: option.split)

lemma apply_action_strip:
  "map_sum id (map_prod id strip) (apply_action a s) = apply_action a (strip s)"
  by (cases a) (simp_all add: apply_open_strip apply_close_strip apply_start_session_strip
      apply_end_session_strip apply_acq_strip apply_rel_strip apply_set_content_strip apply_delete_strip)

interpretation rsm: replica apply_action strip
  by unfold_locales (simp_all add: apply_action_strip)

lemma run_log_steps: "run_log as s = rsm.steps as s"
  by (induction as arbitrary: s) simp_all

end
