(* ===== verification/SM_Properties.thy ===== *)
theory SM_Properties
  imports Commit Replication
begin

text \<open>
  The properties of the replicated state machine, over every log of fewer than
  \<open>2 ^ 31\<close> actions, each with a concrete run where its hypotheses hold. The runs are
  evaluated by the simplifier.
\<close>

lemma reaches_appendD: "reaches pre s \<Longrightarrow> reaches (pre @ as) s' \<Longrightarrow> \<exists>rs. run_log as s = Inr (rs, s')"
  by (auto simp: reaches_def run_log_append result_simps)

lemma resolves_code [code]:
  "resolves s x fh p =
     (case find_session (int_of_int64 x) (sdb s) of None \<Rightarrow> False | Some e \<Rightarrow> fh_to_key fh e = Inr p)"
  by (auto simp: resolves_def split: option.split)

lemma replies_after: "map_sum id fst (run_log as init_state) = Inr rs \<Longrightarrow> run_log as init_state = Inr (rs, after_log as)"
  by (cases "run_log as init_state") (auto simp: after_log_def)

lemma step_after:
  assumes "map_sum id (last \<circ> fst) (run_log (as @ [a]) init_state) = Inr r"
  shows "apply_action a (after_log as) = Inr (r, after_log (as @ [a]))"
proof (cases "run_log as init_state")
  case (Inr q)
  obtain rs s where q: "q = (rs, s)" by (cases q)
  show ?thesis
    using assms Inr q by (cases "apply_action a s") (auto simp: run_log_append after_log_def)
qed (use assms in \<open>simp add: run_log_append\<close>)

text \<open>Two sessions with a handle each on the file "/f"; the first takes the lock exclusively.\<close>

definition two_sessions :: "action list" where
  "two_sessions = [StartSessionAction, StartSessionAction, OpenAction 0 ''/f'' 0 0, OpenAction 1 ''/f'' 0 0]"

definition locked_log :: "action list" where
  "locked_log = two_sessions @ [AcqAction 0 0 1]"

section \<open>Locks\<close>

lemma acq_refused:
  assumes inv: "sm_inv n s" and ex: "excl s p sid" and re: "resolves s x fh p"
  shows "apply_acq x fh b s = Inr (Response 1 ''fail to acquire'', s)"
proof -
  obtain e where e: "find_session (int_of_int64 x) (sdb s) = Some e" "fh_to_key fh e = Inr p"
    using re by (auto simp: resolves_def)
  then have "in_range (entry_v e) fh" using fh_to_key_out by fastforce
  then obtain r s1 where "apply_acq x fh b s = Inr (r, s1)"
    using acq_crash [OF inv e(1)] by (metis obj_sumE surj_pair)
  then show ?thesis using apply_acq_excl [OF ex] re by auto
qed

text \<open>
  C1: an exclusive lock is kept, and nobody else is granted it. Once a log has brought a
  replica to a state in which session \<open>sid\<close> holds the lock of the file \<open>p\<close> exclusively, it
  still holds it after any further actions of any sessions, except its own close or release of
  a handle to \<open>p\<close>, the end of its session, or a delete of \<open>p\<close>; and in that state every
  request for the lock, in either mode and by any session, is refused and changes nothing.
\<close>

theorem exclusive_lock_is_kept:
  assumes "reaches pre s" and "lock_state s p = Some (Exclusive sid)" and "undisturbed sid p as s"
    and "reaches (pre @ as) s'" and "length pre + length as < 2 ^ 31"
  shows "lock_state s' p = Some (Exclusive sid) \<and>
    (\<forall>x fh ex. resolves s' x fh p \<longrightarrow>
       apply_action (AcqAction x fh ex) s' = Inr (Response 1 ''fail to acquire'', s'))"
proof -
  have inv: "sm_inv (length pre) s" "sm_inv (length (pre @ as)) s'"
    using reaches_inv [OF assms(1)] reaches_inv [OF assms(4)] assms(5) by auto
  obtain rs where "run_log as s = Inr (rs, s')" using reaches_appendD [OF assms(1,4)] by blast
  then have ex: "excl s' p sid" using run_log_excl excl_lock_state [OF inv(1)] assms(2,3) by blast
  have "apply_acq x fh b s' = Inr (Response 1 ''fail to acquire'', s')" if re: "resolves s' x fh p" for x fh b
    using acq_refused [OF inv(2) ex re] .
  then show ?thesis using ex excl_lock_state [OF inv(2)] by simp
qed

theorem exclusive_lock_is_kept_witness:
  "lock_state (after_log (locked_log @ [SetContentAction 1 0 ''x'', AcqAction 1 0 0])) ''/f'' = Some (Exclusive 0) \<and>
   apply_action (AcqAction 1 0 0) (after_log (locked_log @ [SetContentAction 1 0 ''x'', AcqAction 1 0 0])) =
     Inr (Response 1 ''fail to acquire'', after_log (locked_log @ [SetContentAction 1 0 ''x'', AcqAction 1 0 0]))"
proof -
  have 1: "reaches locked_log (after_log locked_log)" by (rule reaches_after) code_simp
  have 2: "lock_state (after_log locked_log) ''/f'' = Some (Exclusive 0)" by code_simp
  have 3: "undisturbed 0 ''/f'' [SetContentAction 1 0 ''x'', AcqAction 1 0 0] (after_log locked_log)" by code_simp
  have 4: "reaches (locked_log @ [SetContentAction 1 0 ''x'', AcqAction 1 0 0])
      (after_log (locked_log @ [SetContentAction 1 0 ''x'', AcqAction 1 0 0]))"
    by (rule reaches_after) code_simp
  have 5: "length locked_log + length [SetContentAction 1 0 ''x'', AcqAction 1 0 0] < 2 ^ 31"
    by (simp add: locked_log_def two_sessions_def)
  have "resolves (after_log (locked_log @ [SetContentAction 1 0 ''x'', AcqAction 1 0 0])) 1 0 ''/f''" by code_simp
  then show ?thesis using exclusive_lock_is_kept [OF 1 2 3 4 5] by blast
qed



text \<open>
  Releasing implements the abstract reader/writer lock. On an existing file a
  \<open>RelAction\<close> replies 0 if the session held the lock and -1 otherwise, and the lock state
  becomes that of the abstract \<open>rw_release\<close>; nothing else changes. On a file that has
  been deleted it replies -2 and the state is unchanged.
\<close>

theorem release_refines_rw_lock:
  assumes "reaches as s" and "length as < 2 ^ 31" and "resolves s x fh p" and "lock_state s p = Some l"
    and "rw_release (int_of_int64 x) l = (held, l')"
  shows "if exists_file s p then
      \<exists>r s'. apply_action (RelAction x fh) s = Inr (r, s') \<and> ret_res r = (if held then 0 else -1) \<and>
        lock_state s' = (lock_state s)(p \<mapsto> l') \<and> sdb s' = sdb s \<and> content_of s' = content_of s \<and>
        (\<forall>q. exists_file s' q = exists_file s q)
    else apply_action (RelAction x fh) s = Inr (Response (-2) ''file not found'', s)"
proof -
  have "ds s p \<noteq> None" using assms(4) by (auto simp: lock_state_def)
  then show ?thesis
    using rel_effect [OF reaches_inv [OF assms(1,2)] assms(3,4) _ assms(5)] rel_missing [OF assms(3)] by simp
qed

theorem release_refines_rw_lock_witness:
  "if exists_file (after_log locked_log) ''/f'' then
      \<exists>r s'. apply_action (RelAction 0 0) (after_log locked_log) = Inr (r, s') \<and> ret_res r = (if True then 0 else -1) \<and>
        lock_state s' = (lock_state (after_log locked_log))(''/f'' \<mapsto> Free) \<and>
        sdb s' = sdb (after_log locked_log) \<and> content_of s' = content_of (after_log locked_log) \<and>
        (\<forall>q. exists_file s' q = exists_file (after_log locked_log) q)
    else apply_action (RelAction 0 0) (after_log locked_log) =
      Inr (Response (-2) ''file not found'', after_log locked_log)"
proof (rule release_refines_rw_lock)
  show "reaches locked_log (after_log locked_log)" by (rule reaches_after) code_simp
  show "resolves (after_log locked_log) 0 0 ''/f''" by code_simp
  show "lock_state (after_log locked_log) ''/f'' = Some (Exclusive 0)" by code_simp
  show "rw_release (int_of_int64 0) (Exclusive 0) = (True, Free)" by (simp add: int_of_int64_def)
qed (simp add: locked_log_def two_sessions_def)

section \<open>The invariant and crashes\<close>

text \<open>
  C19: the state machine keeps its invariant along every log. After any log of fewer
  than \<open>2 ^ 31\<close> actions: every lock is free, shared, or owned exclusively by one session; every
  file's directory is in the store; a session's handles have paths of the store and one instance
  number each; a file's subscribers are distinct sessions that exist, each subscribed with an open
  handle of its own to that very file; session ids are below the counter, and no 32-bit
  counter (session ids, handles, instance numbers) has wrapped.
\<close>

theorem reachable_states_well_formed:
  assumes "reaches as s" and "length as < 2 ^ 31"
  shows "sm_inv (length as) s"
  using assms by (rule reaches_inv)

theorem reachable_states_well_formed_witness: "sm_inv (length locked_log) (after_log locked_log)"
proof (rule reachable_states_well_formed)
  show "reaches locked_log (after_log locked_log)" by (rule reaches_after) code_simp
qed (simp add: locked_log_def two_sessions_def)



text \<open>
  Closing a regular file brings every replica down. A \<open>CloseAction\<close> for a
  file that is not ephemeral reads the value of an optional that is empty, whatever the log before.
\<close>

theorem close_of_regular_file_crashes:
  assumes "reaches as s" and "length as < 2 ^ 31" and "session_of s x = Some e" and "fh_to_key fh e = Inr p"
    and "ds s p = Some (m, c)" and "is_ephemeral m \<noteq> Some True"
  shows "apply_action (CloseAction x fh) s = Inl Bad_optional_access"
proof -
  have inv: "sm_inv (length as) s" using reaches_inv assms(1,2) .
  have e: "find_session (int_of_int64 x) (sdb s) = Some e" using assms(3) by (simp add: session_of_def)
  have r: "in_range (entry_v e) fh" using assms(4) fh_to_key_out by fastforce
  have "\<not> removes_ephemeral s (int_of_int64 x) e fh" using assms(4-6) by (auto simp: removes_ephemeral_def)
  then obtain e' s1 where cl: "close_file_delete_ephermeral (int_of_int64 x) e fh s = Inr (None, e', s1)"
    using close_file_total [OF inv e r] by auto
  from close_file_inv [OF inv e cl]
  have c: "sm_inv (length as) s1" "find_session (int_of_int64 x) (sdb s1) = Some e'" "entry_v e' = entry_v e"
    by (auto simp: find_put_session closed_upto_def)
  obtain rc s2 where "release_lock (int_of_int64 x) fh s1 = Inr (rc, s2)"
    using release_lock_total [OF c(1,2), of fh] r c(3) by auto
  then show ?thesis using e cl by (simp add: apply_close_def)
qed

theorem close_of_regular_file_crashes_witness:
  "apply_action (CloseAction 0 0) (after_log two_sessions) = Inl Bad_optional_access"
proof -
  have "session_of (after_log two_sessions) 0 =
      Some \<lparr>entry_id = 0, entry_v = [''/f''], entry_inum = [0], kathread = None\<rparr>" by code_simp
  then show ?thesis
  proof (rule close_of_regular_file_crashes [where p = "''/f''" and c = "[]", rotated 2])
    show "reaches two_sessions (after_log two_sessions)" by (rule reaches_after) code_simp
    show "fh_to_key 0 \<lparr>entry_id = 0, entry_v = [''/f''], entry_inum = [0], kathread = None\<rparr> = Inr ''/f''" by code_simp
    show "ds (after_log two_sessions) ''/f'' =
        Some (new_file_meta\<lparr>file_exists := True, is_ephemeral := Some False, subscribers := [(0, 0), (1, 0)]\<rparr>, [])"
      by code_simp
  qed (simp_all add: two_sessions_def)
qed

section \<open>Sessions\<close>

text \<open>
  Session numbers are fresh. Along a log, the \<open>k\<close>-th successful session start is
  answered with session number \<open>k\<close>, whatever sessions have ended in between; so no number is
  ever given out twice.
\<close>

theorem session_numbers_are_fresh:
  assumes "run_log as init_state = Inr (rs, s)" and "length as < 2 ^ 31"
  shows "started rs = map int64_of_int (map of_nat [0..<length (filter ((=) StartSessionAction) as)]) \<and>
    distinct (started rs)"
proof -
  let ?k = "length (filter ((=) StartSessionAction) as)"
  have k: "?k < 2 ^ 31" using assms(2) length_filter_le [of "(=) StartSessionAction" as] by linarith
  have eq: "started rs = map (\<lambda>i. int64_of_int (of_nat i)) [0..<?k]"
    using run_log_started [OF assms(1)] by (simp add: init_state_def empty_db_def)
  have inj: "i = j" if "i < 2 ^ 31" "j < 2 ^ 31" and eq: "int64_of_int (of_nat i) = int64_of_int (of_nat j)" for i j
  proof -
    have "int_of_int64 (int64_of_int (of_nat i)) = int_of_int64 (int64_of_int (of_nat j))" using eq by simp
    then have "(of_nat i :: i32) = of_nat j" by simp
    then have "sint (of_nat i :: i32) = sint (of_nat j :: i32)" by simp
    then show ?thesis using that(1,2) by (simp add: sint_of_nat32)
  qed
  have "distinct (started rs)"
    unfolding eq distinct_map using k inj by (auto intro!: inj_onI)
  then show ?thesis using eq by simp
qed

theorem session_numbers_are_fresh_witness:
  "started [StartSessionReturn 0 ''OK'' 0, EndSessionReturn 18 [], StartSessionReturn 0 ''OK'' 1] =
     map int64_of_int (map of_nat [0..<length (filter ((=) StartSessionAction)
       [StartSessionAction, EndSessionAction 0, StartSessionAction])]) \<and>
   distinct (started [StartSessionReturn 0 ''OK'' 0, EndSessionReturn 18 [], StartSessionReturn 0 ''OK'' 1])"
proof (rule session_numbers_are_fresh)
  show "run_log [StartSessionAction, EndSessionAction 0, StartSessionAction] init_state =
      Inr ([StartSessionReturn 0 ''OK'' 0, EndSessionReturn 18 [], StartSessionReturn 0 ''OK'' 1],
        after_log [StartSessionAction, EndSessionAction 0, StartSessionAction])"
    by (rule replies_after) code_simp
qed simp



text \<open>
  The removal of an ephemeral file does not clear its content, as a delete does: when another session creates the
  file again, it finds in it what the ended session wrote.
\<close>

theorem ephemeral_content_survives:
  "map_sum id (\<lambda>(rs, s). (rs, content_of s ''/e'')) (run_log
     [StartSessionAction, OpenAction 0 ''/e'' 0 1, SetContentAction 0 0 ''x'', EndSessionAction 0,
      StartSessionAction, OpenAction 1 ''/e'' 0 1] init_state) =
   Inr ([StartSessionReturn 0 ''OK'' 0, OpenReturn 0 ''OK'' 0, Response 0 ''OK'', EndSessionReturn 27 [''/''],
     StartSessionReturn 0 ''OK'' 1, OpenReturn 0 ''OK'' 0], Some ''x'')"
  by code_simp

text \<open>
  A session counts as one subscriber however many handles it has: closing one of two handles of an ephemeral
  file removes the file from under the other one, with which it cannot be written any more.
\<close>

theorem ephemeral_file_removed_under_handle:
  "map_sum id fst (run_log
     [StartSessionAction, OpenAction 0 ''/e'' 0 1, OpenAction 0 ''/e'' 0 1, CloseAction 0 0,
      SetContentAction 0 1 ''x''] init_state) =
   Inr [StartSessionReturn 0 ''OK'' 0, OpenReturn 0 ''OK'' 0, OpenReturn 0 ''OK'' 1, CloseReturn 0 ''OK'' 1 ''/'',
     Response (-1) ''File does not exist'']"
  by code_simp

section \<open>Files\<close>



text \<open>
  What is written is what is stored, and only through a current handle. In a reachable
  state, a \<open>SetContentAction\<close> through a handle that resolves to \<open>p\<close> succeeds exactly when
  the handle carries the file's current instance number and the file exists; then the content of
  \<open>p\<close> is the content sent and nothing else changes. In the other cases the reply says which test
  failed and the state is unchanged.
\<close>

theorem set_content_spec:
  assumes "reaches as s" and "length as < 2 ^ 31" and "session_of s x = Some e" and "fh_to_key fh e = Inr p"
  shows "\<exists>k m c0. handle_inum fh e = Inr k \<and> ds s p = Some (m, c0) \<and>
    (if k = instance_num m \<and> file_exists m then
       \<exists>s'. apply_action (SetContentAction x fh c) s = Inr (Response 0 ''OK'', s') \<and>
         sdb s' = sdb s \<and> ds s' = (ds s)(p \<mapsto> (m, c))
     else
       apply_action (SetContentAction x fh c) s =
         Inr (Response (-1) (if k \<noteq> instance_num m then ''Instance num mismatch'' else ''File does not exist''), s))"
proof -
  have inv: "sm_inv (length as) s" using reaches_inv assms(1,2) .
  have e: "find_session (int_of_int64 x) (sdb s) = Some e" using assms(3) by (simp add: session_of_def)
  have r: "in_range (entry_v e) fh" using assms(4) fh_to_key_out by fastforce
  obtain m c0 where m: "ds s p = Some (m, c0)" using sm_inv_key [OF inv e assms(4)] by blast
  obtain k where k: "handle_inum fh e = Inr k" using handle_inum_in_range [OF sm_inv_entry [OF inv e] r] by blast
  show ?thesis using set_content_effect [OF assms(3,4) m k, of c] m k by auto
qed

theorem set_content_spec_witness:
  "\<exists>k m c0. handle_inum 0 \<lparr>entry_id = 0, entry_v = [''/f''], entry_inum = [0], kathread = None\<rparr> = Inr k \<and>
     ds (after_log two_sessions) ''/f'' = Some (m, c0) \<and>
    (if k = instance_num m \<and> file_exists m then
       \<exists>s'. apply_action (SetContentAction 0 0 ''x'') (after_log two_sessions) = Inr (Response 0 ''OK'', s') \<and>
         sdb s' = sdb (after_log two_sessions) \<and> ds s' = (ds (after_log two_sessions))(''/f'' \<mapsto> (m, ''x''))
     else
       apply_action (SetContentAction 0 0 ''x'') (after_log two_sessions) =
         Inr (Response (-1) (if k \<noteq> instance_num m then ''Instance num mismatch'' else ''File does not exist''),
           after_log two_sessions))"
proof (rule set_content_spec)
  show "reaches two_sessions (after_log two_sessions)" by (rule reaches_after) code_simp
  show "session_of (after_log two_sessions) 0 =
      Some \<lparr>entry_id = 0, entry_v = [''/f''], entry_inum = [0], kathread = None\<rparr>" by code_simp
  show "fh_to_key 0 \<lparr>entry_id = 0, entry_v = [''/f''], entry_inum = [0], kathread = None\<rparr> = Inr ''/f''"
    by code_simp
qed (simp add: two_sessions_def)

text \<open>
  C27: deleting a file. When a \<open>DeleteAction\<close> through a handle to \<open>p\<close> succeeds, the
  file no longer exists, its content is empty, its instance number is one higher and its lock is free;
  the directory above lost the name as \<open>remove_child\<close> removes it; every session that owned
  the lock, and no other, got an event enqueued, which carries the handle number of the
  deleting session; no other file changes.
\<close>

theorem delete_effects:
  assumes "resolves s x fh p" and "ds s p = Some (m, c)" and "parent_path p \<noteq> p"
    and "apply_action (DeleteAction x fh) s = Inr (r, s')"
  shows "\<exists>m' pm pc. r = Response 0 [] \<and> ds s' p = Some (m', []) \<and> \<not> file_exists m' \<and>
    instance_num m' = instance_num m + 1 \<and> abs_lock m' = Free \<and> subscribers m' = subscribers m \<and>
    ds s (parent_path p) = Some (pm, pc) \<and>
    ds s' (parent_path p) =
      Some (pm, case remove_child pc (filename p) of Some pc' \<Rightarrow> pc' | None \<Rightarrow> pc) \<and>
    (\<forall>q. q \<noteq> p \<and> q \<noteq> parent_path p \<longrightarrow> ds s' q = ds s q) \<and>
    (\<forall>j. find_session j (sdb s') =
       (if j \<in> lock_owners m then map_option (\<lambda>e. snd (entry_enqueue_event fh e)) (find_session j (sdb s))
        else find_session j (sdb s)))"
proof -
  have ap: "apply_delete x fh s = Inr (r, s')" using assms(4) by simp
  show ?thesis
    by (rule delete_effect [OF ap assms(1-3)]) (simp add: meta_delete_def abs_lock_def)
qed

theorem delete_effects_witness:
  "\<exists>m'. ds (after_log (locked_log @ [DeleteAction 1 0])) ''/f'' = Some (m', []) \<and> \<not> file_exists m' \<and>
    instance_num m' = instance_num (fst (the (ds (after_log locked_log) ''/f''))) + 1 \<and> abs_lock m' = Free"
proof -
  have 1: "resolves (after_log locked_log) 1 0 ''/f''" by code_simp
  have 2: "ds (after_log locked_log) ''/f'' = Some (fst (the (ds (after_log locked_log) ''/f'')), [])" by code_simp
  have 3: "parent_path ''/f'' \<noteq> ''/f''" by code_simp
  have 4: "apply_action (DeleteAction 1 0) (after_log locked_log) =
      Inr (Response 0 [], after_log (locked_log @ [DeleteAction 1 0]))"
    by (rule step_after) code_simp
  show ?thesis using delete_effects [OF 1 2 3 4] by blast
qed

text \<open>
  C3: a handle that was current when its file was deleted can never write again. If the
  file \<open>p\<close> is deleted while session \<open>y\<close> has a handle \<open>i\<close> to it with its current
  instance number, then after any further actions, among them opens that create \<open>p\<close> again,
  every write through that handle is answered "Instance num mismatch" and changes nothing, as
  long as the session exists.
\<close>

theorem deleted_handles_stay_stale:
  assumes "reaches as s" and "reaches (as @ DeleteAction x fh # bs) s'" and "length as + length bs < 2 ^ 31 - 1"
    and "resolves s x fh p" and "parent_path p \<noteq> p" and "ds s p = Some (m, c)"
    and "session_of s y = Some e" and "i < length (entry_v e)" and "entry_v e ! i = p"
    and "entry_inum e ! i = instance_num m" and "session_of s' y \<noteq> None"
  shows "apply_action (SetContentAction y (of_nat i) c') s' = Inr (Response (-1) ''Instance num mismatch'', s')"
proof -
  have inv: "sm_inv (length as) s" "sm_inv (length (as @ DeleteAction x fh # bs)) s'"
    using reaches_inv [OF assms(1)] reaches_inv [OF assms(2)] assms(3) by simp_all
  obtain r s1 rs where dl: "apply_delete x fh s = Inr (r, s1)" and rl: "run_log bs s1 = Inr (rs, s')"
    using reaches_appendD [OF assms(1,2)] by (auto simp: result_simps)
  have inv1: "sm_inv (Suc (length as)) s1" using apply_delete_inv [OF inv(1) _ dl] assms(3) by simp
  have ev: "evolves s1 s'" by (rule run_log_evolves [OF inv1 _ rl]) (use assms(3) in simp)
  have st: "stale s1 (int_of_int64 y) i p"
    using delete_makes_stale [OF inv(1) _ dl assms(4-6)] assms(3,7-10) by (simp add: session_of_def)
  obtain e' where e': "find_session (int_of_int64 y) (sdb s') = Some e'" using assms(11) by (auto simp: session_of_def)
  have "i < 2 ^ 31" using assms(3,8) sm_inv_entry [OF inv(1), of "int_of_int64 y" e] assms(7)
    by (simp add: entry_ok_def session_of_def)
  then show ?thesis using stale_set_content [OF stale_evolves [OF st ev inv(2) e'] _ inv(2)] by simp
qed

theorem deleted_handles_stay_stale_witness:
  "apply_action (SetContentAction 0 (of_nat 0) ''x'')
     (after_log (locked_log @ DeleteAction 1 0 # [OpenAction 1 ''/f'' 0 0])) =
   Inr (Response (-1) ''Instance num mismatch'',
     after_log (locked_log @ DeleteAction 1 0 # [OpenAction 1 ''/f'' 0 0]))"
proof (rule deleted_handles_stay_stale)
  show "reaches locked_log (after_log locked_log)" by (rule reaches_after) code_simp
  show "reaches (locked_log @ DeleteAction 1 0 # [OpenAction 1 ''/f'' 0 0])
      (after_log (locked_log @ DeleteAction 1 0 # [OpenAction 1 ''/f'' 0 0]))"
    by (rule reaches_after) code_simp
  show "resolves (after_log locked_log) 1 0 ''/f''" by code_simp
  show "parent_path ''/f'' \<noteq> ''/f''" by code_simp
  show "ds (after_log locked_log) ''/f'' = Some (fst (the (ds (after_log locked_log) ''/f'')), [])" by code_simp
  show "session_of (after_log locked_log) 0 =
      Some \<lparr>entry_id = 0, entry_v = [''/f''], entry_inum = [0], kathread = None\<rparr>" by code_simp
  show "entry_inum \<lparr>entry_id = 0, entry_v = [''/f''], entry_inum = [0], kathread = None\<rparr> ! 0 =
      instance_num (fst (the (ds (after_log locked_log) ''/f'')))" by code_simp
  show "session_of (after_log (locked_log @ DeleteAction 1 0 # [OpenAction 1 ''/f'' 0 0])) 0 \<noteq> None" by code_simp
qed (simp_all add: locked_log_def two_sessions_def)

text \<open>
  A delete, unlike a write, does not look at the handle's instance number. A handle that became
  stale when its file was deleted still deletes the file that was created again under the same
  name: the second delete is answered 0, and the file of the other session is gone.
\<close>

theorem stale_handle_deletes_recreated_file:
  "map_sum id fst (run_log (two_sessions @
     [DeleteAction 0 0, OpenAction 0 ''/f'' 0 0, SetContentAction 1 0 ''x'', DeleteAction 1 0,
      SetContentAction 0 1 ''x'']) init_state) =
   Inr [StartSessionReturn 0 ''OK'' 0, StartSessionReturn 0 ''OK'' 1, OpenReturn 0 ''OK'' 0, OpenReturn 0 ''OK'' 0,
     Response 0 [], OpenReturn 0 ''OK'' 1, Response (-1) ''Instance num mismatch'', Response 0 [],
     Response (-1) ''Instance num mismatch'']"
  by code_simp

text \<open>
  The listing of a directory is corrupted by deleting a file whose name is a prefix of the
  name of a sibling created earlier. The search for the name finds the sibling's entry: after
  creating "/ab" and "/a" and deleting "/a", the listing has "b" in place of "ab", and still has the
  deleted "a".
\<close>

theorem delete_corrupts_listing:
  "content_of (after_log [StartSessionAction, OpenAction 0 ''/ab'' 0 0, OpenAction 0 ''/a'' 0 0]) ''/'' =
     Some (listing [''ab'', ''a'']) \<and>
   content_of (after_log [StartSessionAction, OpenAction 0 ''/ab'' 0 0, OpenAction 0 ''/a'' 0 0, DeleteAction 0 1]) ''/'' =
     Some (''b'' @ listing [''a''])"
  by (rule conjI) code_simp+

section \<open>Replication\<close>

text \<open>
  C21: replicas agree. Two replicas whose states differ at most in their keep-alive threads
  (which only the leader runs) either both fail on a log with the same crash, or give the same replies
  and end in states that again differ at most there.
\<close>

theorem replicas_agree:
  assumes "strip s = strip t"
  shows "map_sum id (map_prod id strip) (run_log as s) = map_sum id (map_prod id strip) (run_log as t)"
  using rsm.steps_view [of as s] rsm.steps_view [of as t] assms unfolding run_log_steps by simp

theorem replicas_agree_witness:
  "map_sum id (map_prod id strip) (run_log [DeleteAction 0 0]
     ((after_log locked_log)\<lparr>sdb := db_start_kathread (\<lambda>_. 5) (sdb (after_log locked_log))\<rparr>)) =
   map_sum id (map_prod id strip) (run_log [DeleteAction 0 0] (after_log locked_log))"
proof (rule replicas_agree)
  have "strip_db (db_start_kathread e0 d) = strip_db d" for e0 d
    by (auto simp: strip_db_def db_start_kathread_def strip_entry_def entry_start_kathread_def option.map_comp
        intro!: db_eqI ext option.map_cong)
  then show "strip ((after_log locked_log)\<lparr>sdb := db_start_kathread (\<lambda>_. 5) (sdb (after_log locked_log))\<rparr>) =
      strip (after_log locked_log)"
    by (simp add: strip_def)
qed

section \<open>Commit\<close>




text \<open>A session that leaves one ephemeral file in a directory with a path of ten characters.\<close>

definition long_parent_log :: "action list" where
  "long_parent_log = [StartSessionAction, OpenAction 0 ''/directory'' 1 0, OpenAction 0 ''/directory/e'' 0 1]"


end
