(* ===== verification/Skinny_Properties.thy ===== *)
theory Skinny_Properties
  imports Skinny_Impl SM_Properties
begin

text \<open>
  The properties of the RPC handlers: what they answer for any replication library, and, on a leader
  without competing entries (\<open>leader_raft\<close>), what a call does to the files, when it notifies
  and when it returns.
\<close>

section \<open>Reachable states of a leader\<close>

text \<open>A server that committed a log and runs keep-alive threads, in whatever state they are.\<close>

definition leader_reaches :: "action list \<Rightarrow> sm_state \<Rightarrow> bool" where
  "leader_reaches as s \<longleftrightarrow>
     (\<exists>s0. reaches as s0 \<and> ds s = ds s0 \<and> strip_db (sdb s) = strip_db (sdb s0))"

lemma strip_entry_eq:
  "strip_entry a = strip_entry b \<Longrightarrow> entry_id a = entry_id b \<and> entry_v a = entry_v b \<and> entry_inum a = entry_inum b"
  by (cases a; cases b) (simp add: strip_entry_def)

lemma strip_same_handles:
  assumes "strip_db d = strip_db d'"
  shows "same_handles d d'"
proof -
  have "session_db (strip_db d) sid = session_db (strip_db d') sid" "next_id (strip_db d) = next_id (strip_db d')" for sid
    using assms by simp_all
  then have f: "map_option strip_entry (find_session sid d) = map_option strip_entry (find_session sid d')"
    and nx: "next_id d = next_id d'" for sid
    by (simp_all add: strip_db_def find_session_def)
  then have "map_option (\<lambda>e. (entry_id e, entry_v e, entry_inum e)) (find_session sid d') =
      map_option (\<lambda>e. (entry_id e, entry_v e, entry_inum e)) (find_session sid d)" for sid
    using f [of sid]
    by (cases "find_session sid d"; cases "find_session sid d'") (auto dest: strip_entry_eq)
  then show ?thesis using nx by (simp add: same_handles_def)
qed

lemma leader_reaches_inv:
  assumes "leader_reaches as s" and "length as < 2 ^ 31"
  shows "sm_inv (length as) s"
proof -
  obtain s0 where s0: "reaches as s0" "ds s = ds s0" "strip_db (sdb s) = strip_db (sdb s0)"
    using assms(1) by (auto simp: leader_reaches_def)
  have "sm_inv (length as) (s0\<lparr>sdb := sdb s\<rparr>)"
    using sm_inv_same_handles [OF reaches_inv [OF s0(1) assms(2)] strip_same_handles] s0(3) by metis
  then show ?thesis using s0(2) by (simp add: sm_inv_def)
qed

lemma strip_start_kathread: "strip_db (db_start_kathread e0 d) = strip_db d"
  by (auto simp: strip_db_def db_start_kathread_def strip_entry_def entry_start_kathread_def option.map_comp
      intro!: db_eqI ext option.map_cong)

lemma leader_evolves:
  assumes "leader_reaches as s" and "leader_reaches (as @ bs) s1" and "length (as @ bs) < 2 ^ 31"
  shows "evolves s s1"
proof -
  obtain s0 where s0: "reaches as s0" "ds s = ds s0" "strip_db (sdb s) = strip_db (sdb s0)"
    using assms(1) by (auto simp: leader_reaches_def)
  obtain s2 where s2: "reaches (as @ bs) s2" "ds s1 = ds s2" "strip_db (sdb s1) = strip_db (sdb s2)"
    using assms(2) by (auto simp: leader_reaches_def)
  have inv: "sm_inv (length as) s0" "sm_inv (length (as @ bs)) s2" "sm_inv (length as) s"
    using reaches_inv [OF s0(1)] reaches_inv [OF s2(1)] leader_reaches_inv [OF assms(1)] assms(3) by simp_all
  obtain rs where "run_log bs s0 = Inr (rs, s2)" using reaches_appendD [OF s0(1) s2(1)] by blast
  then have 2: "evolves s0 s2" using run_log_evolves [OF inv(1)] assms(3) by simp
  have 1: "evolves s s0"
    using evolves_same_handles [OF strip_same_handles [OF s0(3)]] s0(2) by (simp add: evolves_def)
  have 3: "evolves s2 s1"
    using evolves_same_handles [OF strip_same_handles [OF s2(3) [symmetric]]] s2(2) by (simp add: evolves_def)
  show ?thesis using evolves_trans [OF inv(3) 1 evolves_trans [OF inv(1) 2 3]] .
qed

text \<open>The leader after a log whose threads have just been started, with event counters \<open>k\<close>.\<close>

definition new_leader :: "i32 \<Rightarrow> action list \<Rightarrow> sm_state" where
  "new_leader k as = (after_log as)\<lparr>sdb := db_start_kathread (\<lambda>_. k) (sdb (after_log as))\<rparr>"

lemma new_leader_reaches: "runs as \<Longrightarrow> leader_reaches as (new_leader k as)"
  using reaches_after [of as] strip_start_kathread by (auto simp: leader_reaches_def new_leader_def)

section \<open>Appending on the leader\<close>

lemma leader_append:
  assumes B: "buffer_api B" and fits: "action_fits a" and ap: "apply_action a s = Inr (r, s1)"
    and ne: "\<not> is_end_session r"
  shows "\<exists>buf. serialize_ret B r = Inr buf \<and> read_response B buf = Inr (ret_res r, ret_msg r) \<and>
    (\<forall>none k. append_action (leader_raft B) B a none k s =
      (if 0 \<le> sint (ret_res r) then k buf (s1\<lparr>last_committed_idx := 0\<rparr>)
       else reply (\<lparr>error_code = ABORTED, error_message = ret_msg r\<rparr>, none) (s1\<lparr>last_committed_idx := 0\<rparr>)))"
proof -
  obtain bs where bs: "serialize_action B a = Inr bs"
    using buffer_api.serialize_struct_total [OF B] unfolding serialize_action_def by blast
  obtain buf where "commit B 0 bs s = Inr (buf, s1\<lparr>last_committed_idx := 0\<rparr>)" "serialize_ret B r = Inr buf"
      "read_response B buf = Inr (ret_res r, ret_msg r)"
    using commit_reply [OF B fits bs ap ne] by blast
  then show ?thesis using bs
    by (intro exI [of _ buf]) (simp add: append_action_def leader_raft_def parse_raft_result_def is_ok_def
        status_ok_def ABORTED_def)
qed

lemma leader_crash:
  assumes B: "buffer_api B" and fits: "action_fits a" and ap: "apply_action a s = Inl c"
  shows "append_action (leader_raft B) B a none k s = Inl c"
proof -
  obtain bs where bs: "serialize_action B a = Inr bs"
    using buffer_api.serialize_struct_total [OF B] unfolding serialize_action_def by blast
  then show ?thesis using commit_serialized [OF B fits bs] ap by (simp add: append_action_def leader_raft_def)
qed

lemma sm_inv_last [simp]: "sm_inv n (s\<lparr>last_committed_idx := i\<rparr>) = sm_inv n s"
  by (simp add: sm_inv_def)

section \<open>For any replication library\<close>

lemma append_action_returns:
  assumes "append_action R B a none k s = Inr (Return (st, x), s')"
  shows "(\<not> is_ok st \<and> x = none \<and> error_code st \<in> {ABORTED, code_of NOT_LEADER}) \<or>
    (\<exists>raft_ret s1. parse_raft_result R B raft_ret = Inr status_ok \<and>
       k (result_buf raft_ret) s1 = Inr (Return (st, x), s') \<and>
       (\<exists>res msg. read_response B (result_buf raft_ret) = Inr (res, msg) \<and> 0 \<le> sint res))"
proof -
  obtain bs raft_ret s1 st1 where 1: "append_entries R bs s = Inr (raft_ret, s1)"
    and p: "parse_raft_result R B raft_ret = Inr st1"
    and k: "(if \<not> is_ok st1 then reply (st1, none) s1 else k (result_buf raft_ret) s1) = Inr (Return (st, x), s')"
    using assms by (auto simp: append_action_def result_simps)
  from p have "error_code st1 \<in> {ABORTED, code_of NOT_LEADER} \<or> st1 = status_ok \<and>
      (\<exists>res msg. read_response B (result_buf raft_ret) = Inr (res, msg) \<and> 0 \<le> sint res)"
    by (auto simp: parse_raft_result_def status_ok_def result_simps split: if_splits)
  then show ?thesis using k p by (auto simp: reply_def is_ok_def status_ok_def ABORTED_def split: if_splits)
qed

text \<open>
  The status LOCK_RELATED is never sent. Whatever the replication library answers,
  neither \<open>TryAcquire\<close> nor \<open>Release\<close> ever returns it: every negative reply of the state
  machine has already been turned into ABORTED when they test for it.
\<close>

theorem lock_related_never_sent:
  "(TryAcquire R B x fh ex s = Inr (Return (st, res), s') \<longrightarrow> error_code st \<noteq> code_of LOCK_RELATED) \<and>
   (Release R B x fh s = Inr (Return (st', ()), s') \<longrightarrow> error_code st' \<noteq> code_of LOCK_RELATED)"
proof (intro conjI impI)
  have m1: "\<not> 0 \<le> sint (-1 :: i32)" by simp
  show "error_code st \<noteq> code_of LOCK_RELATED" if t: "TryAcquire R B x fh ex s = Inr (Return (st, res), s')"
    using t m1
    by (auto simp: TryAcquire_def reply_def session_not_found_status_def CANCELLED_def status_ok_def ABORTED_def
        result_simps split: option.splits if_splits dest!: append_action_returns)
  show "error_code st' \<noteq> code_of LOCK_RELATED" if t: "Release R B x fh s = Inr (Return (st', ()), s')"
    using t
    by (auto simp: Release_def reply_def session_not_found_status_def CANCELLED_def status_ok_def ABORTED_def
        result_simps split: option.splits if_splits dest!: append_action_returns)
qed

theorem lock_related_never_sent_witness:
  "TryAcquire (leader_raft le_buf) le_buf 5 0 True init_state = Inr (Return (session_not_found_status, None), init_state) \<and>
   error_code session_not_found_status \<noteq> code_of LOCK_RELATED"
proof -
  have "TryAcquire (leader_raft le_buf) le_buf 5 0 True init_state =
      Inr (Return (session_not_found_status, None), init_state)"
    by (simp add: TryAcquire_def init_state_def find_session_def empty_db_def reply_def)
  then show ?thesis
    using lock_related_never_sent [of "leader_raft le_buf" le_buf 5 0 True init_state session_not_found_status None init_state]
    by blast
qed

section \<open>Writing and reading on the leader\<close>

lemma leader_set_content:
  assumes B: "buffer_api B" and inv: "sm_inv n s" and e: "session_of s x = Some e" and key: "fh_to_key fh e = Inr p"
    and m: "ds s p = Some (m, c0)" and cur: "handle_inum fh e = Inr (instance_num m)" and ex: "file_exists m"
    and len: "length c < 2 ^ 32"
  shows "\<exists>d. notified_db (subscribers m) (sdb s) d \<and>
    SetContent (leader_raft B) B x fh c s =
      (let s1 = s\<lparr>ds := (ds s)(p \<mapsto> (m, c)), sdb := d, last_committed_idx := 0\<rparr>;
           waits = event_waits (subscribers m) (sdb s)
       in Inr (if waits = [] then Return (status_ok, ())
               else Await (all_acked waits)
                 (\<lambda>s2. Inr (Return (status_ok, ()), s2\<lparr>sdb := block_returns waits (sdb s2)\<rparr>)), s1))"
proof -
  have fits: "action_fits (SetContentAction x fh c)" using len by (simp add: action_fits_def)
  have ap: "apply_action (SetContentAction x fh c) s = Inr (Response 0 ''OK'', set_file p (m, c) s)"
    using set_content_effect [OF e key m cur] ex by simp
  let ?s = "(set_file p (m, c) s)\<lparr>last_committed_idx := 0\<rparr>"
  have inv1: "sm_inv n ?s" using sm_inv_content [OF inv m] by simp
  have m1: "ds ?s p = Some (m, c)" by simp
  have e1: "find_session (int_of_int64 x) (sdb ?s) = Some e" using e by (simp add: session_of_def)
  obtain buf where ap: "append_action (leader_raft B) B (SetContentAction x fh c) () k s = k buf ?s"
    for k :: "byte list \<Rightarrow> (status \<times> unit) handler"
    using leader_append [where 'a = unit, OF B fits ap] by (auto simp: is_end_session_def)
  obtain d where d: "notified_db (subscribers m) (sdb ?s) d"
    "notify_events p (reply (status_ok, ())) ?s =
      (let s1 = ?s\<lparr>sdb := d\<rparr>; waits = event_waits (subscribers m) (sdb ?s) in
       if waits = [] then reply (status_ok, ()) s1
       else Inr (Await (all_acked waits) (\<lambda>s2. reply (status_ok, ()) (s2\<lparr>sdb := block_returns waits (sdb s2)\<rparr>)), s1))"
    using notify_events_live [OF inv1 m1] by blast
  then show ?thesis using e1 key
    by (intro exI [of _ d]) (simp add: SetContent_def ap Let_def reply_def set_file_def)
qed

text \<open>
  C2: a write reaches every subscriber before it returns. On the leader, a
  \<open>SetContent\<close> call through a current handle to an existing file stores the content, so that
  every \<open>GetContent\<close> through any handle to the file returns it; every subscriber whose session
  has a keep-alive thread gets exactly one event, at the end of its queue, with its own handle; and
  however the rest of the system moves, the call returns, with status OK, only from a state in which each
  of these events has been acknowledged, or its session has ended or expired.
\<close>

theorem set_content_notifies_subscribers:
  assumes "buffer_api B" and "leader_reaches as s" and "length as < 2 ^ 31" and "session_of s x = Some e"
    and "fh_to_key fh e = Inr p" and "ds s p = Some (m, c0)" and "handle_inum fh e = Inr (instance_num m)"
    and "file_exists m" and "length c < 2 ^ 32"
  shows "\<exists>pr s1. SetContent (leader_raft B) B x fh c s = Inr (pr, s1) \<and>
    (\<forall>y g. resolves s1 y g p \<longrightarrow> GetContent (leader_raft B) y g s1 = Inr (Return (status_ok, c), s1)) \<and>
    (\<forall>sid f t. (sid, f) \<in> set (subscribers m) \<longrightarrow> thread_of sid (sdb s) = Some t \<longrightarrow>
       (\<exists>t1. thread_of sid (sdb s1) = Some t1 \<and> event_queue t1 = event_queue t @ [(event_id t, f)])) \<and>
    (\<forall>env r s3. finishes env pr s1 r s3 \<longrightarrow> r = (status_ok, ()) \<and>
       (\<exists>s2. (env s1 s2 \<or> s2 = s1) \<and>
          (\<forall>sid f t t2. (sid, f) \<in> set (subscribers m) \<longrightarrow> thread_of sid (sdb s) = Some t \<longrightarrow>
             thread_of sid (sdb s2) = Some t2 \<longrightarrow> ka_unblocked (event_id t) t2)))"
proof -
  have inv: "sm_inv (length as) s" using leader_reaches_inv assms(2,3) .
  have dist: "distinct (map fst (subscribers m))" using sm_inv_meta [OF inv assms(6)] by (simp add: meta_ok_def)
  let ?w = "event_waits (subscribers m) (sdb s)"
  obtain d where d: "notified_db (subscribers m) (sdb s) d"
    and sc: "SetContent (leader_raft B) B x fh c s =
      Inr (if ?w = [] then Return (status_ok, ())
           else Await (all_acked ?w) (\<lambda>s2. Inr (Return (status_ok, ()), s2\<lparr>sdb := block_returns ?w (sdb s2)\<rparr>)),
         s\<lparr>ds := (ds s)(p \<mapsto> (m, c)), sdb := d, last_committed_idx := 0\<rparr>)"
    using leader_set_content [OF assms(1) inv assms(4-9)] by (auto simp: Let_def)
  let ?s1 = "s\<lparr>ds := (ds s)(p \<mapsto> (m, c)), sdb := d, last_committed_idx := 0\<rparr>"
  let ?pr = "if ?w = [] then Return (status_ok, ())
           else Await (all_acked ?w) (\<lambda>s2. Inr (Return (status_ok, ()), s2\<lparr>sdb := block_returns ?w (sdb s2)\<rparr>))"
  have get: "GetContent (leader_raft B) y g ?s1 = Inr (Return (status_ok, c), ?s1)" if "resolves ?s1 y g p" for y g
    using that by (auto simp: GetContent_def resolves_def leader_raft_def reply_def)
  have ev: "\<exists>t1. thread_of sid (sdb ?s1) = Some t1 \<and> event_queue t1 = event_queue t @ [(event_id t, f)]"
    if "(sid, f) \<in> set (subscribers m)" "thread_of sid (sdb s) = Some t" for sid f t
    using notified_thread [OF d dist that] by (simp add: ka_enqueue_event_def Let_def)
  have fin: "r = (status_ok, ()) \<and> (\<exists>s2. (env ?s1 s2 \<or> s2 = ?s1) \<and>
          (\<forall>sid f t t2. (sid, f) \<in> set (subscribers m) \<longrightarrow> thread_of sid (sdb s) = Some t \<longrightarrow>
             thread_of sid (sdb s2) = Some t2 \<longrightarrow> ka_unblocked (event_id t) t2))"
    if f: "finishes env ?pr ?s1 r s3" for env r s3
  proof (cases "?w = []")
    case True
    then have "(sid, f) \<in> set (subscribers m) \<Longrightarrow> thread_of sid (sdb s) \<noteq> Some t" for sid f t
      using event_waits_mem [of sid f "subscribers m" "sdb s" t] by auto
    then show ?thesis using f True by (auto simp: finishes_Return)
  next
    case False
    then obtain s2 where "env ?s1 s2" "all_acked ?w s2" "r = (status_ok, ())"
      using f by (auto simp: finishes_Await finishes_Return)
    moreover have "ka_unblocked (event_id t) t2"
      if "(sid, f) \<in> set (subscribers m)" "thread_of sid (sdb s) = Some t" "thread_of sid (sdb s2) = Some t2"
      for sid f t t2
      using all_acked_wait [OF \<open>all_acked ?w s2\<close> event_waits_mem [OF that(1,2)] that(3)] .
    ultimately show ?thesis by blast
  qed
  show ?thesis using sc get ev fin by blast
qed

theorem set_content_notifies_subscribers_witness:
  "\<exists>pr s1 t1. SetContent (leader_raft le_buf) le_buf 0 0 ''x'' (new_leader 5 two_sessions) = Inr (pr, s1) \<and>
     thread_of 1 (sdb s1) = Some t1 \<and> event_queue t1 = [(5, 0)]"
proof -
  let ?m = "new_file_meta\<lparr>file_exists := True, is_ephemeral := Some False, subscribers := [(0, 0), (1, 0)]\<rparr>"
  let ?e = "\<lparr>entry_id = 0, entry_v = [''/f''], entry_inum = [0], kathread = Some (new_kathread 5 0)\<rparr>"
  have t: "thread_of 1 (sdb (new_leader 5 two_sessions)) = Some (new_kathread 5 1)" by code_simp
  have "\<exists>pr s1. SetContent (leader_raft le_buf) le_buf 0 0 ''x'' (new_leader 5 two_sessions) = Inr (pr, s1) \<and>
    (\<forall>y g. resolves s1 y g ''/f'' \<longrightarrow> GetContent (leader_raft le_buf) y g s1 = Inr (Return (status_ok, ''x''), s1)) \<and>
    (\<forall>sid f t. (sid, f) \<in> set (subscribers ?m) \<longrightarrow> thread_of sid (sdb (new_leader 5 two_sessions)) = Some t \<longrightarrow>
       (\<exists>t1. thread_of sid (sdb s1) = Some t1 \<and> event_queue t1 = event_queue t @ [(event_id t, f)])) \<and>
    (\<forall>env r s3. finishes env pr s1 r s3 \<longrightarrow> r = (status_ok, ()) \<and>
       (\<exists>s2. (env s1 s2 \<or> s2 = s1) \<and>
          (\<forall>sid f t t2. (sid, f) \<in> set (subscribers ?m) \<longrightarrow> thread_of sid (sdb (new_leader 5 two_sessions)) = Some t \<longrightarrow>
             thread_of sid (sdb s2) = Some t2 \<longrightarrow> ka_unblocked (event_id t) t2)))"
  proof (rule set_content_notifies_subscribers [OF le.buffer_api_axioms])
    show "leader_reaches two_sessions (new_leader 5 two_sessions)" by (rule new_leader_reaches) code_simp
    show "session_of (new_leader 5 two_sessions) 0 = Some ?e" by code_simp
    show "fh_to_key 0 ?e = Inr ''/f''" by code_simp
    show "ds (new_leader 5 two_sessions) ''/f'' = Some (?m, [])" by code_simp
    show "handle_inum 0 ?e = Inr (instance_num ?m)" by code_simp
  qed (simp_all add: two_sessions_def)
  then obtain pr s1 where s1: "SetContent (leader_raft le_buf) le_buf 0 0 ''x'' (new_leader 5 two_sessions) = Inr (pr, s1)"
    and ev: "\<forall>sid f t. (sid, f) \<in> set (subscribers ?m) \<longrightarrow> thread_of sid (sdb (new_leader 5 two_sessions)) = Some t \<longrightarrow>
       (\<exists>t1. thread_of sid (sdb s1) = Some t1 \<and> event_queue t1 = event_queue t @ [(event_id t, f)])"
    by (elim exE conjE)
  have "\<exists>t1. thread_of 1 (sdb s1) = Some t1 \<and> event_queue t1 = event_queue (new_kathread 5 1) @ [(event_id (new_kathread 5 1), 0)]"
    by (rule ev [rule_format, OF _ t]) simp
  then show ?thesis using s1 by (auto simp: new_kathread_def)
qed

section \<open>Locks on the leader\<close>

lemma lock_state_idx [simp]: "lock_state (s\<lparr>last_committed_idx := i\<rparr>) = lock_state s"
  by (rule ext) (simp add: lock_state_def)

lemma acq_reply:
  assumes "apply_acq x fh ex s = Inr (r, s1)"
  shows "\<not> is_end_session r"
  using assms by (auto simp: apply_acq_def Let_def result_simps is_end_session_def split: option.splits if_splits)

lemma leader_acquire:
  assumes B: "buffer_api B" and inv: "sm_inv n s" and re: "resolves s x fh p" and l: "lock_state s p = Some l"
    and g: "rw_acquire ex (int_of_int64 x) l = (granted, l')"
  shows "\<exists>buf msg s1. (\<forall>(none :: (i32 \<times> string) option) k.
      append_action (leader_raft B) B (AcqAction x fh (int_of_bool ex)) none k s = k buf s1) \<and>
    read_response B buf = Inr (if granted then 0 else 1, msg) \<and> lock_state s1 = (lock_state s)(p \<mapsto> l') \<and> sdb s1 = sdb s"
proof -
  have fits: "action_fits (AcqAction x fh (int_of_bool ex))" by (simp add: action_fits_def)
  obtain r s1 where ap: "apply_acq x fh (int_of_bool ex) s = Inr (r, s1)" and r: "ret_res r = (if granted then 0 else 1)"
    and s1: "lock_state s1 = (lock_state s)(p \<mapsto> l')" "sdb s1 = sdb s"
    using acq_effect [OF inv re l, of "int_of_bool ex" granted l'] g by auto
  have nn: "0 \<le> sint (ret_res r)" using r by simp
  from ap have "apply_action (AcqAction x fh (int_of_bool ex)) s = Inr (r, s1)" by simp
  from leader_append [where 'a = "(i32 \<times> string) option", OF B fits this acq_reply [OF ap]] nn r
  obtain buf where "\<forall>(none :: (i32 \<times> string) option) k.
      append_action (leader_raft B) B (AcqAction x fh (int_of_bool ex)) none k s = k buf (s1\<lparr>last_committed_idx := 0\<rparr>)"
    and "read_response B buf = Inr (if granted then 0 else 1, ret_msg r)" by auto
  then show ?thesis using s1
    by (intro exI [of _ buf] exI [of _ "ret_msg r"] exI [of _ "s1\<lparr>last_committed_idx := 0\<rparr>"]) simp
qed

text \<open>
  \<open>TryAcquire\<close> answers as the abstract lock does. On the leader, a call through a handle
  answers -1 if the file was deleted since the handle was opened, else -2 if the file does not exist;
  otherwise it answers 0 or 1 as the abstract \<open>rw_acquire\<close> grants or refuses, and the
  lock of the file, and no other, becomes its result.
\<close>

theorem try_acquire_spec:
  assumes "buffer_api B" and "leader_reaches as s" and "length as < 2 ^ 31" and "session_of s x = Some e"
    and "fh_to_key fh e = Inr p" and "ds s p = Some (m, c)" and "rw_acquire ex (int_of_int64 x) (abs_lock m) = (granted, l')"
  shows "\<exists>k. handle_inum fh e = Inr k \<and>
    (if k \<noteq> instance_num m then
       TryAcquire (leader_raft B) B x fh ex s = Inr (Return (status_ok, Some (-1, ''Instance num mismatch'')), s)
     else if \<not> file_exists m then
       TryAcquire (leader_raft B) B x fh ex s = Inr (Return (status_ok, Some (-2, ''File does not exist'')), s)
     else \<exists>msg s1. TryAcquire (leader_raft B) B x fh ex s =
         Inr (Return (status_ok, Some (if granted then 0 else 1, msg)), s1) \<and>
       lock_state s1 = (lock_state s)(p \<mapsto> l') \<and> sdb s1 = sdb s)"
proof -
  have inv: "sm_inv (length as) s" using leader_reaches_inv assms(2,3) .
  have e: "find_session (int_of_int64 x) (sdb s) = Some e" using assms(4) by (simp add: session_of_def)
  have r: "in_range (entry_v e) fh" using assms(5) fh_to_key_out by fastforce
  obtain k where k: "handle_inum fh e = Inr k" using handle_inum_in_range [OF sm_inv_entry [OF inv e] r] by blast
  have l: "lock_state s p = Some (abs_lock m)" using assms(6) by (simp add: lock_state_def)
  have re: "resolves s x fh p" using e assms(5) by (simp add: resolves_def)
  note la = leader_acquire [OF assms(1) inv re l assms(7)]
  show ?thesis using k la e assms(5,6)
    by (auto simp: TryAcquire_def check_handle_def reply_def)
qed

theorem try_acquire_spec_witness:
  "\<exists>msg s1. TryAcquire (leader_raft le_buf) le_buf 1 0 False (new_leader 5 two_sessions) =
     Inr (Return (status_ok, Some (0, msg)), s1) \<and>
   lock_state s1 = (lock_state (new_leader 5 two_sessions))(''/f'' \<mapsto> Shared {1})"
proof -
  let ?m = "new_file_meta\<lparr>file_exists := True, is_ephemeral := Some False, subscribers := [(0, 0), (1, 0)]\<rparr>"
  let ?e = "\<lparr>entry_id = 1, entry_v = [''/f''], entry_inum = [0], kathread = Some (new_kathread 5 1)\<rparr>"
  have "\<exists>k. handle_inum 0 ?e = Inr k \<and>
    (if k \<noteq> instance_num ?m then
       TryAcquire (leader_raft le_buf) le_buf 1 0 False (new_leader 5 two_sessions) =
         Inr (Return (status_ok, Some (-1, ''Instance num mismatch'')), new_leader 5 two_sessions)
     else if \<not> file_exists ?m then
       TryAcquire (leader_raft le_buf) le_buf 1 0 False (new_leader 5 two_sessions) =
         Inr (Return (status_ok, Some (-2, ''File does not exist'')), new_leader 5 two_sessions)
     else \<exists>msg s1. TryAcquire (leader_raft le_buf) le_buf 1 0 False (new_leader 5 two_sessions) =
         Inr (Return (status_ok, Some (if True then 0 else 1, msg)), s1) \<and>
       lock_state s1 = (lock_state (new_leader 5 two_sessions))(''/f'' \<mapsto> Shared {1}) \<and>
       sdb s1 = sdb (new_leader 5 two_sessions))"
  proof (rule try_acquire_spec [OF le.buffer_api_axioms])
    show "leader_reaches two_sessions (new_leader 5 two_sessions)" by (rule new_leader_reaches) code_simp
    show "session_of (new_leader 5 two_sessions) 1 = Some ?e" by code_simp
    show "fh_to_key 0 ?e = Inr ''/f''" by code_simp
    show "ds (new_leader 5 two_sessions) ''/f'' = Some (?m, [])" by code_simp
    show "rw_acquire False (int_of_int64 1) (abs_lock ?m) = (True, Shared {1})" by code_simp
  qed (simp add: two_sessions_def)
  moreover have "handle_inum 0 ?e = Inr 0" by code_simp
  ultimately show ?thesis by (auto simp: new_file_meta_def)
qed

text \<open>What \<open>Acquire\<close> does when it resumes.\<close>

lemma session_object_gone:
  "find_session (entry_id e) d = None \<Longrightarrow> in_range (entry_v e) fh \<Longrightarrow> length (entry_inum e) = length (entry_v e) \<Longrightarrow>
   handle_inum fh (session_object e d) = Inr (-1)"
  by (auto simp: session_object_def handle_inum_def result_simps in_range_def)

lemma fh_to_key_evolves:
  assumes "entry_evolves e e1" and "fh_to_key fh e = Inr p"
  shows "fh_to_key fh e1 = Inr p"
  using assms by (auto simp: fh_to_key_def result_simps in_range_def entry_evolves_def)

lemma lock_free_grants:
  assumes wf: "lock_wf m" and m: "ds s p = Some (m, c)" and free: "lock_free_for ex p s"
  shows "fst (rw_acquire ex sid (abs_lock m))"
  using wf
proof (cases rule: lock_wf_cases)
  case free
  then show ?thesis by (cases ex) (simp_all add: abs_lock_def)
next
  case shared
  then show ?thesis using free m by (auto simp: lock_free_for_def abs_lock_def)
next
  case exclusive
  then show ?thesis using free m by (simp add: lock_free_for_def)
qed

lemma acquire_resumes:
  assumes B: "buffer_api B" and e: "find_session (int_of_int64 x) (sdb s) = Some e"
    and r: "in_range (entry_v e) fh" and key: "fh_to_key fh e = Inr p"
    and inv: "sm_inv n s" and id: "entry_id e = int_of_int64 x"
    and s1: "leader_reaches bs s1" and ev: "evolves s s1" and bs: "length bs < 2 ^ 31" and free: "lock_free_for ex p s1"
    and f: "f = (\<lambda>s1. bindE (map_at (ds s1) p) (\<lambda>(meta, content).
            bindE (check_handle fh (session_object e (sdb s1)) meta) (\<lambda>bad.
            case bad of
              Some res \<Rightarrow> reply (status_ok, Some res) s1
            | None \<Rightarrow>
                append_action (leader_raft B) B (AcqAction x fh (int_of_bool ex)) None
                  (\<lambda>buf s2. bindE (read_response B buf) (\<lambda>(res, msg).
                     bindE (assertE (res = 0)) (\<lambda>_.
                     reply (status_ok, Some (res, msg)) s2))) s1)))"
  shows "\<exists>res msg s2. f s1 = Inr (Return (status_ok, Some (res, msg)), s2) \<and>
         (res = 0 \<longrightarrow> (\<exists>l. lock_state s1 p = Some l \<and> fst (rw_acquire ex (int_of_int64 x) l) \<and>
            lock_state s2 = (lock_state s1)(p \<mapsto> snd (rw_acquire ex (int_of_int64 x) l)))) \<and>
         (\<forall>e1 m1 c1. session_of s1 x = Some e1 \<longrightarrow> ds s1 p = Some (m1, c1) \<longrightarrow>
            handle_inum fh e1 = Inr (instance_num m1) \<longrightarrow> file_exists m1 \<longrightarrow> res = 0)"
proof -
  have inv1: "sm_inv (length bs) s1" using leader_reaches_inv s1 bs .
  obtain m1 c1 where m1: "ds s1 p = Some (m1, c1)" using free by (auto simp: lock_free_for_def split: option.splits)
  have mok: "meta_ok (length bs) m1" using sm_inv_meta [OF inv1 m1] .
  have len: "length (entry_inum e) = length (entry_v e)" using sm_inv_entry [OF inv e] by (simp add: entry_ok_def)
  show ?thesis
  proof (cases "find_session (int_of_int64 x) (sdb s1)")
    case None
    then have "handle_inum fh (session_object e (sdb s1)) = Inr (-1)"
      using session_object_gone [OF _ r len] id by simp
    moreover have "instance_num m1 \<noteq> -1" using mok by (auto simp: meta_ok_def)
    ultimately show ?thesis using None m1
      by (auto simp: f check_handle_def reply_def session_of_def)
  next
    case (Some e1)
    have so: "session_object e (sdb s1) = e1" using Some id by (simp add: session_object_def)
    have "entry_evolves e e1" using ev e Some by (auto simp: evolves_def db_evolves_def)
    then have key1: "fh_to_key fh e1 = Inr p" using key by (rule fh_to_key_evolves)
    then have r1: "in_range (entry_v e1) fh" using fh_to_key_out by fastforce
    obtain k where k: "handle_inum fh e1 = Inr k" using handle_inum_in_range [OF sm_inv_entry [OF inv1 Some] r1] by blast
    show ?thesis
    proof (cases "k = instance_num m1 \<and> file_exists m1")
      case False
      then show ?thesis using m1 k Some
        by (auto simp: f so check_handle_def reply_def session_of_def)
    next
      case True
      have re: "resolves s1 x fh p" using Some key1 by (simp add: resolves_def)
      have l: "lock_state s1 p = Some (abs_lock m1)" using m1 by (simp add: lock_state_def)
      have "lock_wf m1" using mok by (simp add: meta_ok_def)
      then obtain l' where g: "rw_acquire ex (int_of_int64 x) (abs_lock m1) = (True, l')"
        using lock_free_grants [OF _ m1 free] by (metis prod.collapse)
      obtain buf msg s2 where
          "\<forall>(none :: (i32 \<times> string) option) k. append_action (leader_raft B) B (AcqAction x fh (int_of_bool ex)) none k s1 = k buf s2"
          "read_response B buf = Inr (0, msg)" "lock_state s2 = (lock_state s1)(p \<mapsto> l')"
        using leader_acquire [OF B inv1 re l g] by auto
      then show ?thesis using m1 k True l g
        by (auto simp: f so check_handle_def reply_def assertE_def)
    qed
  qed
qed



end
