(* ===== verification/Server.thy ===== *)
theory Server
  imports Skinny_Properties
begin

text \<open>
  The server process (\<open>server.cpp\<close>): the state \<open>main\<close> builds before it joins the
  cluster, the callback that ends an expired session through the log, and the callback the
  replication library calls when this server becomes the leader. The copy of
  \<open>notify_events\<close> in this file is the same function as that of the handlers.
\<close>

definition main_init :: "sm_state result" where
  "main_init =
     (let ds0 = Map.empty(''/'' \<mapsto> (new_file_meta, [])) in
      bindE (map_at ds0 ''/'') (\<lambda>(m, c).
      let ds1 = ds0(''/'' \<mapsto> (m\<lparr>file_exists := True\<rparr>, c)) in
      bindE (map_at ds1 ''/'') (\<lambda>(m, c).
      let ds2 = ds1(''/'' \<mapsto> (m\<lparr>is_directory := True\<rparr>, c)) in
      Inr (new_state_machine ds2 empty_db))))"

lemma main_init: "main_init = Inr init_state"
  by (simp add: main_init_def init_state_def new_state_machine_def Let_def)

text \<open>This file has its own copy of \<open>notify_events\<close>; it does what the handlers' one does.\<close>

definition server_notify_events :: "string \<Rightarrow> 'r handler \<Rightarrow> 'r handler" where
  "server_notify_events key k s =
     bindE (map_at (ds s) key) (\<lambda>(meta, content).
     bindE (notify_loop (subscribers meta) (sdb s)) (\<lambda>(kept, waits, d).
     let s1 = set_file key (meta\<lparr>subscribers := kept\<rparr>, content) (s\<lparr>sdb := d\<rparr>) in
     if waits = [] then k s1
     else Inr (Await (all_acked waits) (\<lambda>s2. k (s2\<lparr>sdb := block_returns waits (sdb s2)\<rparr>)), s1)))"

fun expire_notify :: "string list \<Rightarrow> 'r handler \<Rightarrow> 'r handler" where
  "expire_notify [] k = k"
| "expire_notify (path # paths) k = server_notify_events path (expire_notify paths k)"

lemma expire_notify [simp]: "expire_notify paths k = notify_all paths k"
proof (induction paths)
  case (Cons p paths)
  have "server_notify_events p h = notify_events p h" for h :: "'a handler"
    by (rule ext) (simp add: server_notify_events_def notify_events_def)
  then show ?case using Cons by simp
qed simp

text \<open>The expiry callback of a session's thread. It tests the result's code, not its acceptance.\<close>

definition expire_cb :: "raft_api \<Rightarrow> buf_api \<Rightarrow> i32 \<Rightarrow> unit handler" where
  "expire_cb R B sid s =
     (if \<not> is_leader R then reply () s
      else
        bindE (serialize_action B (EndSessionAction (int64_of_int sid))) (\<lambda>bs.
        bindE (append_entries R bs s) (\<lambda>(ret, s1).
        if get_result_code ret = RAFT_OK then
          bindE (read_buffer (get_i32 B (result_buf ret))) (\<lambda>(res, _).
          if res \<noteq> 0 then reply () s1
          else bindE (read_end_session_return B (result_buf ret)) (\<lambda>parents.
            expire_notify parents (reply ()) s1))
        else reply () s1)))"

text \<open>\<open>BecomeLeader\<close>: every session gets a new thread; its event counter starts anywhere.\<close>

definition become_leader :: "(i32 \<Rightarrow> i32) \<Rightarrow> sm_state \<Rightarrow> sm_state" where
  "become_leader e0 s = s\<lparr>sdb := db_start_kathread e0 (sdb s)\<rparr>"

lemma become_leader_reaches: "leader_reaches as s \<Longrightarrow> leader_reaches as (become_leader e0 s)"
  by (auto simp: leader_reaches_def become_leader_def strip_start_kathread)

lemma thread_become_leader:
  "thread_of sid (sdb (become_leader e0 s)) =
   map_option (\<lambda>e. new_kathread (e0 sid) (entry_id e)) (find_session sid (sdb s))"
  by (auto simp: thread_of_def become_leader_def db_start_kathread_def find_session_def entry_start_kathread_def
      split: option.split)

section \<open>Expiry\<close>

lemma end_session_same_store:
  "apply_end_session x s = Inr (EndSessionReturn sz ps, s') \<Longrightarrow> ds (s'\<lparr>last_committed_idx := i\<rparr>) = ds s'"
  by simp

lemma leader_end_session:
  assumes B: "buffer_api B" and inv: "sm_inv n s" and n: "n < 2 ^ 31" and e: "session_of s x = Some e"
    and ap: "apply_end_session x s = Inr (EndSessionReturn sz parents, s')" and fits: "needed_size parents \<le> sz"
    and small: "\<forall>p \<in> set parents. length p < 2 ^ 32" "length parents < 2 ^ 31"
  shows "\<exists>bs buf. serialize_action B (EndSessionAction x) = Inr bs \<and>
    append_entries (leader_raft B) bs s =
      Inr (\<lparr>get_accepted = True, get_result_code = RAFT_OK, result_buf = buf\<rparr>, s'\<lparr>last_committed_idx := 0\<rparr>) \<and>
    (\<exists>rest. get_i32 B buf = Some (0, rest)) \<and> read_end_session_return B buf = Inr parents"
proof -
  obtain bs where bs: "serialize_action B (EndSessionAction x) = Inr bs"
    using buffer_api.serialize_struct_total [OF B] unfolding serialize_action_def by blast
  have af: "action_fits (EndSessionAction x)" by (simp add: action_fits_def)
  obtain buf where buf: "serialize_ret B (EndSessionReturn sz parents) = Inr buf"
    using buffer_api.end_session_fits [OF B fits] by blast
  have "commit B 0 bs s = Inr (buf, s'\<lparr>last_committed_idx := 0\<rparr>)"
    using commit_serialized [OF B af bs] ap buf by simp
  moreover have "\<exists>rest. get_i32 B buf = Some (0, rest)"
    using buf buffer_api.get_put_i32 [OF B] by (auto simp: result_simps)
  ultimately show ?thesis
    using bs buffer_api.read_end_session_put [OF B buf small] by (simp add: leader_raft_def)
qed




end
