(* ===== verification/Client.thy ===== *)
theory Client
  imports Raft
begin

text \<open>
  The client library (\<open>clientlib.cpp\<close>): one object per session with a cache of file
  contents by handle, callbacks by handle, the server it talks to and whether it believes to be
  connected. A method that calls the server is split at the call: what it sends or decides
  before, and what it does with the answer, which is an argument here. A failed assertion or an
  exception is a crash of the client process. \<open>InvokeRpc\<close>, which repeats a call, is
  a function of the answers the attempts get.
\<close>

section \<open>Servers\<close>

definition host_suffix :: string where
  "host_suffix = ''.skinnyclient.advosuwmadison-pg0.clemson.cloudlab.us''"

definition SRV_CONFIG :: "(string \<times> i32) list" where
  "SRV_CONFIG = [(''node0'' @ host_suffix, 10200), (''node1'' @ host_suffix, 12010),
     (''node2'' @ host_suffix, 10220), (''node3'' @ host_suffix, 10220), (''node4'' @ host_suffix, 10220)]"

record client =
  client_session_id :: i32
  cur_srv_id :: nat
  channel :: string
  has_conn :: bool
  client_cancelled :: bool
  cache :: "i32 \<rightharpoonup> string"
  callbacks :: "i32 \<rightharpoonup> nat"

definition change_server :: "i32 \<Rightarrow> client \<Rightarrow> client result" where
  "change_server server_id c =
     bindE (assertE (0 \<le> sint server_id)) (\<lambda>_.
     let srv = nat (sint server_id) mod length SRV_CONFIG;
         (host, port) = SRV_CONFIG ! srv
     in Inr (c\<lparr>cur_srv_id := srv, channel := host @ '':'' @ to_string (port + 1)\<rparr>))"

text \<open>\<open>StartSessionOrDie\<close>, given the answer each server would give to \<open>StartSession\<close>.\<close>

fun start_session_loop :: "nat list \<Rightarrow> (nat \<Rightarrow> status \<times> i64) \<Rightarrow> client \<Rightarrow> client result" where
  "start_session_loop [] answer c = Inl Assert_failed"
| "start_session_loop (i # is) answer c =
     bindE (change_server (of_nat i) c) (\<lambda>c1.
     let (st, sid) = answer i in
     if is_ok st then Inr (c1\<lparr>client_session_id := int_of_int64 sid, has_conn := True\<rparr>)
     else start_session_loop is answer c1)"

definition StartSessionOrDie :: "(nat \<Rightarrow> status \<times> i64) \<Rightarrow> client \<Rightarrow> client result" where
  "StartSessionOrDie = start_session_loop [0..<length SRV_CONFIG]"

section \<open>Calls\<close>

text \<open>
  What \<open>InvokeRpc\<close> makes of one answer; it waits until connected and repeats the call as long
  as the answer says so.
\<close>

datatype rpc_outcome = Throw | Retry | Give status

definition rpc_outcome :: "status \<Rightarrow> rpc_outcome" where
  "rpc_outcome st =
     (if \<not> is_ok st \<and> error_message st = session_not_found_str then Throw
      else if \<not> (error_code st = code_of NOT_LEADER \<or> error_code st = UNAVAILABLE) then Give st
      else Retry)"

text \<open>Given the answers of successive attempts: \<open>None\<close> while it still repeats.\<close>

fun InvokeRpc :: "(status \<times> 'a) list \<Rightarrow> (status \<times> 'a) result option" where
  "InvokeRpc [] = None"
| "InvokeRpc ((st, x) # answers) =
     (case rpc_outcome st of
        Throw \<Rightarrow> Some (Inl Terminated)
      | Give st' \<Rightarrow> Some (Inr (st', x))
      | Retry \<Rightarrow> InvokeRpc answers)"

text \<open>The methods, from the final answer of their call.\<close>

definition client_open :: "status \<times> i32 \<Rightarrow> nat option \<Rightarrow> client \<Rightarrow> (i32 \<times> client) result" where
  "client_open answer cb c =
     (let (st, fh) = answer in
      bindE (assertE (is_ok st)) (\<lambda>_.
      Inr (fh, case cb of Some f \<Rightarrow> c\<lparr>callbacks := (callbacks c)(fh \<mapsto> f)\<rparr> | None \<Rightarrow> c)))"

definition client_close :: "i32 \<Rightarrow> client \<Rightarrow> client" where
  "client_close fh c = c\<lparr>cache := (cache c)(fh := None)\<rparr>"

definition cached_content :: "i32 \<Rightarrow> client \<Rightarrow> string option" where
  "cached_content fh c = (if has_conn c then cache c fh else None)"

definition client_get_content :: "i32 \<Rightarrow> status \<times> string \<Rightarrow> client \<Rightarrow> (string \<times> client) result" where
  "client_get_content fh answer c =
     (let (st, content) = answer in
      bindE (assertE (is_ok st)) (\<lambda>_. Inr (content, c\<lparr>cache := (cache c)(fh \<mapsto> content)\<rparr>)))"

definition client_done :: "status \<times> unit \<Rightarrow> unit result" where
  "client_done answer = assertE (is_ok (fst answer))"

text \<open>\<open>TryAcquire\<close> and \<open>Acquire\<close>; a response that was not filled in has \<open>res\<close> 0.\<close>

definition client_acquire :: "status \<times> (i32 \<times> string) option \<Rightarrow> bool result" where
  "client_acquire answer =
     (let (st, res) = answer in
      bindE (assertE (is_ok st)) (\<lambda>_. Inr (case res of Some (r, _) \<Rightarrow> r = 0 | None \<Rightarrow> True)))"

section \<open>Keep-alive\<close>

text \<open>The response of a KeepAlive call: an optional handle with an event number.\<close>

record event =
  event_fh :: "i32 option"
  event_num :: i32

text \<open>
  \<open>KeepAlive\<close> after its call has ended: the event number to acknowledge with the next
  call, the client's new state, and the callback that is started, with its handle.
\<close>

definition client_keepalive ::
    "status \<Rightarrow> event \<Rightarrow> client \<Rightarrow> (i32 option \<times> client \<times> (nat \<times> i32) option) result" where
  "client_keepalive st res c =
     (if is_ok st then
        (let c1 = (if \<not> has_conn c then c\<lparr>has_conn := True, cache := Map.empty\<rparr> else c) in
         case event_fh res of
           None \<Rightarrow> Inr (None, c1, None)
         | Some fh \<Rightarrow>
             Inr (Some (event_num res), c1\<lparr>cache := (cache c1)(fh := None)\<rparr>,
                  map_option (\<lambda>f. (f, fh)) (callbacks c1 fh)))
      else
        (let c1 = c\<lparr>has_conn := False\<rparr>;
             next_server_id = of_nat (cur_srv_id c1) + 1;
             move = (\<lambda>server. bindE (change_server server c1) (\<lambda>c2. Inr (None, c2, None)))
         in
         if error_code st = code_of NOT_LEADER then
           (case stoi (error_message st) of
              None \<Rightarrow> Inl Terminated
            | Some new_leader \<Rightarrow> move (if new_leader \<noteq> -1 then new_leader else next_server_id))
         else if error_code st = CANCELLED \<and> client_cancelled c1 then Inr (None, c1, None)
         else if error_message st = session_not_found_str then
           Inr (None, c1\<lparr>client_cancelled := True\<rparr>, None)
         else move next_server_id))"

text \<open>
  The thread's loop: successive calls, each acknowledging the event the previous one returned,
  until the client is cancelled. The result is the acknowledgements sent and the client.
\<close>

fun keepalive_loop :: "i32 option \<Rightarrow> (status \<times> event) list \<Rightarrow> client \<Rightarrow> (i32 option list \<times> client) result" where
  "keepalive_loop eid [] c = Inr ([], c)"
| "keepalive_loop eid ((st, res) # answers) c =
     (if client_cancelled c then Inr ([], c)
      else
        bindE (client_keepalive st res c) (\<lambda>(eid', c1, _).
        bindE (keepalive_loop eid' answers c1) (\<lambda>(sent, c2). Inr (eid # sent, c2))))"

text \<open>The diagnostic client asks one server after the other, round robin, until one answers.\<close>

fun diagnostic_get_leader :: "nat \<Rightarrow> (nat \<Rightarrow> (status \<times> i32)) list \<Rightarrow> i32 option" where
  "diagnostic_get_leader idx [] = None"
| "diagnostic_get_leader idx (round # rounds) =
     (let (st, leader) = round idx in
      if is_ok st then Some leader
      else diagnostic_get_leader ((idx + 1) mod length SRV_CONFIG) rounds)"

section \<open>Lemmas\<close>

definition client_ok :: "client \<Rightarrow> bool" where
  "client_ok c \<longleftrightarrow> cur_srv_id c < length SRV_CONFIG"

lemma SRV_CONFIG_length [simp]: "length SRV_CONFIG = 5"
  by (simp add: SRV_CONFIG_def)

lemma change_server_total:
  "0 \<le> sint i \<Longrightarrow> \<exists>c'. change_server i c = Inr c' \<and> client_ok c' \<and> cur_srv_id c' = nat (sint i) mod 5 \<and>
     has_conn c' = has_conn c \<and> client_cancelled c' = client_cancelled c \<and> cache c' = cache c \<and>
     client_session_id c' = client_session_id c"
  by (simp add: change_server_def Let_def split_def assertE_def client_ok_def)

lemma invoke_rpc_retries:
  "\<forall>a \<in> set pre. rpc_outcome (fst a) = Retry \<Longrightarrow> InvokeRpc (pre @ answers) = InvokeRpc answers"
  by (induction pre) auto

lemma invoke_rpc_Some:
  "InvokeRpc answers = Some r \<Longrightarrow> \<exists>pre st x post. answers = pre @ (st, x) # post \<and>
     (\<forall>a \<in> set pre. rpc_outcome (fst a) = Retry) \<and>
     (rpc_outcome st = Throw \<and> r = Inl Terminated \<or> rpc_outcome st = Give st \<and> r = Inr (st, x))"
proof (induction answers)
  case (Cons a answers)
  obtain st x where a: "a = (st, x)" by (cases a)
  show ?case
  proof (cases "rpc_outcome st")
    case Retry
    then obtain pre st' x' post where "answers = pre @ (st', x') # post" "\<forall>a \<in> set pre. rpc_outcome (fst a) = Retry"
        "rpc_outcome st' = Throw \<and> r = Inl Terminated \<or> rpc_outcome st' = Give st' \<and> r = Inr (st', x')"
      using Cons a by auto
    then show ?thesis using a Retry by (intro exI [of _ "a # pre"]) auto
  next
    case Throw
    then show ?thesis using Cons.prems a by (intro exI [of _ "[]"]) simp
  next
    case (Give st')
    then have "st' = st" by (auto simp: rpc_outcome_def split: if_splits)
    then show ?thesis using Cons.prems a Give by (intro exI [of _ "[]"]) simp
  qed
qed simp

definition ack_of :: "status \<times> event \<Rightarrow> i32 option" where
  "ack_of answer = (if is_ok (fst answer) \<and> event_fh (snd answer) \<noteq> None then Some (event_num (snd answer)) else None)"

lemma client_keepalive_ack: "client_keepalive st res c = Inr (eid, c', cb) \<Longrightarrow> eid = ack_of (st, res)"
  by (auto simp: client_keepalive_def ack_of_def Let_def result_simps split: if_splits option.splits)

lemma keepalive_loop_acks:
  "keepalive_loop eid answers c = Inr (sent, c') \<Longrightarrow> prefix sent (eid # map ack_of answers)"
proof (induction eid answers c arbitrary: sent rule: keepalive_loop.induct)
  case (2 eid st res answers c)
  show ?case
  proof (cases "client_cancelled c")
    case False
    then obtain eid' c1 cb sent' where 1: "client_keepalive st res c = Inr (eid', c1, cb)"
      and 3: "keepalive_loop eid' answers c1 = Inr (sent', c')" "sent = eid # sent'"
      using 2(2) by (auto simp: result_simps)
    have "prefix sent' (eid' # map ack_of answers)" using 2(1) [OF False 3(1)] .
    then show ?thesis using 3(2) client_keepalive_ack [OF 1] by simp
  qed (use 2(2) in simp)
qed simp

section \<open>Properties\<close>

text \<open>
  A call returns exactly its first conclusive answer. \<open>InvokeRpc\<close> repeats a call
  through every NOT_LEADER and UNAVAILABLE answer, throws on the first one that says that the session is
  not found, returns the first other answer, and never returns before there is one.
\<close>

theorem invoke_rpc_first_conclusive:
  "InvokeRpc answers = Some r \<longleftrightarrow>
   (\<exists>pre st x post. answers = pre @ (st, x) # post \<and> list_all (\<lambda>a. rpc_outcome (fst a) = Retry) pre \<and>
     (rpc_outcome st = Throw \<and> r = Inl Terminated \<or> rpc_outcome st = Give st \<and> r = Inr (st, x)))"
proof
  assume "InvokeRpc answers = Some r"
  from invoke_rpc_Some [OF this] show "\<exists>pre st x post. answers = pre @ (st, x) # post \<and>
      list_all (\<lambda>a. rpc_outcome (fst a) = Retry) pre \<and>
      (rpc_outcome st = Throw \<and> r = Inl Terminated \<or> rpc_outcome st = Give st \<and> r = Inr (st, x))"
    by (simp add: list_all_iff)
next
  assume "\<exists>pre st x post. answers = pre @ (st, x) # post \<and> list_all (\<lambda>a. rpc_outcome (fst a) = Retry) pre \<and>
      (rpc_outcome st = Throw \<and> r = Inl Terminated \<or> rpc_outcome st = Give st \<and> r = Inr (st, x))"
  then show "InvokeRpc answers = Some r" by (auto simp: invoke_rpc_retries list_all_iff)
qed

text \<open>
  Every delivered event is acknowledged by the next call, and nothing else is. The
  acknowledgements a client's keep-alive thread sends are, in order, nothing with the first call
  and with each later call the event number of the answer before it, if that was an event.
\<close>

theorem client_acknowledges_next:
  assumes "keepalive_loop None answers c = Inr (sent, c')"
  shows "prefix sent (None # map ack_of answers)"
  using assms by (rule keepalive_loop_acks)

theorem client_acknowledges_next_witness:
  "prefix [None, Some 7, None]
     (None # map ack_of [(status_ok, \<lparr>event_fh = Some 3, event_num = 7\<rparr>), (status_ok, \<lparr>event_fh = None, event_num = 0\<rparr>),
        (session_not_found_status, \<lparr>event_fh = None, event_num = 0\<rparr>), (status_ok, \<lparr>event_fh = None, event_num = 0\<rparr>)])"
proof (rule client_acknowledges_next)
  let ?c = "\<lparr>client_session_id = 0, cur_srv_id = 0, channel = [], has_conn = True, client_cancelled = False,
    cache = [3 \<mapsto> ''x''], callbacks = Map.empty\<rparr>"
  show "keepalive_loop None [(status_ok, \<lparr>event_fh = Some 3, event_num = 7\<rparr>), (status_ok, \<lparr>event_fh = None, event_num = 0\<rparr>),
        (session_not_found_status, \<lparr>event_fh = None, event_num = 0\<rparr>), (status_ok, \<lparr>event_fh = None, event_num = 0\<rparr>)] ?c =
      Inr ([None, Some 7, None], ?c\<lparr>has_conn := False, client_cancelled := True, cache := (cache ?c)(3 := None)\<rparr>)"
    by (simp add: client_keepalive_def is_ok_def status_ok_def session_not_found_status_def status_codes)
qed

section \<open>Reconnecting\<close>

text \<open>A server that does not lead answers with the leader's number, or -1 when it knows none.\<close>

lemma client_redirected:
  assumes "- 1 \<le> sint leader" and "client_ok c"
  shows "\<exists>c'. client_keepalive \<lparr>error_code = code_of NOT_LEADER, error_message = to_string leader\<rparr> res c = Inr (None, c', None) \<and>
    client_ok c' \<and> \<not> has_conn c' \<and> cache c' = cache c \<and> client_session_id c' = client_session_id c \<and>
    cur_srv_id c' = (if leader = -1 then (cur_srv_id c + 1) mod 5 else nat (sint leader) mod 5)"
proof -
  define i :: i32 where "i = (if leader \<noteq> -1 then leader else of_nat (cur_srv_id c) + 1)"
  have c5: "cur_srv_id c < 5" using assms(2) by (simp add: client_ok_def)
  have m1: "sint leader = -1 \<Longrightarrow> leader = -1" by (metis signed_word_eqI signed_minus_1)
  have "sint (of_nat (cur_srv_id c + 1) :: i32) = int (cur_srv_id c + 1)" using c5 by (intro sint_of_nat32) simp
  then have next_id: "sint (of_nat (cur_srv_id c) + (1 :: i32)) = int (cur_srv_id c + 1)" by (simp add: add.commute)
  have i: "0 \<le> sint i" "leader = -1 \<Longrightarrow> sint i = int (cur_srv_id c + 1)"
    using assms(1) m1 next_id by (cases "leader = -1"; force simp: i_def)+
  obtain c' where c': "change_server i (c\<lparr>has_conn := False\<rparr>) = Inr c'" "client_ok c'"
      "cur_srv_id c' = nat (sint i) mod 5" "\<not> has_conn c'" "cache c' = cache c" "client_session_id c' = client_session_id c"
    using change_server_total [OF i(1), of "c\<lparr>has_conn := False\<rparr>"] by auto
  have "client_keepalive \<lparr>error_code = code_of NOT_LEADER, error_message = to_string leader\<rparr> res c = Inr (None, c', None)"
    using c'(1) by (simp add: client_keepalive_def is_ok_def stoi_to_string i_def Let_def split: if_splits)
  moreover have "cur_srv_id c' = (if leader = -1 then (cur_srv_id c + 1) mod 5 else nat (sint leader) mod 5)"
  proof (cases "leader = -1")
    case True
    have "nat (sint i) = cur_srv_id c + 1" unfolding i(2) [OF True] by (simp only: nat_int)
    then show ?thesis using c'(3) True by simp
  qed (use c'(3) in \<open>simp add: i_def\<close>)
  ultimately show ?thesis using c' by blast
qed

section \<open>Bounds and termination\<close>

text \<open>The answers that end the process: a leader number that is not one, or a negative one other than -1.\<close>

definition bad_redirect :: "status \<Rightarrow> bool" where
  "bad_redirect st \<longleftrightarrow> error_code st = code_of NOT_LEADER \<and>
     (case stoi (error_message st) of None \<Rightarrow> True | Some n \<Rightarrow> sint n < -1)"

lemma client_keepalive_total:
  assumes ok: "client_ok c"
  shows "(bad_redirect st \<and> (\<exists>k. client_keepalive st res c = Inl k)) \<or>
    (\<exists>eid c' cb. client_keepalive st res c = Inr (eid, c', cb) \<and> client_ok c')"
proof -
  have "cur_srv_id c < 5" using ok by (simp add: client_ok_def)
  then have "sint (of_nat (cur_srv_id c + 1) :: i32) = int (cur_srv_id c + 1)" by (intro sint_of_nat32) simp
  then have next_id: "0 \<le> sint (of_nat (cur_srv_id c) + (1 :: i32))" by (simp add: add.commute)
  let ?c = "c\<lparr>has_conn := False\<rparr>"
  have move: "\<exists>c'. change_server n ?c = Inr c' \<and> client_ok c'" if "0 \<le> sint n" for n
    using change_server_total [OF that, of ?c] by blast
  show ?thesis
  proof (cases "is_ok st")
    case True
    then show ?thesis using ok by (auto simp: client_keepalive_def client_ok_def Let_def split: option.split)
  next
    case False
    show ?thesis
    proof (cases "error_code st = code_of NOT_LEADER")
      case nl: True
      show ?thesis
      proof (cases "bad_redirect st")
        case True
        have "\<exists>k. client_keepalive st res c = Inl k"
        proof (cases "stoi (error_message st)")
          case (Some n)
          then have "sint n < -1" using True nl by (simp add: bad_redirect_def)
          then have "n \<noteq> -1" "\<not> 0 \<le> sint n" by auto
          then show ?thesis using False nl Some by (simp add: client_keepalive_def Let_def change_server_def assertE_def)
        qed (use False nl in \<open>simp add: client_keepalive_def Let_def\<close>)
        then show ?thesis using True by blast
      next
        case good: False
        then obtain n where n: "stoi (error_message st) = Some n" "-1 \<le> sint n"
          using nl by (auto simp: bad_redirect_def split: option.splits)
        have "0 \<le> sint (if n \<noteq> -1 then n else of_nat (cur_srv_id c) + 1)"
          using n(2) next_id by (cases "sint n = -1") (auto intro: signed_word_eqI)
        from move [OF this] show ?thesis using False nl n by (auto simp: client_keepalive_def Let_def)
      qed
    next
      case nl: False
      then show ?thesis using False move [OF next_id] ok
        by (auto simp: client_keepalive_def client_ok_def Let_def)
    qed
  qed
qed

text \<open>
  C39: the client never leaves its list of servers. Whatever answers its KeepAlive calls get, the index of the
  server it talks to stays inside the list, however often it moves to the next server or to the one an
  answer names; and the process dies only from an answer NOT_LEADER whose message is not a number or is a
  negative number other than -1.
\<close>

theorem server_index_in_bounds:
  assumes "client_ok c"
  shows "case keepalive_loop eid answers c of
      Inl _ \<Rightarrow> list_ex (\<lambda>(st, _). bad_redirect st) answers
    | Inr (_, c') \<Rightarrow> cur_srv_id c' < length SRV_CONFIG"
  using assms
proof (induction eid answers c rule: keepalive_loop.induct)
  case (2 eid st res answers c)
  show ?case
  proof (cases "client_cancelled c")
    case False
    from client_keepalive_total [OF 2(2), of st res] show ?thesis
    proof (elim disjE exE conjE)
      fix eid' c' cb
      assume k: "client_keepalive st res c = Inr (eid', c', cb)" "client_ok c'"
      from 2(1) [OF False k(2), of eid'] k(1) show ?thesis using False k(1)
        by (auto split: sum.splits)
    qed (use False in simp)
  qed (use 2(2) in \<open>simp add: client_ok_def\<close>)
qed (simp add: client_ok_def)

theorem server_index_in_bounds_witness:
  "case keepalive_loop None
       [(\<lparr>error_code = 14, error_message = []\<rparr>, \<lparr>event_fh = None, event_num = 0\<rparr>),
        (\<lparr>error_code = 100, error_message = ''-7''\<rparr>, \<lparr>event_fh = None, event_num = 0\<rparr>)]
       \<lparr>client_session_id = 0, cur_srv_id = 4, channel = [], has_conn = True, client_cancelled = False,
         cache = Map.empty, callbacks = Map.empty\<rparr> of
      Inl _ \<Rightarrow> list_ex (\<lambda>(st, _). bad_redirect st)
       [(\<lparr>error_code = 14, error_message = []\<rparr>, \<lparr>event_fh = None, event_num = 0\<rparr>),
        (\<lparr>error_code = 100, error_message = ''-7''\<rparr>, \<lparr>event_fh = None, event_num = 0\<rparr>)]
    | Inr (_, c') \<Rightarrow> cur_srv_id c' < length SRV_CONFIG"
  by (rule server_index_in_bounds) (simp add: client_ok_def)

lemma diagnostic_round:
  assumes "list_all (\<lambda>answer. is_ok (fst (answer i))) rounds" and "i < 5" and "idx < 5"
    and "(i + 5 - idx) mod 5 < length rounds"
  shows "\<exists>k j. k \<le> (i + 5 - idx) mod 5 \<and> j < 5 \<and> is_ok (fst ((rounds ! k) j)) \<and>
    diagnostic_get_leader idx rounds = Some (snd ((rounds ! k) j))"
  using assms
proof (induction idx rounds rule: diagnostic_get_leader.induct)
  case (2 idx answer rounds)
  show ?case
  proof (cases "is_ok (fst (answer idx))")
    case True
    then show ?thesis using 2(4) by (intro exI [of _ 0] exI [of _ idx]) (simp add: split_def)
  next
    case False
    then have ne: "idx \<noteq> i" using 2(2) by auto
    then have d: "(i + 5 - idx) mod 5 = Suc ((i + 5 - Suc idx mod 5) mod 5)"
      using 2(3,4) by (simp add: mod_if split: if_splits) presburger
    from 2(1) [OF refl, of "fst (answer idx)" "snd (answer idx)"] 2(2-5) False d
    obtain k j where "k \<le> (i + 5 - Suc idx mod 5) mod 5" "j < 5" "is_ok (fst ((rounds ! k) j))"
        "diagnostic_get_leader (Suc idx mod 5) rounds = Some (snd ((rounds ! k) j))"
      by auto
    then show ?thesis using False d by (intro exI [of _ "Suc k"] exI [of _ j]) (simp add: split_def)
  qed
qed simp

text \<open>
  The search for the leader ends. If one of the servers answers the diagnostic call whenever it is asked, then
  \<open>GetLeader\<close>, which asks one server after the other, returns within one round over the list, and what it
  returns is the answer of a server.
\<close>

theorem leader_search_terminates:
  assumes "list_all (\<lambda>answer. is_ok (fst (answer i))) rounds" and "i < length SRV_CONFIG"
    and "length rounds = length SRV_CONFIG"
  shows "\<exists>k j. k < length SRV_CONFIG \<and> j < length SRV_CONFIG \<and> is_ok (fst ((rounds ! k) j)) \<and>
    diagnostic_get_leader 0 rounds = Some (snd ((rounds ! k) j))"
proof -
  obtain k j where "k \<le> (i + 5 - 0) mod 5" "j < 5" "is_ok (fst ((rounds ! k) j))"
      "diagnostic_get_leader 0 rounds = Some (snd ((rounds ! k) j))"
    using diagnostic_round [OF assms(1), of 0] assms(2,3) by auto
  then show ?thesis using assms(2) by (intro exI [of _ k] exI [of _ j]) auto
qed

theorem leader_search_terminates_witness:
  "\<exists>leader. diagnostic_get_leader 0 (replicate 5 (\<lambda>j. if j = 3 then (status_ok, 2) else (\<lparr>error_code = 4, error_message = []\<rparr>, 0))) =
     Some leader"
proof -
  let ?r = "replicate 5 (\<lambda>j. if j = 3 then (status_ok, 2) else (\<lparr>error_code = 4, error_message = []\<rparr>, 0)) ::
    (nat \<Rightarrow> status \<times> i32) list"
  have "\<exists>k j. k < length SRV_CONFIG \<and> j < length SRV_CONFIG \<and> is_ok (fst ((?r ! k) j)) \<and>
      diagnostic_get_leader 0 ?r = Some (snd ((?r ! k) j))"
    by (rule leader_search_terminates [of 3]) (simp_all add: is_ok_def status_ok_def list_all_iff)
  then show ?thesis by auto
qed

end
