(* ===== verification/System.thy ===== *)
theory System
  imports Server Client
begin

text \<open>
  The leader, its keep-alive threads and the clients together. The state is the leader's store, the
  client objects by session, and for each session where its KeepAlive call stands: the client is about to
  send one (with the acknowledgement it carries), the call is pending at the server, or the
  answer is on its way. A step is one operation of one of the components, as modelled in their theories:
  a cache miss that reads from the server, a write, a lock request, the sending of a KeepAlive call, a
  wake-up of a keep-alive thread, the client's processing of the answer, the loss of the answer, after which the
  client's call fails, and the return of a blocked notifier. Reads that miss are one step here; theory \<open>Races\<close> takes
  them apart.
\<close>

datatype ka_phase = Ready "i32 option" | Calling | Answered "(i32 \<times> i32) option"

record sys =
  srv :: sm_state
  cl :: "i32 \<Rightarrow> client option"
  phase :: "i32 \<Rightarrow> ka_phase"

definition set_thread :: "i32 \<Rightarrow> ka_thread \<Rightarrow> sm_state \<Rightarrow> sm_state" where
  "set_thread sid t s =
     (case find_session sid (sdb s) of
        None \<Rightarrow> s
      | Some e \<Rightarrow> set_session sid (e\<lparr>kathread := Some t\<rparr>) s)"

definition event_of :: "(i32 \<times> i32) option \<Rightarrow> event" where
  "event_of ev =
     (case ev of
        None \<Rightarrow> \<lparr>event_fh = None, event_num = 0\<rparr>
      | Some (eid, fh) \<Rightarrow> \<lparr>event_fh = Some fh, event_num = eid\<rparr>)"

definition answer_phase :: "ka_output \<Rightarrow> ka_phase \<Rightarrow> ka_phase" where
  "answer_phase out ph = (case out of Finish r ev \<Rightarrow> Answered ev | _ \<Rightarrow> ph)"

text \<open>The file a handle stands for, and the handle a session is subscribed to a file with.\<close>

definition key_of :: "sm_state \<Rightarrow> i32 \<Rightarrow> i32 \<Rightarrow> string option" where
  "key_of s sid fh =
     (case find_session sid (sdb s) of
        None \<Rightarrow> None
      | Some e \<Rightarrow> (case fh_to_key fh e of Inl _ \<Rightarrow> None | Inr p \<Rightarrow> Some p))"

definition sub_of :: "sm_state \<Rightarrow> string \<Rightarrow> i32 \<Rightarrow> i32 option" where
  "sub_of s p sid = (case ds s p of None \<Rightarrow> None | Some (m, _) \<Rightarrow> subscribed m sid)"

text \<open>The statuses of a call whose answer does not arrive.\<close>

definition transport_failure :: "status \<Rightarrow> bool" where
  "transport_failure st \<longleftrightarrow>
     (error_code st = UNAVAILABLE \<or> error_code st = DEADLINE_EXCEEDED) \<and> error_message st \<noteq> session_not_found_str"

text \<open>A handle that is the last one its session opened the file with.\<close>

definition latest_handle :: "sm_state \<Rightarrow> i32 \<Rightarrow> i32 \<Rightarrow> bool" where
  "latest_handle s sid fh \<longleftrightarrow> (case key_of s sid fh of None \<Rightarrow> False | Some p \<Rightarrow> sub_of s p sid = Some fh)"

datatype sys_event =
    Fetch i32 i32
  | Write i64 i32 string
  | Lock i64 i32 bool
  | Call i32 nat
  | Wake i32 cv_status
  | Process i32
  | Lose i32 status
  | Notified i32 i32

inductive sys_step :: "buf_api \<Rightarrow> sys \<Rightarrow> sys_event \<Rightarrow> sys \<Rightarrow> bool" for B where
  fetch: "cl y sid = Some c \<Longrightarrow> cached_content fh c = None \<Longrightarrow> latest_handle (srv y) sid fh \<Longrightarrow>
    GetContent (leader_raft B) (int64_of_int sid) fh (srv y) = Inr (Return answer, s') \<Longrightarrow>
    client_get_content fh answer c = Inr (x, c') \<Longrightarrow>
    sys_step B y (Fetch sid fh) (y\<lparr>srv := s', cl := (cl y)(sid \<mapsto> c')\<rparr>)"
| write_call: "SetContent (leader_raft B) B x fh content (srv y) = Inr (p, s') \<Longrightarrow> length content < 2 ^ 32 \<Longrightarrow>
    sys_step B y (Write x fh content) (y\<lparr>srv := s'\<rparr>)"
| lock_call: "TryAcquire (leader_raft B) B x fh ex (srv y) = Inr (p, s') \<Longrightarrow>
    sys_step B y (Lock x fh ex) (y\<lparr>srv := s'\<rparr>)"
| call: "cl y sid = Some c \<Longrightarrow> phase y sid = Ready a \<Longrightarrow>
    KeepAlive (leader_raft B) r (int64_of_int sid) a (srv y) = (None, s') \<Longrightarrow>
    sys_step B y (Call sid r) (y\<lparr>srv := s', phase := (phase y)(sid := Calling)\<rparr>)"
| wake: "thread_of sid (sdb (srv y)) = Some t \<Longrightarrow> ka_wake ret t = (out, t') \<Longrightarrow>
    sys_step B y (Wake sid ret)
      (y\<lparr>srv := set_thread sid t' (srv y), phase := (phase y)(sid := answer_phase out (phase y sid))\<rparr>)"
| process: "phase y sid = Answered ev \<Longrightarrow> cl y sid = Some c \<Longrightarrow>
    client_keepalive status_ok (event_of ev) c = Inr (a, c', cb) \<Longrightarrow>
    sys_step B y (Process sid) (y\<lparr>cl := (cl y)(sid \<mapsto> c'), phase := (phase y)(sid := Ready a)\<rparr>)"
| lose: "phase y sid = Answered ev \<Longrightarrow> cl y sid = Some c \<Longrightarrow> transport_failure st \<Longrightarrow>
    client_keepalive st (event_of None) c = Inr (a, c', cb) \<Longrightarrow>
    sys_step B y (Lose sid st) (y\<lparr>cl := (cl y)(sid \<mapsto> c'), phase := (phase y)(sid := Ready a)\<rparr>)"
| notified: "thread_of sid (sdb (srv y)) = Some t \<Longrightarrow> ka_unblocked eid t \<Longrightarrow>
    sys_step B y (Notified sid eid) (y\<lparr>srv := set_thread sid (ka_block_return eid t) (srv y)\<rparr>)"

abbreviation sys_run :: "buf_api \<Rightarrow> sys \<Rightarrow> sys_event list \<Rightarrow> sys \<Rightarrow> bool" where
  "sys_run B \<equiv> steps (sys_step B)"

text \<open>The steps as a function, for concrete runs.\<close>

fun sys_exec :: "buf_api \<Rightarrow> sys_event \<Rightarrow> sys \<Rightarrow> sys option" where
  "sys_exec B (Fetch sid fh) y =
     (case (cl y sid, GetContent (leader_raft B) (int64_of_int sid) fh (srv y)) of
        (Some c, Inr (Return answer, s')) \<Rightarrow>
          (case client_get_content fh answer c of
             Inl _ \<Rightarrow> None
           | Inr (x, c') \<Rightarrow>
               if cached_content fh c = None \<and> latest_handle (srv y) sid fh
               then Some (y\<lparr>srv := s', cl := (cl y)(sid \<mapsto> c')\<rparr>) else None)
      | _ \<Rightarrow> None)"
| "sys_exec B (Write x fh content) y =
     (case SetContent (leader_raft B) B x fh content (srv y) of
        Inl _ \<Rightarrow> None | Inr (p, s') \<Rightarrow> if int (length content) < 4294967296 then Some (y\<lparr>srv := s'\<rparr>) else None)"
| "sys_exec B (Lock x fh ex) y =
     (case TryAcquire (leader_raft B) B x fh ex (srv y) of Inl _ \<Rightarrow> None | Inr (p, s') \<Rightarrow> Some (y\<lparr>srv := s'\<rparr>))"
| "sys_exec B (Call sid r) y =
     (case (cl y sid, phase y sid) of
        (Some c, Ready a) \<Rightarrow>
          (case KeepAlive (leader_raft B) r (int64_of_int sid) a (srv y) of
             (None, s') \<Rightarrow> Some (y\<lparr>srv := s', phase := (phase y)(sid := Calling)\<rparr>)
           | (Some _, _) \<Rightarrow> None)
      | _ \<Rightarrow> None)"
| "sys_exec B (Wake sid ret) y =
     (case thread_of sid (sdb (srv y)) of
        None \<Rightarrow> None
      | Some t \<Rightarrow>
          (let (out, t') = ka_wake ret t in
           Some (y\<lparr>srv := set_thread sid t' (srv y), phase := (phase y)(sid := answer_phase out (phase y sid))\<rparr>)))"
| "sys_exec B (Process sid) y =
     (case (cl y sid, phase y sid) of
        (Some c, Answered ev) \<Rightarrow>
          (case client_keepalive status_ok (event_of ev) c of
             Inl _ \<Rightarrow> None
           | Inr (a, c', cb) \<Rightarrow> Some (y\<lparr>cl := (cl y)(sid \<mapsto> c'), phase := (phase y)(sid := Ready a)\<rparr>))
      | _ \<Rightarrow> None)"
| "sys_exec B (Lose sid st) y =
     (case (cl y sid, phase y sid) of
        (Some c, Answered ev) \<Rightarrow>
          (case client_keepalive st (event_of None) c of
             Inl _ \<Rightarrow> None
           | Inr (a, c', cb) \<Rightarrow>
               if transport_failure st then Some (y\<lparr>cl := (cl y)(sid \<mapsto> c'), phase := (phase y)(sid := Ready a)\<rparr>) else None)
      | _ \<Rightarrow> None)"
| "sys_exec B (Notified sid eid) y =
     (case thread_of sid (sdb (srv y)) of
        None \<Rightarrow> None
      | Some t \<Rightarrow> if ka_unblocked eid t then Some (y\<lparr>srv := set_thread sid (ka_block_return eid t) (srv y)\<rparr>) else None)"

lemma sys_exec_step: "sys_exec B ev y = Some y' \<Longrightarrow> sys_step B y ev y'"
  by (cases ev)
    (auto split: option.splits sum.splits prod.splits proc.splits ka_phase.splits if_splits intro: sys_step.intros)

abbreviation sys_execs :: "buf_api \<Rightarrow> sys_event list \<Rightarrow> sys \<Rightarrow> sys option" where
  "sys_execs B \<equiv> exec_all (sys_exec B)"

lemma sys_execs_run: "sys_execs B tr y = Some y' \<Longrightarrow> sys_run B y tr y'"
  by (rule exec_all_steps [OF sys_exec_step])

section \<open>Effects of the steps on the leader\<close>

text \<open>What all steps keep: handles and subscriptions.\<close>

definition same_handles_files :: "sm_state \<Rightarrow> sm_state \<Rightarrow> bool" where
  "same_handles_files s s' \<longleftrightarrow> key_of s' = key_of s \<and> sub_of s' = sub_of s"

lemma key_of_same: "same_handles (sdb s) (sdb s') \<Longrightarrow> key_of s' = key_of s"
proof (intro ext)
  fix sid fh
  assume "same_handles (sdb s) (sdb s')"
  then have "map_option (\<lambda>e. (entry_id e, entry_v e, entry_inum e)) (find_session sid (sdb s')) =
      map_option (\<lambda>e. (entry_id e, entry_v e, entry_inum e)) (find_session sid (sdb s))"
    by (simp add: same_handles_def)
  then show "key_of s' sid fh = key_of s sid fh"
    by (cases "find_session sid (sdb s)"; cases "find_session sid (sdb s')") (auto simp: key_of_def fh_to_key_def)
qed

lemma sub_of_set_file: "ds s p = Some (m0, c0) \<Longrightarrow> subscribers m = subscribers m0 \<Longrightarrow>
    sub_of (set_file p (m, c) s) = sub_of s"
  by (intro ext) (simp add: sub_of_def subscribed_def)

lemma thread_of_put: "thread_of j (put_session sid e d) = (if j = sid then kathread e else thread_of j d)"
  by (simp add: thread_of_def find_put_session)

lemma thread_of_find: "thread_of sid d = Some t \<Longrightarrow> \<exists>e. find_session sid d = Some e \<and> kathread e = Some t"
  by (auto simp: thread_of_def split: option.splits)

lemma same_handles_put:
  "find_session sid d = Some e \<Longrightarrow> entry_id e' = entry_id e \<Longrightarrow> entry_v e' = entry_v e \<Longrightarrow> entry_inum e' = entry_inum e \<Longrightarrow>
   same_handles d (put_session sid e' d)"
  by (simp add: same_handles_def find_put_session)

lemma set_thread_effect:
  assumes t: "thread_of sid (sdb s) = Some t"
  shows "thread_of j (sdb (set_thread sid t' s)) = (if j = sid then Some t' else thread_of j (sdb s))"
    and "ds (set_thread sid t' s) = ds s" and "same_handles (sdb s) (sdb (set_thread sid t' s))"
proof -
  obtain e where e: "find_session sid (sdb s) = Some e" using thread_of_find [OF t] by blast
  show "thread_of j (sdb (set_thread sid t' s)) = (if j = sid then Some t' else thread_of j (sdb s))"
    "ds (set_thread sid t' s) = ds s"
    using e by (simp_all add: set_thread_def thread_of_put)
  show "same_handles (sdb s) (sdb (set_thread sid t' s))"
    using e same_handles_put [OF e, of "e\<lparr>kathread := Some t'\<rparr>"] by (simp add: set_thread_def)
qed

text \<open>A step that keeps the handles and the files' subscribers keeps the well-formedness of the store.\<close>

lemma sm_inv_same:
  assumes "sm_inv n s" and "ds s' = ds s" and "same_handles (sdb s) (sdb s')"
  shows "sm_inv n s'"
  using sm_inv_same_handles [OF assms(1,3)] assms(2) by (simp add: sm_inv_def)

lemma keepalive_effect:
  assumes "KeepAlive (leader_raft B) r (int64_of_int sid) a s = (None, s')"
  shows "ds s' = ds s \<and> same_handles (sdb s) (sdb s') \<and>
    (\<forall>j. thread_of j (sdb s') =
       (if j = sid then map_option (ka_set_reactor r (case a of Some k \<Rightarrow> k | None \<Rightarrow> -1)) (thread_of j (sdb s))
        else thread_of j (sdb s)))"
proof -
  let ?a = "case a of Some k \<Rightarrow> k | None \<Rightarrow> -1"
  obtain e where e: "find_session sid (sdb s) = Some e" and s': "s' = set_session sid (entry_set_reactor r ?a e) s"
    using assms by (auto simp: KeepAlive_def leader_raft_def split: option.splits)
  have "entry_id (entry_set_reactor r ?a e) = entry_id e \<and> entry_v (entry_set_reactor r ?a e) = entry_v e \<and>
      entry_inum (entry_set_reactor r ?a e) = entry_inum e \<and>
      kathread (entry_set_reactor r ?a e) = map_option (ka_set_reactor r ?a) (kathread e)"
    by (simp add: entry_set_reactor_def split: option.split)
  moreover have "thread_of sid (sdb s) = kathread e" using e by (simp add: thread_of_def)
  ultimately show ?thesis
    using same_handles_put [OF e, of "entry_set_reactor r ?a e"] by (simp add: s' thread_of_put)
qed

text \<open>A write is rejected, or stores the content and notifies the file's subscribers.\<close>

definition ack_proc :: "(i32 \<times> i32) list \<Rightarrow> (status \<times> unit) proc" where
  "ack_proc waits =
     (if waits = [] then Return (status_ok, ())
      else Await (all_acked waits) (\<lambda>s2. Inr (Return (status_ok, ()), s2\<lparr>sdb := block_returns waits (sdb s2)\<rparr>)))"

lemma write_effect:
  assumes B: "buffer_api B" and inv: "sm_inv n s" and sc: "SetContent (leader_raft B) B x fh content s = Inr (pr, s')"
    and len: "length content < 2 ^ 32"
  obtains (rejected) st where "ds s' = ds s" "sdb s' = sdb s" "pr = Return (st, ())" "\<not> is_ok st"
  | (stored) p m c0 where "key_of s (int_of_int64 x) fh = Some p" "ds s p = Some (m, c0)"
      "ds s' = (ds s)(p \<mapsto> (m, content))" "notified_db (subscribers m) (sdb s) (sdb s')"
      "pr = ack_proc (event_waits (subscribers m) (sdb s))"
proof -
  have fits: "action_fits (SetContentAction x fh content)" using len by (simp add: action_fits_def)
  have refused: thesis
    if "apply_action (SetContentAction x fh content) s = Inr (Response (-1) msg, s)" for msg
  proof -
    have "is_end_session (Response (-1) msg) = False" by (simp add: is_end_session_def)
    then have "SetContent (leader_raft B) B x fh content s =
        Inr (Return (\<lparr>error_code = ABORTED, error_message = msg\<rparr>, ()), s\<lparr>last_committed_idx := 0\<rparr>)"
      using leader_append [where 'a = unit, OF B fits that] by (auto simp: SetContent_def reply_def)
    then show thesis using sc rejected by (auto simp: is_ok_def ABORTED_def)
  qed
  show thesis
  proof (cases "session_of s x")
    case None
    then show thesis using refused no_session(5) [OF None] by simp
  next
    case (Some e)
    then have e: "find_session (int_of_int64 x) (sdb s) = Some e" by (simp add: session_of_def)
    have r: "in_range (entry_v e) fh"
    proof (rule ccontr)
      assume "\<not> in_range (entry_v e) fh"
      then obtain k where "apply_action (SetContentAction x fh content) s = Inl k"
        using set_content_crash [OF inv e] by fastforce
      from leader_crash [where 'a = unit, OF B fits this] show False using sc by (simp add: SetContent_def)
    qed
    obtain p m c0 where p: "fh_to_key fh e = Inr p" and m: "ds s p = Some (m, c0)" using key_file [OF inv e r] .
    obtain k where k: "handle_inum fh e = Inr k" using handle_inum_in_range [OF sm_inv_entry [OF inv e] r] by blast
    note ef = set_content_effect [OF Some p m k, of content]
    show thesis
    proof (cases "k = instance_num m \<and> file_exists m")
      case True
      then have "handle_inum fh e = Inr (instance_num m)" "file_exists m" using k by auto
      from leader_set_content [OF B inv Some p m this len] show thesis
        using sc stored [of p m c0] e p m by (auto simp: Let_def key_of_def ack_proc_def)
    next
      case False
      then show thesis using refused ef by (auto split: if_splits)
    qed
  qed
qed

lemma lock_effect:
  assumes B: "buffer_api B" and inv: "sm_inv n s" and ta: "TryAcquire (leader_raft B) B x fh ex s = Inr (pr, s')"
  shows "sdb s' = sdb s \<and> content_of s' = content_of s \<and> sub_of s' = sub_of s \<and> sm_inv n s'"
proof -
  have idx: "sdb s' = sdb s \<and> content_of s' = content_of s \<and> sub_of s' = sub_of s \<and> sm_inv n s'"
    if "s' = s1\<lparr>last_committed_idx := 0\<rparr>" "apply_acq x fh (int_of_bool ex) s = Inr (r, s1)" for r s1
  proof -
    have "sdb s1 = sdb s \<and> content_of s1 = content_of s \<and> sub_of s1 = sub_of s"
      using that(2) meta_acquire_subscribers
      by (auto simp: apply_acq_def Let_def result_simps fun_eq_iff content_of_def sub_of_def subscribed_def
          split: option.splits if_splits)
    then show ?thesis using that apply_acq_inv [OF inv that(2)] by (auto simp: fun_eq_iff content_of_def sub_of_def)
  qed
  show ?thesis
  proof (cases "s' = s")
    case False
    define k where "k = (\<lambda>buf s1. bindE (read_response B buf) (\<lambda>(res, msg).
      if res = -1 then reply (\<lparr>error_code = code_of LOCK_RELATED, error_message = msg\<rparr>, None) s1
      else reply (status_ok, Some (res, msg)) s1) :: ((status \<times> (i32 \<times> string) option) proc \<times> sm_state) result)"
    have ap: "append_action (leader_raft B) B (AcqAction x fh (int_of_bool ex)) None k s = Inr (pr, s')"
      using ta False by (simp add: TryAcquire_def k_def) (auto simp: reply_def result_simps split: option.splits prod.splits)
    have k: "k buf s1 = Inr (q, s2) \<Longrightarrow> s2 = s1" for buf s1 q s2
      by (auto simp: k_def reply_def result_simps split: if_splits)
    have fits: "action_fits (AcqAction x fh (int_of_bool ex))" by (simp add: action_fits_def)
    obtain r s1 where acq: "apply_acq x fh (int_of_bool ex) s = Inr (r, s1)"
    proof (cases "apply_acq x fh (int_of_bool ex) s")
      case (Inl e)
      then have "apply_action (AcqAction x fh (int_of_bool ex)) s = Inl e" by simp
      from leader_crash [where 'a = "(i32 \<times> string) option", OF B fits this] show thesis using ap by simp
    qed (use that in force)
    have "apply_action (AcqAction x fh (int_of_bool ex)) s = Inr (r, s1)" using acq by simp
    from leader_append [where 'a = "(i32 \<times> string) option", OF B fits this acq_reply [OF acq]] obtain buf where
        "append_action (leader_raft B) B (AcqAction x fh (int_of_bool ex)) None k s =
          (if 0 \<le> sint (ret_res r) then k buf (s1\<lparr>last_committed_idx := 0\<rparr>)
           else reply (\<lparr>error_code = ABORTED, error_message = ret_msg r\<rparr>, None) (s1\<lparr>last_committed_idx := 0\<rparr>))"
      by blast
    then have "s' = s1\<lparr>last_committed_idx := 0\<rparr>" using ap by (auto simp: reply_def dest: k [OF sym] split: if_splits)
    then show ?thesis using idx acq by blast
  qed (use inv in simp)
qed

end
