(* ===== verification/Coherence.thy ===== *)
theory Coherence
  imports System
begin

text \<open>
  The clients' caches agree with the store. The invariant of the composed system has two parts. Of each
  keep-alive thread with the call it holds: the numbers of the events on their way to the client and of the
  next event are increasing, and every acknowledgement, received or about to be sent, is below them. Of each
  client: a cached content is the content of the file, or an event that will remove it is on its way.
\<close>

section \<open>Events on their way\<close>

definition on_the_way :: "ka_phase \<Rightarrow> ka_thread \<Rightarrow> (i32 \<times> i32) list" where
  "on_the_way ph t = (case ph of Answered (Some ev) \<Rightarrow> [ev] | _ \<Rightarrow> []) @ event_queue t"

definition pending :: "sys \<Rightarrow> i32 \<Rightarrow> (i32 \<times> i32) set" where
  "pending y sid =
     (case thread_of sid (sdb (srv y)) of None \<Rightarrow> {} | Some t \<Rightarrow> set (on_the_way (phase y sid) t))"

definition event_ids :: "ka_phase \<Rightarrow> ka_thread \<Rightarrow> int list" where
  "event_ids ph t = map (\<lambda>(eid, fh). sint eid) (on_the_way ph t) @ [sint (event_id t)]"

definition given_acks :: "ka_phase \<Rightarrow> ka_thread \<Rightarrow> i32 set" where
  "given_acks ph t = acked_events t \<union> (case ph of Ready (Some a) \<Rightarrow> {a} | _ \<Rightarrow> {})"

definition thread_ok :: "int \<Rightarrow> ka_phase \<Rightarrow> ka_thread \<Rightarrow> bool" where
  "thread_ok lim ph t \<longleftrightarrow> (reactor t \<noteq> None \<longleftrightarrow> ph = Calling) \<and> sint (event_id t) \<le> lim \<and>
     sorted_wrt (<) (event_ids ph t) \<and> (\<forall>i \<in> set (event_ids ph t). 0 \<le> i \<and> (\<forall>a \<in> given_acks ph t. sint a < i))"

lemmas thread_ok_defs = thread_ok_def event_ids_def given_acks_def on_the_way_def

lemma thread_ok_mono: "thread_ok lim ph t \<Longrightarrow> lim \<le> lim' \<Longrightarrow> thread_ok lim' ph t"
  by (simp add: thread_ok_def)

lemma thread_ok_enqueue:
  assumes ok: "thread_ok lim ph t" and lim: "lim + 1 < 2 ^ 31"
  shows "thread_ok (lim + 1) ph (snd (ka_enqueue_event fh t))"
proof -
  have le: "sint (event_id t) \<le> lim" using ok by (simp add: thread_ok_def)
  then have inc: "sint (event_id t + 1) = sint (event_id t) + 1" using lim by (intro sint_inc) simp
  have sw: "sorted_wrt (<) (event_ids ph t)" using ok by (simp add: thread_ok_def)
  have below: "\<forall>i \<in> set (event_ids ph t). i \<le> sint (event_id t)" using sw by (auto simp: event_ids_def sorted_wrt_append)
  let ?t = "snd (ka_enqueue_event fh t)"
  have ids: "event_ids ph ?t = event_ids ph t @ [sint (event_id t) + 1]"
    using inc by (simp add: event_ids_def on_the_way_def ka_enqueue_event_def Let_def)
  have acks: "given_acks ph ?t = given_acks ph t" "reactor ?t = reactor t"
    by (simp_all add: given_acks_def ka_enqueue_event_def Let_def)
  have "sint (event_id t) \<in> set (event_ids ph t)" by (simp add: event_ids_def)
  then have "0 \<le> sint (event_id t) + 1 \<and> (\<forall>a \<in> given_acks ph t. sint a < sint (event_id t) + 1)"
    using ok by (force simp: thread_ok_def)
  moreover have "sint (event_id ?t) \<le> lim + 1" using inc le by (simp add: ka_enqueue_event_def Let_def)
  moreover have "sorted_wrt (<) (event_ids ph ?t)" unfolding ids using sw below by (force simp: sorted_wrt_append)
  ultimately show ?thesis using ok unfolding thread_ok_def acks ids by auto
qed

lemma thread_ok_set_reactor:
  "thread_ok lim (Ready a) t \<Longrightarrow>
   thread_ok lim Calling (ka_set_reactor r (case a of Some k \<Rightarrow> k | None \<Rightarrow> -1) t)"
  by (cases a) (auto simp: thread_ok_defs ka_set_reactor_def)

lemma thread_ok_wake:
  assumes "thread_ok lim ph t" and "ka_wake ret t = (out, t')"
  shows "thread_ok lim (answer_phase out ph) t'" "on_the_way (answer_phase out ph) t' = on_the_way ph t"
proof -
  have same: "event_id t' = event_id t" "reactor t' \<noteq> None \<longleftrightarrow> answer_phase out ph = Calling"
      "on_the_way (answer_phase out ph) t' = on_the_way ph t" "given_acks (answer_phase out ph) t' \<subseteq> given_acks ph t"
    using assms
    by (auto simp: ka_wake_def ka_cancel_def on_the_way_def answer_phase_def given_acks_def thread_ok_def
        split: if_splits option.splits list.splits)
  then have "event_ids (answer_phase out ph) t' = event_ids ph t" by (simp add: event_ids_def)
  then show "thread_ok lim (answer_phase out ph) t'" "on_the_way (answer_phase out ph) t' = on_the_way ph t"
    using assms(1) same unfolding thread_ok_def by (auto 0 3)
qed

definition ack_for :: "(i32 \<times> i32) option \<Rightarrow> i32 option" where
  "ack_for ev = map_option fst ev"

lemma thread_ok_process:
  "thread_ok lim (Answered ev) t \<Longrightarrow> thread_ok lim (Ready (ack_for ev)) t \<and> thread_ok lim (Ready None) t"
  by (cases ev) (auto simp: thread_ok_defs ack_for_def)

lemma thread_ok_block_return: "thread_ok lim ph t \<Longrightarrow> thread_ok lim ph (ka_block_return eid t)"
  by (auto simp: thread_ok_defs ka_block_return_def)

text \<open>An acknowledged event is no longer on its way, and an event on its way is not acknowledged.\<close>

lemma acked_not_pending: "thread_ok lim ph t \<Longrightarrow> eid \<in> acked_events t \<Longrightarrow> (eid, fh) \<notin> set (on_the_way ph t)"
  by (force simp: thread_ok_def event_ids_def given_acks_def)

section \<open>The invariant\<close>

definition entry_coherent :: "sys \<Rightarrow> i32 \<Rightarrow> i32 \<Rightarrow> string \<Rightarrow> bool" where
  "entry_coherent y sid fh z \<longleftrightarrow> (\<exists>p. key_of (srv y) sid fh = Some p \<and> sub_of (srv y) p sid = Some fh \<and>
     (content_of (srv y) p = Some z \<or> fh \<in> snd ` pending y sid))"

definition sys_inv :: "nat \<Rightarrow> int \<Rightarrow> sys \<Rightarrow> bool" where
  "sys_inv n lim y \<longleftrightarrow> sm_inv n (srv y) \<and>
     (\<forall>sid t. thread_of sid (sdb (srv y)) = Some t \<longrightarrow> thread_ok lim (phase y sid) t) \<and>
     (\<forall>sid c. cl y sid = Some c \<longrightarrow> thread_of sid (sdb (srv y)) \<noteq> None \<and>
        (\<forall>fh z. cached_content fh c = Some z \<longrightarrow> entry_coherent y sid fh z))"

lemma sys_invD:
  assumes "sys_inv n lim y"
  shows "sm_inv n (srv y)" and "thread_of sid (sdb (srv y)) = Some t \<Longrightarrow> thread_ok lim (phase y sid) t"
    and "cl y sid = Some c \<Longrightarrow> \<exists>t. thread_of sid (sdb (srv y)) = Some t"
    and "cl y sid = Some c \<Longrightarrow> cached_content fh c = Some z \<Longrightarrow> entry_coherent y sid fh z"
  using assms by (auto simp: sys_inv_def)

lemma sys_inv_mono: "sys_inv n lim y \<Longrightarrow> lim \<le> lim' \<Longrightarrow> sys_inv n lim' y"
  using thread_ok_mono by (fastforce simp: sys_inv_def)

text \<open>A step that keeps the handles and the contents, and of the events on their way loses none.\<close>

lemma entry_coherent_mono:
  assumes "entry_coherent y sid fh z" and "key_of (srv y') = key_of (srv y)" and "sub_of (srv y') = sub_of (srv y)"
    and "content_of (srv y') = content_of (srv y)" and "pending y sid \<subseteq> pending y' sid"
  shows "entry_coherent y' sid fh z"
  using assms by (fastforce simp: entry_coherent_def)

lemma sys_inv_store:
  assumes inv: "sys_inv n lim y" and eq: "sdb s' = sdb (srv y)" "content_of s' = content_of (srv y)" "sub_of s' = sub_of (srv y)"
    and "sm_inv n s'"
  shows "sys_inv n lim (y\<lparr>srv := s'\<rparr>)"
proof -
  have "key_of s' = key_of (srv y)" by (intro ext) (simp add: key_of_def eq)
  moreover have "pending (y\<lparr>srv := s'\<rparr>) j = pending y j" for j by (simp add: pending_def eq split: option.split)
  ultimately have "entry_coherent (y\<lparr>srv := s'\<rparr>) j = entry_coherent y j" for j
    by (simp add: entry_coherent_def fun_eq_iff eq)
  then show ?thesis using assms by (simp add: sys_inv_def)
qed

text \<open>A step on one thread and the call it holds.\<close>

lemma sys_inv_thread:
  assumes inv: "sys_inv n lim y" and t: "thread_of sid (sdb (srv y)) = Some t"
    and th: "\<And>j. thread_of j (sdb s') = (if j = sid then Some t' else thread_of j (sdb (srv y)))"
    and eq: "ds s' = ds (srv y)" "same_handles (sdb (srv y)) (sdb s')"
    and ok: "thread_ok lim ph' t'" and way: "on_the_way ph' t' = on_the_way (phase y sid) t"
  shows "sys_inv n lim (y\<lparr>srv := s', phase := (phase y)(sid := ph')\<rparr>)"
proof -
  let ?y = "y\<lparr>srv := s', phase := (phase y)(sid := ph')\<rparr>"
  have key: "key_of s' = key_of (srv y)" using key_of_same [OF eq(2)] .
  have sub: "sub_of s' = sub_of (srv y)" "content_of s' = content_of (srv y)"
    using eq(1) by (simp_all add: fun_eq_iff sub_of_def content_of_def)
  have pend: "pending ?y j = pending y j" for j using t th way by (simp add: pending_def split: option.split)
  have "sm_inv n s'" using inv sm_inv_same [OF _ eq] by (simp add: sys_inv_def)
  moreover have "entry_coherent ?y j fh z" if "entry_coherent y j fh z" for j fh z
    using that key sub pend by (simp add: entry_coherent_def)
  ultimately show ?thesis using inv ok th t unfolding sys_inv_def by auto
qed


section \<open>Writes\<close>

lemma notified_same_handles: "notified_db subs d d' \<Longrightarrow> same_handles d d'"
proof -
  have f: "entry_id (snd (entry_enqueue_event fh e)) = entry_id e \<and> entry_v (snd (entry_enqueue_event fh e)) = entry_v e \<and>
      entry_inum (snd (entry_enqueue_event fh e)) = entry_inum e" for fh e
    by (cases "entry_enqueue_event fh e") (auto dest: enqueue_event_frame)
  assume "notified_db subs d d'"
  then show ?thesis
    by (auto simp: same_handles_def notified_db_def option.map_comp comp_def f split: option.split intro: option.map_cong0)
qed

lemma notified_thread_of:
  assumes "notified_db subs d d'"
  shows "thread_of j d' = (case map_of subs j of
     None \<Rightarrow> thread_of j d
   | Some fh \<Rightarrow> map_option (\<lambda>t. snd (ka_enqueue_event fh t)) (thread_of j d))"
  using assms
  by (auto simp: notified_db_def thread_of_def entry_enqueue_event_def split_def Let_def split: option.splits)

definition sys_write :: "string \<Rightarrow> file_meta \<Rightarrow> string \<Rightarrow> sys \<Rightarrow> sm_state \<Rightarrow> bool" where
  "sys_write p m content y s' \<longleftrightarrow> (\<exists>c0. ds (srv y) p = Some (m, c0)) \<and> ds s' = (ds (srv y))(p \<mapsto> (m, content)) \<and>
     notified_db (subscribers m) (sdb (srv y)) (sdb s')"

lemma sys_write_frame:
  assumes "sys_write p m content y s'"
  shows "key_of s' = key_of (srv y)" and "sub_of s' = sub_of (srv y)" and "content_of s' = (content_of (srv y))(p \<mapsto> content)"
    and "sub_of (srv y) p = map_of (subscribers m)"
proof -
  have nd: "notified_db (subscribers m) (sdb (srv y)) (sdb s')" and d: "ds s' = (ds (srv y))(p \<mapsto> (m, content))"
    and m: "\<exists>c0. ds (srv y) p = Some (m, c0)" using assms by (auto simp: sys_write_def)
  show "key_of s' = key_of (srv y)" using key_of_same [OF notified_same_handles [OF nd]] .
  show "sub_of s' = sub_of (srv y)" "content_of s' = (content_of (srv y))(p \<mapsto> content)"
    "sub_of (srv y) p = map_of (subscribers m)"
    using d m by (auto simp: fun_eq_iff sub_of_def content_of_def subscribed_def)
qed

lemma sys_write_pending:
  assumes w: "sys_write p m content y s'"
  shows "pending (y\<lparr>srv := s'\<rparr>) j = pending y j \<union>
     (case (map_of (subscribers m) j, thread_of j (sdb (srv y))) of (Some fh, Some t) \<Rightarrow> {(event_id t, fh)} | _ \<Rightarrow> {})"
proof -
  have "notified_db (subscribers m) (sdb (srv y)) (sdb s')" using w by (simp add: sys_write_def)
  from notified_thread_of [OF this, of j] show ?thesis
    by (auto simp: pending_def on_the_way_def ka_enqueue_event_def Let_def split: option.splits)
qed

lemma sys_inv_write:
  assumes inv: "sys_inv n lim y" and w: "sys_write p m content y s'" and lim: "lim + 1 < 2 ^ 31"
  shows "sys_inv n (lim + 1) (y\<lparr>srv := s'\<rparr>)"
proof -
  have nd: "notified_db (subscribers m) (sdb (srv y)) (sdb s')" using w by (simp add: sys_write_def)
  obtain c0 where m: "ds (srv y) p = Some (m, c0)" and d: "ds s' = (ds (srv y))(p \<mapsto> (m, content))"
    using w by (auto simp: sys_write_def)
  have "sm_inv n (set_file p (m, content) (srv y))" using sm_inv_content inv m by (simp add: sys_inv_def)
  then have sm: "sm_inv n s'" using sm_inv_same notified_same_handles [OF nd] d by fastforce
  have th: "thread_ok (lim + 1) (phase y j) t" if "thread_of j (sdb s') = Some t" for j t
  proof -
    have old: "thread_ok lim (phase y j) t0" if "thread_of j (sdb (srv y)) = Some t0" for t0
      using inv that by (simp add: sys_inv_def)
    show ?thesis
      using that notified_thread_of [OF nd, of j] old thread_ok_enqueue [OF old lim] thread_ok_mono [OF old, of _ "lim + 1"]
      by (auto split: option.splits)
  qed
  have cl: "thread_of j (sdb s') \<noteq> None \<and> (\<forall>fh z. cached_content fh c = Some z \<longrightarrow> entry_coherent (y\<lparr>srv := s'\<rparr>) j fh z)"
    if c: "cl y j = Some c" for j c
  proof -
    obtain t where t: "thread_of j (sdb (srv y)) = Some t" using sys_invD(3) [OF inv c] by blast
    have "entry_coherent (y\<lparr>srv := s'\<rparr>) j fh z" if "cached_content fh c = Some z" for fh z
    proof -
      obtain q where q: "key_of (srv y) j fh = Some q" "sub_of (srv y) q j = Some fh"
          "content_of (srv y) q = Some z \<or> fh \<in> snd ` pending y j"
        using sys_invD(4) [OF inv c \<open>cached_content fh c = Some z\<close>] unfolding entry_coherent_def by blast
      have "content_of s' q = Some z \<or> fh \<in> snd ` pending (y\<lparr>srv := s'\<rparr>) j"
        using q t by (cases "q = p") (auto simp: sys_write_frame [OF w] sys_write_pending [OF w])
      then show ?thesis using q by (auto simp: entry_coherent_def sys_write_frame [OF w])
    qed
    then show ?thesis using t notified_thread_of [OF nd, of j] by (auto split: option.splits)
  qed
  show ?thesis using sm th cl by (simp add: sys_inv_def)
qed


section \<open>The clients' steps\<close>

lemma get_content_effect:
  "GetContent (leader_raft B) (int64_of_int sid) fh s = Inr (Return answer, s') \<Longrightarrow>
   s' = s \<and> (is_ok (fst answer) \<longrightarrow> (\<exists>p. key_of s sid fh = Some p \<and> content_of s p = Some (snd answer)))"
  by (auto simp: GetContent_def leader_raft_def reply_def result_simps key_of_def content_of_def is_ok_def
      session_not_found_status_def status_codes split: option.splits)

lemma client_get_content_effect:
  "client_get_content fh answer c = Inr (x, c') \<Longrightarrow> is_ok (fst answer) \<and>
   (\<forall>g z. cached_content g c' = Some z \<longrightarrow> cached_content g c = Some z \<or> g = fh \<and> z = snd answer)"
  by (auto simp: client_get_content_def cached_content_def result_simps split: prod.splits if_splits)

lemma client_event_effect:
  "client_keepalive status_ok (event_of ev) c = Inr (a, c', cb) \<Longrightarrow>
   a = ack_for ev \<and>
   (\<forall>fh z. cached_content fh c' = Some z \<longrightarrow> cached_content fh c = Some z \<and> (\<forall>eid. ev \<noteq> Some (eid, fh)))"
  by (auto simp: client_keepalive_def cached_content_def event_of_def ack_for_def is_ok_def status_ok_def Let_def
      split: option.splits if_splits)

text \<open>A client whose call has failed serves nothing from its cache.\<close>

lemma client_failure_effect:
  assumes "transport_failure st" and "client_keepalive st res c = Inr (a, c', cb)"
  shows "a = None" and "cached_content fh c' = None"
proof -
  have "\<not> has_conn c2" if "change_server k c1 = Inr c2" "\<not> has_conn c1" for k c1 c2
    using that by (auto simp: change_server_def Let_def split_def result_simps)
  then show "a = None" "cached_content fh c' = None"
    using assms by (auto simp: client_keepalive_def transport_failure_def cached_content_def is_ok_def Let_def
        status_codes result_simps split: if_splits)
qed

lemma sys_inv_fetch:
  assumes inv: "sys_inv n lim y" and c: "cl y sid = Some c" and l: "latest_handle (srv y) sid fh"
    and g: "GetContent (leader_raft B) (int64_of_int sid) fh (srv y) = Inr (Return answer, s')"
    and cg: "client_get_content fh answer c = Inr (x, c')"
  shows "s' = srv y" and "sys_inv n lim (y\<lparr>srv := s', cl := (cl y)(sid \<mapsto> c')\<rparr>)"
    and "\<exists>p z. (\<forall>g u. cached_content g c' = Some u \<longrightarrow> cached_content g c = Some u \<or> g = fh \<and> u = z) \<and>
      key_of (srv y) sid fh = Some p \<and> content_of (srv y) p = Some z"
proof -
  note ok = client_get_content_effect [OF cg]
  show s': "s' = srv y" using get_content_effect [OF g] by simp
  obtain p where p: "key_of (srv y) sid fh = Some p" "content_of (srv y) p = Some (snd answer)"
    using get_content_effect [OF g] ok by auto
  then have "sub_of (srv y) p sid = Some fh" using l by (simp add: latest_handle_def)
  then have new: "entry_coherent y sid fh (snd answer)" using p by (simp add: entry_coherent_def)
  let ?y = "y\<lparr>srv := s', cl := (cl y)(sid \<mapsto> c')\<rparr>"
  have same: "entry_coherent ?y = entry_coherent y"
    by (simp add: fun_eq_iff entry_coherent_def pending_def s' split: option.split)
  have "entry_coherent y sid g u" if "cached_content g c' = Some u" for g u
    using that ok new sys_invD(4) [OF inv c] by blast
  then show "sys_inv n lim ?y" using inv c unfolding sys_inv_def same by (auto simp: s')
  show "\<exists>p z. (\<forall>g u. cached_content g c' = Some u \<longrightarrow> cached_content g c = Some u \<or> g = fh \<and> u = z) \<and>
      key_of (srv y) sid fh = Some p \<and> content_of (srv y) p = Some z"
    using p ok by blast
qed

lemma pending_process:
  assumes ph: "phase y sid = Answered ev"
  shows "pending (y\<lparr>cl := f, phase := (phase y)(sid := Ready a)\<rparr>) j \<union> (if j = sid then set_option ev else {}) \<supseteq> pending y j"
    and "pending (y\<lparr>cl := f, phase := (phase y)(sid := Ready a)\<rparr>) j \<subseteq> pending y j"
  using ph by (auto simp: pending_def on_the_way_def split: option.splits)

text \<open>The end of a call at the client: it acknowledges what it got, or nothing, and serves no more than before.\<close>

lemma sys_inv_process:
  assumes inv: "sys_inv n lim y" and ph: "phase y sid = Answered ev" and c: "cl y sid = Some c"
    and a: "a = ack_for ev \<or> a = None"
    and served: "\<forall>fh z. cached_content fh c' = Some z \<longrightarrow> cached_content fh c = Some z \<and> (\<forall>eid. ev \<noteq> Some (eid, fh))"
  shows "sys_inv n lim (y\<lparr>cl := (cl y)(sid \<mapsto> c'), phase := (phase y)(sid := Ready a)\<rparr>)"
proof -
  let ?y = "y\<lparr>cl := (cl y)(sid \<mapsto> c'), phase := (phase y)(sid := Ready a)\<rparr>"
  have th: "thread_ok lim (phase ?y j) t" if "thread_of j (sdb (srv y)) = Some t" for j t
  proof (cases "j = sid")
    case True
    then have "thread_ok lim (Answered ev) t" using inv that ph unfolding sys_inv_def by metis
    then show ?thesis using thread_ok_process a True by auto
  qed (use inv that in \<open>simp add: sys_inv_def\<close>)
  have co: "entry_coherent ?y j fh z" if "entry_coherent y j fh z" "j = sid \<longrightarrow> (\<forall>eid. ev \<noteq> Some (eid, fh))" for j fh z
  proof -
    obtain p where p: "key_of (srv y) j fh = Some p" "sub_of (srv y) p j = Some fh"
        "content_of (srv y) p = Some z \<or> fh \<in> snd ` pending y j"
      using \<open>entry_coherent y j fh z\<close> unfolding entry_coherent_def by blast
    have "fh \<in> snd ` pending ?y j" if q: "fh \<in> snd ` pending y j"
    proof -
      obtain eid where "(eid, fh) \<in> pending y j" using q by auto
      then have "(eid, fh) \<in> pending ?y j \<union> (if j = sid then set_option ev else {})"
        using pending_process(1) [OF ph] by blast
      then show ?thesis using \<open>j = sid \<longrightarrow> (\<forall>eid. ev \<noteq> Some (eid, fh))\<close> by (force split: if_splits)
    qed
    then show ?thesis using p unfolding entry_coherent_def by auto
  qed
  have "cached_content fh c' = Some z \<Longrightarrow> entry_coherent y sid fh z" for fh z using served inv c by (simp add: sys_inv_def)
  then show ?thesis using inv th co served c unfolding sys_inv_def by auto
qed

section \<open>Every step\<close>


lemma sys_inv_step:
  assumes B: "buffer_api B" and st: "sys_step B y ev y'" and inv: "sys_inv n lim y" and lim: "lim + 1 < 2 ^ 31"
  shows "sys_inv n (lim + 1) y'"
  using st
proof cases
  case (fetch sid c fh answer s' x c')
  then show ?thesis using sys_inv_fetch(2) [OF inv fetch(3,5,6,7)] sys_inv_mono [of n lim _ "lim + 1"] by simp
next
  case (write_call x fh content p s')
  from B sys_invD(1) [OF inv] write_call(3,4) show ?thesis
  proof (cases rule: write_effect)
    case (rejected st)
    then have "content_of s' = content_of (srv y)" "sub_of s' = sub_of (srv y)"
      by (simp_all add: fun_eq_iff content_of_def sub_of_def)
    moreover have "sm_inv n s'" using sm_inv_same [OF sys_invD(1) [OF inv]] rejected by (simp add: same_handles_def)
    ultimately show ?thesis
      using sys_inv_store [OF inv rejected(2)] sys_inv_mono [of n lim _ "lim + 1"] write_call(2) by simp
  next
    case (stored p m c0)
    then have "sys_write p m content y s'" by (simp add: sys_write_def)
    then show ?thesis using sys_inv_write [OF inv _ lim] write_call(2) by simp
  qed
next
  case (lock_call x fh ex p s')
  then show ?thesis
    using lock_effect [OF B sys_invD(1) [OF inv] lock_call(3)] sys_inv_store [OF inv]
      sys_inv_mono [of n lim _ "lim + 1"] by simp
next
  case (call sid c a r s')
  note ef = keepalive_effect [OF call(5)]
  obtain t where t: "thread_of sid (sdb (srv y)) = Some t" using sys_invD(3) [OF inv call(3)] by blast
  let ?t = "ka_set_reactor r (case a of Some k \<Rightarrow> k | None \<Rightarrow> -1) t"
  have "thread_ok lim Calling ?t"
    using thread_ok_set_reactor sys_invD(2) [OF inv t] call(4) by simp
  moreover have "on_the_way Calling ?t = on_the_way (phase y sid) t"
    using call(4) by (simp add: on_the_way_def ka_set_reactor_def)
  ultimately show ?thesis
    using sys_inv_thread [OF inv t, of s' ?t Calling] ef t sys_inv_mono [of n lim _ "lim + 1"] call(2) by simp
next
  case (wake sid t ret out t')
  then show ?thesis
    using sys_inv_thread [OF inv wake(3), of "set_thread sid t' (srv y)" t' "answer_phase out (phase y sid)"]
      thread_ok_wake [OF sys_invD(2) [OF inv wake(3)] wake(4)] set_thread_effect [OF wake(3)]
      sys_inv_mono [of n lim _ "lim + 1"] by simp
next
  case (process sid ev c a c' cb)
  then show ?thesis
    using sys_inv_process [OF inv process(3,4)] client_event_effect [OF process(5)] sys_inv_mono [of n lim _ "lim + 1"] by simp
next
  case (lose sid ev c st a c' cb)
  then show ?thesis
    using sys_inv_process [OF inv lose(3,4)] client_failure_effect [OF lose(5,6)] sys_inv_mono [of n lim _ "lim + 1"] by simp
next
  case (notified sid t eid)
  have "thread_ok lim (phase y sid) (ka_block_return eid t)"
    "on_the_way (phase y sid) (ka_block_return eid t) = on_the_way (phase y sid) t"
    using thread_ok_block_return [OF sys_invD(2) [OF inv notified(3)]]
    by (simp_all add: on_the_way_def ka_block_return_def)
  from sys_inv_thread [OF inv notified(3) _ _ _ this, of "set_thread sid (ka_block_return eid t) (srv y)"]
  show ?thesis using set_thread_effect [OF notified(3)] sys_inv_mono [of n lim _ "lim + 1"] notified(2) by simp
qed


text \<open>What a step does to the files, the events on their way and the caches.\<close>

definition quiet :: "sys \<Rightarrow> sys \<Rightarrow> bool" where
  "quiet y y' \<longleftrightarrow> key_of (srv y') = key_of (srv y) \<and> sub_of (srv y') = sub_of (srv y) \<and>
     content_of (srv y') = content_of (srv y) \<and> pending y' = pending y \<and> cl y' = cl y"

lemma quiet_thread:
  assumes "thread_of sid (sdb (srv y)) = Some t"
    and "\<And>j. thread_of j (sdb s') = (if j = sid then Some t' else thread_of j (sdb (srv y)))"
    and "ds s' = ds (srv y)" "same_handles (sdb (srv y)) (sdb s')" "on_the_way ph' t' = on_the_way (phase y sid) t"
  shows "quiet y (y\<lparr>srv := s', phase := (phase y)(sid := ph')\<rparr>)"
  using assms key_of_same [of "srv y" s']
  by (auto simp: quiet_def fun_eq_iff sub_of_def content_of_def pending_def split: option.split)


lemma quiet_store: "sdb s' = sdb (srv y) \<Longrightarrow> content_of s' = content_of (srv y) \<Longrightarrow> sub_of s' = sub_of (srv y) \<Longrightarrow>
    quiet y (y\<lparr>srv := s'\<rparr>)"
  by (auto simp: quiet_def fun_eq_iff key_of_def pending_def split: option.split)

lemma sys_step_kind:
  assumes B: "buffer_api B" and st: "sys_step B y ev y'" and inv: "sys_inv n lim y"
  obtains (quiet) "quiet y y'"
  | (fetched) sid fh c c' p z where "cl y sid = Some c" "y' = y\<lparr>cl := (cl y)(sid \<mapsto> c')\<rparr>"
      "\<forall>g u. cached_content g c' = Some u \<longrightarrow> cached_content g c = Some u \<or> g = fh \<and> u = z"
      "key_of (srv y) sid fh = Some p" "content_of (srv y) p = Some z"
  | (written) x fh content p m s' where "ev = Write x fh content" "key_of (srv y) (int_of_int64 x) fh = Some p"
      "sys_write p m content y s'" "y' = y\<lparr>srv := s'\<rparr>"
  | (processed) sid answer c c' a where "phase y sid = Answered answer" "cl y sid = Some c"
      "\<forall>fh z. cached_content fh c' = Some z \<longrightarrow> cached_content fh c = Some z \<and> (\<forall>eid. answer \<noteq> Some (eid, fh))"
      "y' = y\<lparr>cl := (cl y)(sid \<mapsto> c'), phase := (phase y)(sid := Ready a)\<rparr>"
  using st
proof cases
  case (fetch sid c fh answer s' x c')
  have "y' = y\<lparr>cl := (cl y)(sid \<mapsto> c')\<rparr>" using fetch(2) sys_inv_fetch(1) [OF inv fetch(3,5,6,7)] by (cases y) simp
  then show thesis using sys_inv_fetch(3) [OF inv fetch(3,5,6,7)] fetch(3) fetched by blast
next
  case (write_call x fh content pr s')
  from B sys_invD(1) [OF inv] write_call(3,4) show ?thesis
  proof (cases rule: write_effect)
    case (rejected st)
    then have "content_of s' = content_of (srv y)" "sub_of s' = sub_of (srv y)"
      by (simp_all add: fun_eq_iff content_of_def sub_of_def)
    then show thesis using quiet quiet_store rejected(2) write_call(2) by blast
  next
    case (stored p m c0)
    then have "sys_write p m content y s'" by (simp add: sys_write_def)
    then show thesis using written write_call(1,2) stored(1) by blast
  qed
next
  case (lock_call x fh ex p s')
  then show thesis using lock_effect [OF B sys_invD(1) [OF inv] lock_call(3)] quiet quiet_store by blast
next
  case (call sid c a r s')
  obtain t where t: "thread_of sid (sdb (srv y)) = Some t" using sys_invD(3) [OF inv call(3)] by blast
  let ?t = "ka_set_reactor r (case a of Some k \<Rightarrow> k | None \<Rightarrow> -1) t"
  have "on_the_way Calling ?t = on_the_way (phase y sid) t"
    using call(4) by (simp add: on_the_way_def ka_set_reactor_def)
  then show thesis
    using quiet_thread [OF t, of s' ?t Calling] keepalive_effect [OF call(5)] t call(2) quiet by simp
next
  case (wake sid t ret out t')
  then show thesis
    using quiet_thread [OF wake(3), of "set_thread sid t' (srv y)" t' "answer_phase out (phase y sid)"]
      thread_ok_wake [OF sys_invD(2) [OF inv wake(3)] wake(4)] set_thread_effect [OF wake(3)] quiet by simp
next
  case (process sid answer c a c' cb)
  then show thesis using client_event_effect processed by blast
next
  case (lose sid answer c st a c' cb)
  have "\<forall>fh z. cached_content fh c' = Some z \<longrightarrow> cached_content fh c = Some z \<and> (\<forall>eid. answer \<noteq> Some (eid, fh))"
    using client_failure_effect(2) [OF lose(5,6)] by simp
  then show thesis using processed [OF lose(3,4)] lose(2) by blast
next
  case (notified sid t eid)
  have "on_the_way (phase y sid) (ka_block_return eid t) = on_the_way (phase y sid) t"
    by (simp add: on_the_way_def ka_block_return_def)
  then show thesis
    using quiet_thread [OF notified(3), of "set_thread sid (ka_block_return eid t) (srv y)" "ka_block_return eid t" "phase y sid"]
      set_thread_effect [OF notified(3)] notified(2) quiet by simp
qed

lemma sys_step_frame:
  assumes B: "buffer_api B" and st: "sys_step B y ev y'" and inv: "sys_inv n lim y"
  shows "key_of (srv y') = key_of (srv y) \<and> sub_of (srv y') = sub_of (srv y) \<and> dom (cl y') = dom (cl y)"
  using B st inv by (cases rule: sys_step_kind) (auto simp: quiet_def sys_write_frame)

section \<open>After a write\<close>

text \<open>Its event is still on its way to the session, or the session's cache holds no other content.\<close>

definition settled :: "i32 \<times> i32 \<Rightarrow> i32 \<Rightarrow> string \<Rightarrow> sys \<Rightarrow> bool" where
  "settled w g content y \<longleftrightarrow> (snd w, g) \<in> pending y (fst w) \<or>
     (\<forall>c z. cl y (fst w) = Some c \<longrightarrow> cached_content g c = Some z \<longrightarrow> z = content)"

definition writes_to :: "(i32 \<Rightarrow> i32 \<Rightarrow> string option) \<Rightarrow> string \<Rightarrow> sys_event \<Rightarrow> bool" where
  "writes_to key p ev = (case ev of Write x fh content \<Rightarrow> key (int_of_int64 x) fh = Some p | _ \<Rightarrow> False)"

lemma settled_step:
  assumes B: "buffer_api B" and st: "sys_step B y ev y'" and inv: "sys_inv n lim y"
    and key: "key_of (srv y) (fst w) g = Some p" and con: "content_of (srv y) p = Some content"
    and other: "\<not> writes_to (key_of (srv y)) p ev" and se: "settled w g content y"
  shows "settled w g content y' \<and> content_of (srv y') p = Some content"
  using B st inv
proof (cases rule: sys_step_kind)
  case quiet
  then show ?thesis using se con by (simp add: settled_def quiet_def)
next
  case (fetched sid fh c c' q z)
  have "pending y' = pending y" by (simp add: fun_eq_iff fetched(2) pending_def split: option.split)
  moreover have "u = content" if "(snd w, g) \<notin> pending y (fst w)" "sid = fst w" "cached_content g c' = Some u" for u
  proof -
    have "cached_content g c = Some u \<or> g = fh \<and> u = z" using fetched(3) that(3) by blast
    then show ?thesis using that se con key fetched(1,4,5) by (auto simp: settled_def)
  qed
  ultimately show ?thesis using se con fetched(1,2) by (auto simp: settled_def)
next
  case (written x fh content' q m s')
  have "q \<noteq> p" using other written(1,2) by (auto simp: writes_to_def)
  then show ?thesis
    using se con sys_write_pending [OF written(3), of "fst w"] sys_write_frame(3) [OF written(3)] written(4)
    by (auto simp: settled_def)
next
  case (processed sid answer c c' a)
  have "content_of (srv y') p = Some content" using con processed(4) by simp
  moreover have "settled w g content y'"
  proof (cases "(snd w, g) \<in> pending y' (fst w)")
    case False
    show ?thesis
    proof (cases "(snd w, g) \<in> pending y (fst w)")
      case True
      then have "(snd w, g) \<in> (if fst w = sid then set_option answer else {})"
        using False pending_process(1) [OF processed(1)] unfolding processed(4) by blast
      then have "fst w = sid" "answer = Some (snd w, g)" by (auto split: if_splits)
      then show ?thesis using processed(3,4) by (auto simp: settled_def)
    qed (use se processed in \<open>auto simp: settled_def\<close>)
  qed (simp add: settled_def)
  ultimately show ?thesis by simp
qed


section \<open>Runs\<close>

lemma sys_run_inv:
  assumes B: "buffer_api B" and run: "sys_run B y0 tr y" and inv: "sys_inv n lim y0"
    and lim: "lim + int (length tr) < 2 ^ 31"
  shows "sys_inv n (lim + int (length tr)) y \<and> key_of (srv y) = key_of (srv y0) \<and>
    sub_of (srv y) = sub_of (srv y0) \<and> dom (cl y) = dom (cl y0)"
  using run lim
proof (induction rule: steps.induct)
  case (steps_more tr y ev y')
  then have ih: "sys_inv n (lim + int (length tr)) y" "key_of (srv y) = key_of (srv y0)" "sub_of (srv y) = sub_of (srv y0)"
      "dom (cl y) = dom (cl y0)" by simp_all
  show ?case
    using sys_inv_step [OF B steps_more.hyps(2) ih(1)] sys_step_frame [OF B steps_more.hyps(2) ih(1)] ih steps_more.prems
    by (simp add: add.commute add.left_commute)
qed (use inv in simp)

lemma sys_run_settled:
  assumes B: "buffer_api B" and run: "sys_run B y1 tr y" and inv: "sys_inv n lim y1"
    and lim: "lim + int (length tr) < 2 ^ 31" and key: "key_of (srv y1) (fst w) g = Some p"
    and con: "content_of (srv y1) p = Some content" and se: "settled w g content y1"
    and other: "\<forall>ev \<in> set tr. \<not> writes_to (key_of (srv y1)) p ev"
  shows "settled w g content y \<and> content_of (srv y) p = Some content"
  using run lim other
proof (induction rule: steps.induct)
  case (steps_more tr y ev y')
  have inv': "sys_inv n (lim + int (length tr)) y" "key_of (srv y) = key_of (srv y1)"
    using sys_run_inv [OF B steps_more.hyps(1) inv] steps_more.prems by simp_all
  show ?case
    using settled_step [OF B steps_more.hyps(2) inv'(1), of w g p content] inv'(2) key steps_more.IH steps_more.prems by simp
qed (use con se in simp)

text \<open>The start: a well-formed store, fresh keep-alive threads, empty caches.\<close>

definition sys_init :: "nat \<Rightarrow> int \<Rightarrow> sys \<Rightarrow> bool" where
  "sys_init n lim y \<longleftrightarrow> sm_inv n (srv y) \<and> phase y = (\<lambda>_. Ready None) \<and>
     (\<forall>sid t. thread_of sid (sdb (srv y)) = Some t \<longrightarrow>
        (\<exists>e0. t = new_kathread e0 (ka_sid t) \<and> 0 \<le> sint e0 \<and> sint e0 \<le> lim)) \<and>
     (\<forall>sid c. cl y sid = Some c \<longrightarrow> thread_of sid (sdb (srv y)) \<noteq> None \<and> cache c = Map.empty)"

lemma sys_init_inv:
  assumes "sys_init n lim y"
  shows "sys_inv n lim y"
proof -
  have "thread_ok lim (Ready None) (new_kathread e0 sid)" if "0 \<le> sint e0" "sint e0 \<le> lim" for e0 sid
    using that by (simp add: thread_ok_defs new_kathread_def)
  then have "thread_of sid (sdb (srv y)) = Some t \<Longrightarrow> thread_ok lim (phase y sid) t" for sid t
    using assms unfolding sys_init_def by metis
  then show ?thesis using assms by (auto simp: sys_inv_def sys_init_def cached_content_def)
qed

text \<open>Two clients with a handle each on the file "/f", whose leader has just been elected.\<close>

definition demo_client :: "i32 \<Rightarrow> client" where
  "demo_client sid = \<lparr>client_session_id = sid, cur_srv_id = 0, channel = [], has_conn = True,
     client_cancelled = False, cache = Map.empty, callbacks = Map.empty\<rparr>"

definition demo_sys :: sys where
  "demo_sys = \<lparr>srv = new_leader 5 two_sessions, cl = [0 \<mapsto> demo_client 0, 1 \<mapsto> demo_client 1], phase = (\<lambda>_. Ready None)\<rparr>"

definition after_exec :: "sys_event list \<Rightarrow> sys \<Rightarrow> sys" where
  "after_exec tr y = the (sys_execs le_buf tr y)"

definition execs :: "sys_event list \<Rightarrow> sys \<Rightarrow> bool" where
  "execs tr y = (case sys_execs le_buf tr y of None \<Rightarrow> False | Some _ \<Rightarrow> True)"

definition cached_at :: "sys \<Rightarrow> i32 \<Rightarrow> i32 \<Rightarrow> string option" where
  "cached_at y sid fh = (case cl y sid of None \<Rightarrow> None | Some c \<Rightarrow> cached_content fh c)"

lemma execs_run: "execs tr y \<Longrightarrow> sys_run le_buf y tr (after_exec tr y)"
  by (auto simp: execs_def after_exec_def intro: sys_execs_run split: option.splits)

lemma after_exec_write:
  "SetContent (leader_raft le_buf) le_buf x fh content (srv y) = Inr (p, s1) \<Longrightarrow> int (length content) < 4294967296 \<Longrightarrow>
   after_exec (Write x fh content # tr) y = after_exec tr (y\<lparr>srv := s1\<rparr>) \<and>
   execs (Write x fh content # tr) y = execs tr (y\<lparr>srv := s1\<rparr>)"
  by (simp add: after_exec_def execs_def)

lemma cached_at_client: "cached_at y sid fh = Some z \<Longrightarrow> \<exists>c. cl y sid = Some c \<and> cached_content fh c = Some z"
  by (auto simp: cached_at_def split: option.splits)

lemma demo_sys_init: "sys_init 4 5 demo_sys"
proof -
  have "leader_reaches two_sessions (new_leader 5 two_sessions)" by (rule new_leader_reaches) code_simp
  moreover have "length two_sessions = 4" by (simp add: two_sessions_def)
  ultimately have "sm_inv 4 (new_leader 5 two_sessions)" using leader_reaches_inv [of two_sessions] by simp
  moreover have "thread_of sid (sdb (new_leader 5 two_sessions)) = Some t \<Longrightarrow>
      \<exists>e0. t = new_kathread e0 (ka_sid t) \<and> 0 \<le> sint e0 \<and> sint e0 \<le> 5" for sid t
    by (rule exI [of _ 5]) (auto simp: thread_of_def new_leader_def db_start_kathread_def find_session_def entry_start_kathread_def
        new_kathread_def split: option.splits)
  moreover have "thread_of 0 (sdb (new_leader 5 two_sessions)) = Some (new_kathread 5 0)"
    "thread_of 1 (sdb (new_leader 5 two_sessions)) = Some (new_kathread 5 1)" by code_simp+
  ultimately show ?thesis by (auto simp: sys_init_def demo_sys_def demo_client_def split: if_splits)
qed





end
