(* ===== verification/Progress.thy ===== *)
theory Progress
  imports Coherence
begin

text \<open>
  A write can always return. From every state of the composed system in which a write waits for
  acknowledgements there is a run, of KeepAlive calls, wake-ups and clients' steps only, after which every session it waits
  for has acknowledged the event or has expired. The run serves one session after the other, and each of its steps
  brings the event closer to its acknowledgement.
\<close>

definition others_same :: "i32 \<Rightarrow> sys \<Rightarrow> sys \<Rightarrow> bool" where
  "others_same sid y y' \<longleftrightarrow> dom (cl y') = dom (cl y) \<and>
     (\<forall>j. j \<noteq> sid \<longrightarrow> thread_of j (sdb (srv y')) = thread_of j (sdb (srv y)) \<and> phase y' j = phase y j)"

lemma others_same_trans: "others_same sid y y1 \<Longrightarrow> others_same sid y1 y2 \<Longrightarrow> others_same sid y y2"
  by (auto simp: others_same_def)

lemma others_same_refl: "others_same sid y y"
  by (simp add: others_same_def)

section \<open>The steps of one session\<close>

lemma call_possible:
  assumes inv: "sys_inv n lim y" and c: "cl y sid = Some c" and ph: "phase y sid = Ready a"
    and t: "thread_of sid (sdb (srv y)) = Some t"
  obtains y' t' where "sys_step B y (Call sid 0) y'" "sys_inv n lim y'" "others_same sid y y'"
    "thread_of sid (sdb (srv y')) = Some t'" "phase y' sid = Calling" "cancelled t' = cancelled t"
    "event_queue t' = event_queue t" "acked_events t' = insert (case a of Some k \<Rightarrow> k | None \<Rightarrow> -1) (acked_events t)"
proof -
  let ?a = "case a of Some k \<Rightarrow> k | None \<Rightarrow> -1"
  let ?t = "ka_set_reactor 0 ?a t"
  obtain e where e: "find_session sid (sdb (srv y)) = Some e" using thread_of_find [OF t] by blast
  define s' where "s' = set_session sid (entry_set_reactor 0 ?a e) (srv y)"
  have ka: "KeepAlive (leader_raft B) 0 (int64_of_int sid) a (srv y) = (None, s')"
    using e by (simp add: KeepAlive_def leader_raft_def s'_def)
  let ?y = "y\<lparr>srv := s', phase := (phase y)(sid := Calling)\<rparr>"
  note ef = keepalive_effect [OF ka]
  have "thread_ok lim Calling ?t" using thread_ok_set_reactor sys_invD(2) [OF inv t] ph by simp
  moreover have "on_the_way Calling ?t = on_the_way (phase y sid) t" using ph by (simp add: on_the_way_def ka_set_reactor_def)
  ultimately have "sys_inv n lim ?y" using sys_inv_thread [OF inv t, of s' ?t Calling] ef t by simp
  then show thesis
    using sys_step.call [OF c ph ka] ef t
    by (intro that [of ?y ?t]) (simp_all add: others_same_def ka_set_reactor_def)
qed

lemma wake_possible:
  assumes inv: "sys_inv n lim y" and t: "thread_of sid (sdb (srv y)) = Some t" and ph: "phase y sid = Calling"
    and live: "\<not> cancelled t" and q: "event_queue t = ev # q"
  obtains y' t' where "sys_step B y (Wake sid No_timeout) y'" "sys_inv n lim y'" "others_same sid y y'"
    "thread_of sid (sdb (srv y')) = Some t'" "phase y' sid = Answered (Some ev)" "\<not> cancelled t'"
    "event_queue t' = q" "acked_events t' = acked_events t"
proof -
  have "reactor t \<noteq> None" using sys_invD(2) [OF inv t] ph by (simp add: thread_ok_def)
  then obtain r where r: "reactor t = Some r" by blast
  let ?t = "t\<lparr>event_queue := q, reactor := None\<rparr>"
  have w: "ka_wake No_timeout t = (Finish r (Some ev), ?t)" using live q r by (simp add: ka_wake_def)
  let ?y = "y\<lparr>srv := set_thread sid ?t (srv y), phase := (phase y)(sid := Answered (Some ev))\<rparr>"
  have ph': "answer_phase (Finish r (Some ev)) (phase y sid) = Answered (Some ev)" by (simp add: answer_phase_def)
  have "sys_inv n lim ?y"
    using sys_inv_thread [OF inv t, of "set_thread sid ?t (srv y)" ?t "Answered (Some ev)"]
      thread_ok_wake [OF sys_invD(2) [OF inv t] w] set_thread_effect [OF t] by (simp add: ph')
  moreover have "sys_step B y (Wake sid No_timeout) ?y" using sys_step.wake [OF t w] by (simp add: ph')
  ultimately show thesis
    using set_thread_effect [OF t] live by (intro that [of ?y ?t]) (simp_all add: others_same_def)
qed

lemma process_possible:
  assumes inv: "sys_inv n lim y" and c: "cl y sid = Some c" and ph: "phase y sid = Answered ev"
  obtains y' where "sys_step B y (Process sid) y'" "sys_inv n lim y'" "others_same sid y y'"
    "srv y' = srv y" "phase y' sid = Ready (ack_for ev)"
proof -
  have "\<exists>r. client_keepalive status_ok (event_of ev) c = Inr r"
    by (cases ev) (auto simp: client_keepalive_def event_of_def is_ok_def status_ok_def Let_def)
  then obtain a c' cb where k: "client_keepalive status_ok (event_of ev) c = Inr (a, c', cb)" by (metis surj_pair)
  let ?y = "y\<lparr>cl := (cl y)(sid \<mapsto> c'), phase := (phase y)(sid := Ready a)\<rparr>"
  have "a = ack_for ev" using client_event_effect [OF k] by simp
  then show thesis
    using sys_step.process [OF ph c k] sys_inv_process [OF inv ph c] client_event_effect [OF k] c
    by (intro that [of ?y]) (auto simp: others_same_def)
qed

section \<open>Driving a session until it has acknowledged an event\<close>

definition coming :: "i32 \<Rightarrow> ka_phase \<Rightarrow> ka_thread \<Rightarrow> bool" where
  "coming eid ph t \<longleftrightarrow> eid \<in> given_acks ph t \<or> eid \<in> fst ` set (on_the_way ph t)"

definition distance :: "ka_phase \<Rightarrow> ka_thread \<Rightarrow> nat" where
  "distance ph t = 3 * length (on_the_way ph t) +
     (case ph of Answered None \<Rightarrow> 3 | Ready a \<Rightarrow> 2 | Calling \<Rightarrow> 1 | Answered (Some ev) \<Rightarrow> 0)"

definition keepalive_only :: "sys_event \<Rightarrow> bool" where
  "keepalive_only ev = (case ev of Call _ _ \<Rightarrow> True | Wake _ No_timeout \<Rightarrow> True | Process _ \<Rightarrow> True | _ \<Rightarrow> False)"

lemma drive_session:
  assumes "sys_inv n lim y" and "cl y sid = Some c" and "thread_of sid (sdb (srv y)) = Some t"
    and "\<not> cancelled t" and "coming eid (phase y sid) t"
  shows "\<exists>tr y' t'. sys_run B y tr y' \<and> list_all keepalive_only tr \<and> sys_inv n lim y' \<and> others_same sid y y' \<and>
    thread_of sid (sdb (srv y')) = Some t' \<and> eid \<in> acked_events t'"
  using assms
proof (induction "distance (phase y sid) t" arbitrary: y c t rule: less_induct)
  case less
  note inv = less.prems(1) and c = less.prems(2) and t = less.prems(3)
  have step: ?case if s: "sys_step B y ev y1" "keepalive_only ev" "sys_inv n lim y1" "others_same sid y y1"
      "thread_of sid (sdb (srv y1)) = Some t1" "\<not> cancelled t1" "coming eid (phase y1 sid) t1"
      "distance (phase y1 sid) t1 < distance (phase y sid) t" for ev y1 t1
  proof -
    have "\<exists>c1. cl y1 sid = Some c1" using s(4) c by (auto simp: others_same_def)
    then obtain tr y' t' where "sys_run B y1 tr y'" "list_all keepalive_only tr" "sys_inv n lim y'" "others_same sid y1 y'"
        "thread_of sid (sdb (srv y')) = Some t'" "eid \<in> acked_events t'"
      using less.hyps [OF s(8,3) _ s(5,6,7)] by blast
    then show ?thesis using steps_cons [where step = "sys_step B", OF s(1)] s(2) others_same_trans [OF s(4)]
      by (intro exI [of _ "ev # tr"] exI [of _ y'] exI [of _ t']) simp
  qed
  show ?case
  proof (cases "eid \<in> acked_events t")
    case True
    then show ?thesis using inv t steps_start others_same_refl
      by (intro exI [of _ "[]"] exI [of _ y] exI [of _ t]) simp
  next
    case fresh: False
    show ?thesis
    proof (cases "phase y sid")
      case (Ready a)
      obtain y1 t1 where s: "sys_step B y (Call sid 0) y1" "sys_inv n lim y1" "others_same sid y y1"
          "thread_of sid (sdb (srv y1)) = Some t1" "phase y1 sid = Calling" "cancelled t1 = cancelled t"
          "event_queue t1 = event_queue t" "acked_events t1 = insert (case a of Some k \<Rightarrow> k | None \<Rightarrow> -1) (acked_events t)"
        using call_possible [OF inv c Ready t] .
      show ?thesis
        by (rule step [OF s(1) _ s(2,3,4)])
          (use s less.prems(4,5) Ready in \<open>auto simp: keepalive_only_def coming_def given_acks_def on_the_way_def distance_def
            split: option.splits\<close>)
    next
      case Calling
      then have "eid \<in> fst ` set (event_queue t)" using less.prems(5) fresh
        by (auto simp: coming_def given_acks_def on_the_way_def)
      then obtain ev q where q: "event_queue t = ev # q" by (cases "event_queue t") auto
      obtain y1 t1 where s: "sys_step B y (Wake sid No_timeout) y1" "sys_inv n lim y1" "others_same sid y y1"
          "thread_of sid (sdb (srv y1)) = Some t1" "phase y1 sid = Answered (Some ev)" "\<not> cancelled t1"
          "event_queue t1 = q" "acked_events t1 = acked_events t"
        using wake_possible [OF inv t Calling less.prems(4) q] .
      show ?thesis
        by (rule step [OF s(1) _ s(2,3,4,6)])
          (use s less.prems(5) Calling q in \<open>auto simp: keepalive_only_def coming_def given_acks_def on_the_way_def distance_def\<close>)
    next
      case (Answered ev)
      obtain y1 where s: "sys_step B y (Process sid) y1" "sys_inv n lim y1" "others_same sid y y1"
          "srv y1 = srv y" "phase y1 sid = Ready (ack_for ev)"
        using process_possible [OF inv c Answered] .
      show ?thesis
        by (rule step [OF s(1) _ s(2,3)])
          (use s t less.prems(4,5) Answered in \<open>auto simp: keepalive_only_def coming_def given_acks_def on_the_way_def
            distance_def ack_for_def split: option.splits\<close>)
    qed
  qed
qed

section \<open>Serving every session a write waits for\<close>

definition answered :: "sys \<Rightarrow> i32 \<times> i32 \<Rightarrow> bool" where
  "answered y w \<longleftrightarrow> (\<exists>t. thread_of (fst w) (sdb (srv y)) = Some t \<and> (cancelled t \<or> snd w \<in> acked_events t))"

definition answerable :: "sys \<Rightarrow> i32 \<times> i32 \<Rightarrow> bool" where
  "answerable y w \<longleftrightarrow> (\<exists>t c. thread_of (fst w) (sdb (srv y)) = Some t \<and> cl y (fst w) = Some c \<and>
     coming (snd w) (phase y (fst w)) t)"

lemma drive_sessions:
  assumes "sys_inv n lim y" and "distinct (map fst waits)" and "list_all (answerable y) waits"
  shows "\<exists>tr y'. sys_run B y tr y' \<and> list_all keepalive_only tr \<and> sys_inv n lim y' \<and> dom (cl y') = dom (cl y) \<and>
    (\<forall>j. j \<notin> fst ` set waits \<longrightarrow> thread_of j (sdb (srv y')) = thread_of j (sdb (srv y)) \<and> phase y' j = phase y j) \<and>
    list_all (answered y') waits"
  using assms(2,3)
proof (induction waits)
  case Nil
  then show ?case using assms(1) by (intro exI [of _ "[]"] exI [of _ y]) (simp add: steps_start)
next
  case (Cons w waits)
  obtain tr1 y1 where y1: "sys_run B y tr1 y1" "list_all keepalive_only tr1" "sys_inv n lim y1" "dom (cl y1) = dom (cl y)"
      "\<And>j. j \<notin> fst ` set waits \<Longrightarrow> thread_of j (sdb (srv y1)) = thread_of j (sdb (srv y)) \<and> phase y1 j = phase y j"
      "list_all (answered y1) waits" using Cons by auto
  have nin: "fst w \<notin> fst ` set waits" using Cons.prems(1) by auto
  obtain t c where t: "thread_of (fst w) (sdb (srv y1)) = Some t" "coming (snd w) (phase y1 (fst w)) t"
    and "cl y (fst w) = Some c" using Cons.prems(2) y1(5) [OF nin] by (auto simp: answerable_def)
  then obtain c1 where c1: "cl y1 (fst w) = Some c1" using y1(4) by blast
  have kept: "list_all (answered y2) waits"
    if "\<forall>j. j \<noteq> fst w \<longrightarrow> thread_of j (sdb (srv y2)) = thread_of j (sdb (srv y1))" for y2
    unfolding list_all_iff
  proof
    fix v
    assume v: "v \<in> set waits"
    then have "fst v \<noteq> fst w" using nin by (metis image_eqI)
    then show "answered y2 v" using that y1(6) v by (simp add: answered_def list_all_iff)
  qed
  show ?case
  proof (cases "cancelled t")
    case True
    then have "answered y1 w" using t(1) by (simp add: answered_def)
    then show ?thesis using y1 by (intro exI [of _ tr1] exI [of _ y1]) simp
  next
    case False
    from drive_session [OF y1(3) c1 t(1) False t(2)] obtain tr2 y2 t2 where y2: "sys_run B y1 tr2 y2"
        "list_all keepalive_only tr2" "sys_inv n lim y2" "others_same (fst w) y1 y2"
        "thread_of (fst w) (sdb (srv y2)) = Some t2" "snd w \<in> acked_events t2" by blast
    have "sys_run B y (tr1 @ tr2) y2" using steps_append [OF y2(1) y1(1)] .
    moreover have "list_all (answered y2) waits" using kept y2(4) by (simp add: others_same_def)
    moreover have "answered y2 w" using y2(5,6) by (simp add: answered_def)
    ultimately show ?thesis using y1 y2
      by (intro exI [of _ "tr1 @ tr2"] exI [of _ y2]) (simp add: others_same_def)
  qed
qed

lemma event_waits_distinct: "distinct (map fst subs) \<Longrightarrow> distinct (map fst (event_waits subs d))"
proof (induction subs)
  case (Cons a subs)
  have "fst ` set (event_waits subs d) \<subseteq> fst ` set subs"
    by (force simp: event_waits_def List.map_filter_def)
  then show ?case using Cons
    by (cases a) (auto simp: event_waits_def List.map_filter_simps split: option.split)
qed (simp add: event_waits_def List.map_filter_simps)

lemma answered_acked: "list_all (answered y) waits \<Longrightarrow> all_acked waits (srv y)"
  by (auto simp: list_all_iff answered_def all_acked_def thread_of_def entry_unblocked_def ka_unblocked_def split: option.splits)



end
