(* ===== verification/Races.thy ===== *)
theory Races
  imports Coherence
begin

text \<open>
  Where the caches fail. Coherence (\<open>Coherence\<close>) holds while a read that misses is one step and sessions do
  not expire, and speaks of writes; here are runs of the same components without these conditions. In the first the
  answer of a read crosses a write; in the second the server gives up a session that its client still trusts; then a delete,
  which no client is told about, and a second handle of a session.
\<close>

definition stored_late :: "i32 \<Rightarrow> status \<times> string \<Rightarrow> sys \<Rightarrow> i32 \<Rightarrow> sys" where
  "stored_late sid answer y fh =
     (case cl y sid of
        None \<Rightarrow> y
      | Some c \<Rightarrow> (case client_get_content fh answer c of Inl _ \<Rightarrow> y | Inr (_, c') \<Rightarrow> y\<lparr>cl := (cl y)(sid \<mapsto> c')\<rparr>))"

text \<open>The acknowledgement of a write by both sessions: the calls, their answers, and the next calls.\<close>

definition both_acknowledge :: "sys_event list" where
  "both_acknowledge = [Call 0 0, Call 1 0, Wake 0 No_timeout, Wake 1 No_timeout, Process 0, Process 1, Call 0 1, Call 1 1]"

definition write_returned :: "i64 \<Rightarrow> i32 \<Rightarrow> string \<Rightarrow> sys \<Rightarrow> sys \<Rightarrow> bool" where
  "write_returned x fh content y y' \<longleftrightarrow>
     (case SetContent (leader_raft le_buf) le_buf x fh content (srv y) of
        Inr (Await ret k, s1) \<Rightarrow> ret (srv y') | _ \<Rightarrow> False)"

definition no_events :: "sys \<Rightarrow> i32 \<Rightarrow> bool" where
  "no_events y sid \<longleftrightarrow>
     (case thread_of sid (sdb (srv y)) of None \<Rightarrow> True | Some t \<Rightarrow> on_the_way (phase y sid) t = [])"

text \<open>
  A late answer stays in the cache. Session 1 misses and asks the server for the content of "/f"; before it
  stores the answer, session 0 writes the file, both sessions' clients process and acknowledge the event, and
  the write returns. The client then stores the old answer: the next reads of session 1 are served
  from the cache, with the content from before the write, and no event is on its way that would remove it.
\<close>

theorem late_answer_stays_stale:
  "\<exists>answer. GetContent (leader_raft le_buf) 1 0 (srv demo_sys) = Inr (Return answer, srv demo_sys) \<and>
     (let y = after_exec (Write 0 0 ''new'' # both_acknowledge) demo_sys;
          y' = stored_late 1 answer y 0
      in execs (Write 0 0 ''new'' # both_acknowledge) demo_sys \<and> write_returned 0 0 ''new'' demo_sys y \<and>
         cached_at y' 1 0 = Some [] \<and> content_of (srv y') ''/f'' = Some ''new'' \<and> no_events y' 1)"
proof -
  have "GetContent (leader_raft le_buf) 1 0 (srv demo_sys) = Inr (Return (status_ok, []), srv demo_sys)"
  proof -
    have "session_of (new_leader 5 two_sessions) 1 =
        Some \<lparr>entry_id = 1, entry_v = [''/f''], entry_inum = [0], kathread = Some (new_kathread 5 1)\<rparr>"
      "content_of (new_leader 5 two_sessions) ''/f'' = Some []" by code_simp+
    then show ?thesis
      by (auto simp: GetContent_def leader_raft_def demo_sys_def session_of_def content_of_def fh_to_key_def vec_at_def reply_def)
  qed
  moreover have "execs (Write 0 0 ''new'' # both_acknowledge) demo_sys" by code_simp
  moreover have "write_returned 0 0 ''new'' demo_sys (after_exec (Write 0 0 ''new'' # both_acknowledge) demo_sys)" by code_simp
  moreover have "cached_at (stored_late 1 (status_ok, []) (after_exec (Write 0 0 ''new'' # both_acknowledge) demo_sys) 0) 1 0 = Some []"
    by code_simp
  moreover have "content_of (srv (stored_late 1 (status_ok, []) (after_exec (Write 0 0 ''new'' # both_acknowledge) demo_sys) 0)) ''/f'' =
      Some ''new''" by code_simp
  moreover have "no_events (stored_late 1 (status_ok, []) (after_exec (Write 0 0 ''new'' # both_acknowledge) demo_sys) 0) 1"
    by code_simp
  ultimately show ?thesis unfolding Let_def by blast
qed

text \<open>
  The second run: the keep-alive thread of session 1 times out twice without a call, so the session
  expires; a write of session 0 returns without waiting for session 1, whose client, connected as far as
  it knows until its call's deadline, still serves the old content.
\<close>

definition expiry_run :: "sys_event list" where
  "expiry_run = [Fetch 1 0, Call 1 0, Wake 1 Timeout, Wake 1 Timeout]"

lemma expired_client_reads_stale:
  "let y = after_exec expiry_run demo_sys;
       y' = after_exec [Write 0 0 ''new'', Call 0 0, Wake 0 No_timeout, Process 0, Call 0 1] y
   in execs expiry_run demo_sys \<and> write_returned 0 0 ''new'' y y' \<and>
      cached_at y' 1 0 = Some [] \<and> content_of (srv y') ''/f'' = Some ''new''"
  unfolding Let_def by (intro conjI) code_simp+

text \<open>
  In the third run, session 0 deletes a file that session 1 has cached. A delete tells the owners of the lock and
  the subscribers of the directory, not those of the file.
\<close>

definition write_and_fetch :: "sys_event list" where
  "write_and_fetch = Write 0 0 ''x'' # both_acknowledge @ [Fetch 1 0]"

text \<open>The events that are on their way to a session.\<close>

definition events_for :: "sys \<Rightarrow> i32 \<Rightarrow> (i32 \<times> i32) list" where
  "events_for y sid = (case thread_of sid (sdb (srv y)) of None \<Rightarrow> [] | Some t \<Rightarrow> on_the_way (phase y sid) t)"

lemma delete_call_effect:
  assumes B: "buffer_api B" and inv: "sm_inv n s" and n: "n < 2 ^ 31 - 1" and re: "resolves s x fh p"
    and m: "ds s p = Some (m, c)" and pp: "parent_path p \<noteq> p" "ds s (parent_path p) = Some (pm, pc)"
    and own: "j \<notin> lock_owners m" and sub: "subscribed pm j = None" and h: "Delete (leader_raft B) B x fh s = Inr (pr, s')"
  shows "\<not> exists_file s' p \<and> content_of s' p = Some [] \<and> find_session j (sdb s') = find_session j (sdb s)"
proof -
  have fits: "action_fits (DeleteAction x fh)" by (simp add: action_fits_def)
  obtain e where e: "find_session (int_of_int64 x) (sdb s) = Some e" "fh_to_key fh e = Inr p" using re by (auto simp: resolves_def)
  obtain r s1 where ap: "apply_action (DeleteAction x fh) s = Inr (r, s1)"
  proof (cases "apply_action (DeleteAction x fh) s")
    case (Inl crash)
    then show thesis using leader_crash [where 'a = i32, OF B fits Inl] h by (simp add: Delete_def del: apply_action.simps)
  qed auto
  have d: "r = Response 0 []" "ds s1 p = Some (meta_delete m, [])" "\<exists>pc'. ds s1 (parent_path p) = Some (pm, pc')"
      "\<forall>i. find_session i (sdb s1) =
        (if i \<in> lock_owners m then map_option (\<lambda>e. snd (entry_enqueue_event fh e)) (find_session i (sdb s))
         else find_session i (sdb s))"
    using ap pp(2) by (auto elim!: delete_effect [OF _ re m pp(1)])
  let ?s1 = "s1\<lparr>last_committed_idx := 0\<rparr>"
  have inv1: "sm_inv (Suc n) ?s1" using apply_action_inv [OF inv n ap] by simp
  have "evolves s s1" using apply_action_evolves [OF inv n ap] .
  then have key: "find_session (int_of_int64 x) (sdb s1) = Some e1 \<Longrightarrow> fh_to_key fh e1 = Inr p" for e1
    using e fh_to_key_evolves [OF _ e(2)] by (auto simp: evolves_def db_evolves_def)
  obtain e1 where e1: "find_session (int_of_int64 x) (sdb s1) = Some e1" using d(4) [rule_format, of "int_of_int64 x"] e by (cases "int_of_int64 x \<in> lock_owners m") auto
  obtain buf where buf: "read_response B buf = Inr (0, [])"
      "\<forall>(none :: i32) k. append_action (leader_raft B) B (DeleteAction x fh) none k s = k buf ?s1"
    using leader_append [OF B fits ap] d(1) by (auto simp: is_end_session_def)
  then have go: "notify_events (parent_path p) (reply (status_ok, 0)) ?s1 = Inr (pr, s')"
    using h e1 key [OF e1] by (simp add: Delete_def)
  obtain pc' where pm: "ds ?s1 (parent_path p) = Some (pm, pc')" using d(3) by auto
  from notify_events_live [OF inv1 pm, of "reply (status_ok, 0 :: i32)"] obtain d2 where
      d2: "notified_db (subscribers pm) (sdb ?s1) d2"
    and ev: "notify_events (parent_path p) (reply (status_ok, 0 :: i32)) ?s1 =
      (let s1 = ?s1\<lparr>sdb := d2\<rparr>; waits = event_waits (subscribers pm) (sdb ?s1) in
       if waits = [] then reply (status_ok, 0) s1
       else Inr (Await (all_acked waits) (\<lambda>s2. reply (status_ok, 0) (s2\<lparr>sdb := block_returns waits (sdb s2)\<rparr>)), s1))" by blast
  have s': "s' = ?s1\<lparr>sdb := d2\<rparr>" using go unfolding ev by (auto simp: Let_def reply_def split: if_splits)
  have "find_session j d2 = find_session j (sdb s1)" using d2 sub by (simp add: notified_db_def subscribed_def)
  then show ?thesis using d own s' by (simp add: exists_file_def content_of_def meta_delete_def)
qed

text \<open>
  C35: a deleted file lives on in the caches. In any reachable state, a \<open>Delete\<close> call removes the file and its content, but what the
  client of a session has cached stays, and no event is sent to it, whether it has the file open or not, if it neither owns the lock of
  the file nor has the directory of the file open: its reads go on being served from the cache.
\<close>

theorem deleted_file_stays_cached:
  assumes "buffer_api B" and "sys_init n lim y0" and "sys_run B y0 tr y" and "lim + int (length tr) < 2 ^ 31" and "n < 2 ^ 31 - 1"
    and "resolves (srv y) x fh p" and "ds (srv y) p = Some (m, c)" and "parent_path p \<noteq> p"
    and "ds (srv y) (parent_path p) = Some (pm, pc)" and "sid \<notin> lock_owners m" and "subscribed pm sid = None"
    and "Delete (leader_raft B) B x fh (srv y) = Inr (pr, s')"
  shows "\<not> exists_file s' p \<and> content_of s' p = Some [] \<and>
    cached_at (y\<lparr>srv := s'\<rparr>) sid = cached_at y sid \<and> events_for (y\<lparr>srv := s'\<rparr>) sid = events_for y sid"
proof -
  have "sm_inv n (srv y)" using sys_run_inv [OF assms(1,3) sys_init_inv [OF assms(2)] assms(4)] sys_invD(1) by blast
  from delete_call_effect [OF assms(1) this assms(5-12)] show ?thesis
    by (auto simp: cached_at_def events_for_def thread_of_def fun_eq_iff split: option.split)
qed

text \<open>Session 1 has read "/f" after the last write, and session 0 deletes the file.\<close>

theorem deleted_file_stays_cached_witness:
  "\<exists>pr s'. Delete (leader_raft le_buf) le_buf 0 0 (srv (after_exec write_and_fetch demo_sys)) = Inr (pr, s') \<and>
     \<not> exists_file s' ''/f'' \<and> cached_at ((after_exec write_and_fetch demo_sys)\<lparr>srv := s'\<rparr>) 1 0 = Some ''x'' \<and>
     events_for ((after_exec write_and_fetch demo_sys)\<lparr>srv := s'\<rparr>) 1 = []"
proof -
  let ?y = "after_exec write_and_fetch demo_sys" and ?file = "\<lambda>p. the (ds (srv (after_exec write_and_fetch demo_sys)) p)"
  have run: "sys_run le_buf demo_sys write_and_fetch ?y" by (rule execs_run) code_simp
  have len: "(5 :: int) + int (length write_and_fetch) < 2 ^ 31" by (simp add: write_and_fetch_def both_acknowledge_def)
  have n: "(4 :: nat) < 2 ^ 31 - 1" by simp
  have re: "resolves (srv ?y) 0 0 ''/f''" by code_simp
  have pp: "parent_path ''/f'' \<noteq> ''/f''" by code_simp
  have "ds (srv ?y) ''/f'' \<noteq> None" "ds (srv ?y) (parent_path ''/f'') \<noteq> None" by code_simp+
  then have f: "ds (srv ?y) ''/f'' = Some (fst (?file ''/f''), snd (?file ''/f''))"
    "ds (srv ?y) (parent_path ''/f'') = Some (fst (?file (parent_path ''/f'')), snd (?file (parent_path ''/f'')))" by simp_all
  have own: "1 \<notin> lock_owners (fst (?file ''/f''))" by code_simp
  have sub: "subscribed (fst (?file (parent_path ''/f''))) 1 = None" by code_simp
  have "(case Delete (leader_raft le_buf) le_buf 0 0 (srv ?y) of Inr _ \<Rightarrow> True | Inl _ \<Rightarrow> False)" by code_simp
  then obtain pr s' where del: "Delete (leader_raft le_buf) le_buf 0 0 (srv ?y) = Inr (pr, s')" by (auto split: sum.splits)
  have "cached_at ?y 1 0 = Some ''x''" "events_for ?y 1 = []" by code_simp+
  then show ?thesis
    using deleted_file_stays_cached [OF le.buffer_api_axioms demo_sys_init run len n re f(1) pp f(2) own sub del] del by auto
qed

text \<open>
  And session 1 opens the file a second time, which replaces the first handle in the subscription: a later write
  returns with the acknowledgement of the event for the second handle, while the content cached for the first one stays.
\<close>

definition reopened :: "sys \<Rightarrow> sys" where
  "reopened y =
     (case Open (leader_raft le_buf) le_buf 1 ''/f'' False False (srv y) of
        Inr (_, s') \<Rightarrow> y\<lparr>srv := s'\<rparr> | Inl _ \<Rightarrow> y)"

lemma second_handle_hides_first:
  "let y = reopened (after_exec [Fetch 1 0] demo_sys);
       y' = after_exec (Write 0 0 ''new'' # both_acknowledge) y
   in execs (Write 0 0 ''new'' # both_acknowledge) y \<and> write_returned 0 0 ''new'' y y' \<and>
      cached_at y' 1 0 = Some [] \<and> content_of (srv y') ''/f'' = Some ''new'' \<and> no_events y' 1"
  unfolding Let_def by (intro conjI) code_simp+

end
