(* ===== verification/Lost_Answers.thy ===== *)
theory Lost_Answers
  imports Progress Races
begin

text \<open>
  What a lost answer does. A KeepAlive call that fails at the client acknowledges nothing: the client forgets
  its cache, and the event the answer carried, which the server has taken from the queue, is
  acknowledged by nobody. Coherence survives this (\<open>Coherence\<close>), progress (\<open>Progress\<close>) does not.
\<close>

section \<open>An event that nobody will acknowledge\<close>

definition forgotten :: "i32 \<Rightarrow> ka_phase \<Rightarrow> ka_thread \<Rightarrow> bool" where
  "forgotten eid ph t \<longleftrightarrow> \<not> coming eid ph t \<and> 0 \<le> sint eid \<and> sint eid < sint (event_id t)"

lemmas forgotten_defs = forgotten_def coming_def given_acks_def on_the_way_def

lemma forgotten_enqueue:
  assumes "forgotten eid ph t" and "thread_ok lim ph t" and "lim + 1 < 2 ^ 31"
  shows "forgotten eid ph (snd (ka_enqueue_event fh t))"
proof -
  have "sint (event_id t + 1) = sint (event_id t) + 1"
    using assms(2,3) by (intro sint_inc) (simp add: thread_ok_def)
  moreover have "eid \<noteq> event_id t" using assms(1) by (auto simp: forgotten_def)
  ultimately show ?thesis using assms(1) by (auto simp: forgotten_defs ka_enqueue_event_def Let_def)
qed

lemma forgotten_set_reactor:
  "forgotten eid (Ready a) t \<Longrightarrow> forgotten eid Calling (ka_set_reactor r (case a of Some k \<Rightarrow> k | None \<Rightarrow> -1) t)"
  by (cases a) (auto simp: forgotten_defs ka_set_reactor_def)

lemma forgotten_wake:
  "forgotten eid ph t \<Longrightarrow> thread_ok lim ph t \<Longrightarrow> ka_wake ret t = (out, t') \<Longrightarrow> forgotten eid (answer_phase out ph) t'"
  by (auto simp: forgotten_defs ka_wake_def ka_cancel_def answer_phase_def thread_ok_def
      split: if_splits option.splits list.splits)

lemma forgotten_process:
  "forgotten eid (Answered ev) t \<Longrightarrow> forgotten eid (Ready (ack_for ev)) t \<and> forgotten eid (Ready None) t"
  by (cases ev) (auto simp: forgotten_defs ack_for_def)

lemma forgotten_block_return: "forgotten eid ph t \<Longrightarrow> forgotten eid ph (ka_block_return k t)"
  by (auto simp: forgotten_defs ka_block_return_def)

text \<open>The answer that carries an event is the only thing that leads to its acknowledgement.\<close>

lemma lost_is_forgotten: "thread_ok lim (Answered (Some (eid, fh))) t \<Longrightarrow> forgotten eid (Ready None) t"
  by (force simp: forgotten_defs thread_ok_defs)

section \<open>Every step\<close>

definition forgets :: "i32 \<Rightarrow> i32 \<Rightarrow> sys \<Rightarrow> bool" where
  "forgets sid eid y \<longleftrightarrow> (\<exists>t. thread_of sid (sdb (srv y)) = Some t \<and> forgotten eid (phase y sid) t)"

lemma forgets_step:
  assumes B: "buffer_api B" and st: "sys_step B y ev y'" and inv: "sys_inv n lim y" and lim: "lim + 1 < 2 ^ 31"
    and fo: "forgets sid eid y"
  shows "forgets sid eid y'"
proof -
  obtain t where t: "thread_of sid (sdb (srv y)) = Some t" and f: "forgotten eid (phase y sid) t"
    using fo by (auto simp: forgets_def)
  note ok = sys_invD(2) [OF inv t]
  from st show ?thesis
  proof cases
    case (fetch j c fh answer s' x c')
    then show ?thesis using t f get_content_effect [OF fetch(6)] by (simp add: forgets_def)
  next
    case (write_call x fh content p s')
    from B sys_invD(1) [OF inv] write_call(3,4) show ?thesis
    proof (cases rule: write_effect)
      case (rejected r)
      then show ?thesis using t f write_call(2) by (simp add: forgets_def)
    next
      case (stored p m c0)
      then show ?thesis
        using notified_thread_of [OF stored(4), of sid] t f forgotten_enqueue [OF f ok lim] write_call(2)
        by (auto simp: forgets_def split: option.splits)
    qed
  next
    case (lock_call x fh ex p s')
    then show ?thesis using t f lock_effect [OF B sys_invD(1) [OF inv] lock_call(3)] by (simp add: forgets_def)
  next
    case (call j c a r s')
    then show ?thesis using t f keepalive_effect [OF call(5)] forgotten_set_reactor by (auto simp: forgets_def)
  next
    case (wake j u ret out u')
    then show ?thesis
      using t f set_thread_effect [OF wake(3)] forgotten_wake [OF f ok] by (auto simp: forgets_def)
  next
    case (process j answer c a c' cb)
    then show ?thesis using t f client_event_effect [OF process(5)] forgotten_process by (auto simp: forgets_def)
  next
    case (lose j answer c st a c' cb)
    then show ?thesis using t f client_failure_effect(1) [OF lose(5,6)] forgotten_process by (auto simp: forgets_def)
  next
    case (notified j u k)
    then show ?thesis using t f set_thread_effect [OF notified(3)] forgotten_block_return by (auto simp: forgets_def)
  qed
qed

lemma forgets_run:
  assumes B: "buffer_api B" and run: "sys_run B y0 tr y" and inv: "sys_inv n lim y0"
    and lim: "lim + int (length tr) < 2 ^ 31" and fo: "forgets sid eid y0"
  shows "forgets sid eid y"
  using run lim
proof (induction rule: steps.induct)
  case (steps_more tr y ev y')
  have "sys_inv n (lim + int (length tr)) y" using sys_run_inv [OF B steps_more.hyps(1) inv] steps_more.prems by simp
  then show ?case using forgets_step [OF B steps_more.hyps(2)] steps_more by simp
qed (use fo in simp)

section \<open>Properties\<close>

text \<open>
  C12: a lost answer blocks a write for as long as the session lives. If the answer that carries the event of a \<open>SetContent\<close>
  call to a subscriber is lost, the client's KeepAlive call fails and it makes new ones, which keep its session alive but
  acknowledge other events only: in no state that the leader and its clients can reach from there while the session
  has not expired is the call's wait over.
\<close>

theorem lost_answer_blocks_write:
  assumes B: "buffer_api B" and init: "sys_init n lim y0" and run: "sys_run B y0 tr y"
    and sc: "SetContent (leader_raft B) B x fh content (srv y) = Inr (Await returns k, s1)" and len: "length content < 2 ^ 32"
    and p: "key_of (srv y) (int_of_int64 x) fh = Some p" and sub: "sub_of (srv y) p sid = Some g"
    and t: "thread_of sid (sdb (srv y)) = Some t"
    and run1: "sys_run B (y\<lparr>srv := s1\<rparr>) tr1 y1" and ph: "phase y1 sid = Answered (Some (event_id t, g))"
    and lose: "sys_step B y1 (Lose sid st) y2" and run2: "sys_run B y2 tr2 y3"
    and lim: "lim + int (length tr) + int (length tr1) + int (length tr2) + 2 < 2 ^ 31"
    and t3: "thread_of sid (sdb (srv y3)) = Some t3" and live: "\<not> cancelled t3"
  shows "\<not> returns (srv y3)"
proof
  assume ret: "returns (srv y3)"
  have inv: "sys_inv n (lim + int (length tr)) y" using sys_run_inv [OF B run sys_init_inv [OF init]] lim by simp
  from B sys_invD(1) [OF inv] sc len obtain m c0 where pr: "Await returns k = ack_proc (event_waits (subscribers m) (sdb (srv y)))"
    and w: "sys_write p m content y s1"
    by (cases rule: write_effect) (auto simp: sys_write_def p)
  have inv1: "sys_inv n (lim + int (length tr) + 1 + int (length tr1)) y1"
    using sys_run_inv [OF B run1] sys_inv_write [OF inv w] lim by simp
  have inv2: "sys_inv n (lim + int (length tr) + 1 + int (length tr1) + 1) y2"
    using sys_inv_step [OF B lose inv1] lim by simp
  have "forgets sid (event_id t) y2" using lose
  proof cases
    case (lose ev c a c' cb)
    obtain t1 where t1: "thread_of sid (sdb (srv y1)) = Some t1" using sys_invD(3) [OF inv1 lose(3)] by blast
    then have "forgotten (event_id t) (Ready None) t1"
      using lost_is_forgotten sys_invD(2) [OF inv1 t1] ph by simp
    then show ?thesis using lose t1 client_failure_effect(1) [OF lose(4,5)] by (simp add: forgets_def)
  qed
  then have "forgets sid (event_id t) y3" using forgets_run [OF B run2 inv2] lim by simp
  then have "event_id t \<notin> acked_events t3" using t3 by (auto simp: forgets_def forgotten_defs)
  moreover have "map_of (subscribers m) sid = Some g" using sub sys_write_frame(4) [OF w] by simp
  note wait = event_waits_mem [OF map_of_SomeD [OF this] t]
  then have "returns = all_acked (event_waits (subscribers m) (sdb (srv y)))" using pr by (auto simp: ack_proc_def split: if_splits)
  then have "ka_unblocked (event_id t) t3" using all_acked_wait [OF _ wait t3] ret by simp
  ultimately show False using live by (simp add: ka_unblocked_def)
qed

text \<open>
  Session 0 writes; the answer with the event is lost on its way to session 1, whose next KeepAlive call is then
  pending, so that its session does not expire.
\<close>

definition before_loss :: "sys_event list" where
  "before_loss = [Call 1 0, Wake 1 No_timeout]"

definition no_answer :: status where
  "no_answer = \<lparr>error_code = UNAVAILABLE, error_message = []\<rparr>"

lemma lose_possible:
  assumes ph: "phase y sid = Answered ev" and c: "cl y sid = Some c" and ok: "client_ok c"
  obtains y' c' where "sys_step B y (Lose sid no_answer) y'" "srv y' = srv y" "phase y' sid = Ready None" "cl y' sid = Some c'"
proof -
  have tf: "transport_failure no_answer"
    by (simp add: transport_failure_def no_answer_def session_not_found_str_def)
  have "\<not> bad_redirect no_answer" by (simp add: bad_redirect_def no_answer_def UNAVAILABLE_def)
  then obtain a c' cb where k: "client_keepalive no_answer (event_of None) c = Inr (a, c', cb)"
    using client_keepalive_total [OF ok] by blast
  then have "a = None" using client_failure_effect(1) [OF tf] by blast
  then show thesis using that [OF sys_step.lose [OF ph c tf k], of c'] by simp
qed

theorem lost_answer_blocks_write_witness:
  "\<exists>ret k s1 y1 y2 y3. SetContent (leader_raft le_buf) le_buf 0 0 ''new'' (srv demo_sys) = Inr (Await ret k, s1) \<and>
     sys_run le_buf (demo_sys\<lparr>srv := s1\<rparr>) before_loss y1 \<and> sys_step le_buf y1 (Lose 1 no_answer) y2 \<and>
     sys_run le_buf y2 [Call 1 0] y3 \<and> \<not> ret (srv y3)"
proof -
  let ?W = "Write 0 0 ''new''"
  have "case SetContent (leader_raft le_buf) le_buf 0 0 ''new'' (srv demo_sys) of Inr (Await ret k, s1) \<Rightarrow> True | _ \<Rightarrow> False"
    by code_simp
  then obtain ret k s1 where sc: "SetContent (leader_raft le_buf) le_buf 0 0 ''new'' (srv demo_sys) = Inr (Await ret k, s1)"
    by (auto split: sum.splits prod.splits proc.splits)
  let ?y1 = "after_exec before_loss (demo_sys\<lparr>srv := s1\<rparr>)"
  have w: "after_exec (?W # before_loss) demo_sys = ?y1" "execs (?W # before_loss) demo_sys = execs before_loss (demo_sys\<lparr>srv := s1\<rparr>)"
    using after_exec_write [OF sc] by simp_all
  have "execs (?W # before_loss) demo_sys" by code_simp
  then have run1: "sys_run le_buf (demo_sys\<lparr>srv := s1\<rparr>) before_loss ?y1" using execs_run w(2) by blast
  have "phase (after_exec (?W # before_loss) demo_sys) 1 = Answered (Some (5, 0))" by code_simp
  then have ph: "phase ?y1 1 = Answered (Some (event_id (new_kathread 5 1), 0))" unfolding w(1) by (simp add: new_kathread_def)
  have "case cl (after_exec (?W # before_loss) demo_sys) 1 of Some c \<Rightarrow> cur_srv_id c = 0 | None \<Rightarrow> False" by code_simp
  then obtain c where c: "cl ?y1 1 = Some c" "client_ok c" unfolding w(1) by (auto simp: client_ok_def split: option.splits)
  obtain y2 c' where y2: "sys_step le_buf ?y1 (Lose 1 no_answer) y2" "srv y2 = srv ?y1" "phase y2 1 = Ready None"
      "cl y2 1 = Some c'" using lose_possible [OF ph c] .
  have "case thread_of 1 (sdb (srv (after_exec (?W # before_loss) demo_sys))) of None \<Rightarrow> False | Some t \<Rightarrow> \<not> cancelled t"
    by code_simp
  then obtain t2 where t2: "thread_of 1 (sdb (srv y2)) = Some t2" "\<not> cancelled t2"
    unfolding w(1) y2(2) by (auto split: option.splits)
  have len: "length before_loss = 2" by (simp add: before_loss_def)
  have sw: "sys_run le_buf demo_sys [?W] (demo_sys\<lparr>srv := s1\<rparr>)"
    using steps_cons [where step = "sys_step le_buf", OF sys_step.write_call [OF sc] steps_start] by simp
  have inv1: "sys_inv 4 8 ?y1"
    using sys_run_inv [OF le.buffer_api_axioms steps_append [OF run1 sw] sys_init_inv [OF demo_sys_init]] len by simp
  have inv2: "sys_inv 4 (8 + 1) y2" by (rule sys_inv_step [OF le.buffer_api_axioms y2(1) inv1]) simp
  obtain y3 t3 where y3: "sys_step le_buf y2 (Call 1 0) y3" "thread_of 1 (sdb (srv y3)) = Some t3" "cancelled t3 = cancelled t2"
    using call_possible [OF inv2 y2(4,3) t2(1)] .
  have run2: "sys_run le_buf y2 [Call 1 0] y3" by (rule steps_cons [where step = "sys_step le_buf", OF y3(1) steps_start])
  have live: "\<not> cancelled t3" using y3(3) t2(2) by simp
  have t: "thread_of 1 (sdb (srv demo_sys)) = Some (new_kathread 5 1)" by code_simp
  have p: "key_of (srv demo_sys) (int_of_int64 0) 0 = Some ''/f''" by code_simp
  have sub: "sub_of (srv demo_sys) ''/f'' 1 = Some 0" by code_simp
  have "\<not> ret (srv y3)"
    by (rule lost_answer_blocks_write [OF le.buffer_api_axioms demo_sys_init steps_start sc _ p sub t run1 ph y2(1)
        run2 _ y3(2) live]) (simp_all add: before_loss_def)
  then show ?thesis using sc run1 y2(1) run2 by blast
qed

end
