(* ===== verification/Mutexes.thy ===== *)
theory Mutexes
  imports Skinny_Properties
begin

text \<open>
  The mutexes of the files. \<open>TryAcquire\<close>, \<open>Acquire\<close> and \<open>Release\<close> lock the mutex of the
  file, append their log entry and keep the mutex until the entry is committed. The one thread that commits
  entries, in log order, locks mutexes too: that of the file and of its parent to delete it, that of the
  parent to list a new file or to remove an ephemeral one. Calls that take no mutex only append here; what
  the entries do is \<open>apply_action\<close>.
\<close>

section \<open>The mutexes a commit locks\<close>

definition drop_locks :: "i32 \<Rightarrow> string \<Rightarrow> sm_state \<Rightarrow> string list" where
  "drop_locks sid key s =
     (case ds s key of
        None \<Rightarrow> []
      | Some (meta, _) \<Rightarrow>
          if subscribed meta sid \<noteq> None \<and> AList.delete sid (subscribers meta) = [] \<and> is_ephemeral meta = Some True
          then [parent_path key] else [])"

definition close_locks :: "entry \<Rightarrow> i32 \<Rightarrow> sm_state \<Rightarrow> string list" where
  "close_locks session fh s =
     (case (handle_inum fh session, fh_to_key fh session) of
        (Inr inum, Inr key) \<Rightarrow> if inum = -1 then [] else drop_locks (entry_id session) key s
      | _ \<Rightarrow> [])"

fun end_session_locks :: "i32 \<Rightarrow> nat list \<Rightarrow> entry \<Rightarrow> sm_state \<Rightarrow> string list" where
  "end_session_locks sid [] session s = []"
| "end_session_locks sid (i # is) session s =
     close_locks session (of_nat i) s @
     (case close_file_delete_ephermeral sid session (of_nat i) s of
        Inl _ \<Rightarrow> []
      | Inr (_, session', s1) \<Rightarrow>
          (case release_lock sid (of_nat i) s1 of
             Inl _ \<Rightarrow> [] | Inr (_, s2) \<Rightarrow> end_session_locks sid is session' s2))"

fun commit_locks :: "action \<Rightarrow> sm_state \<Rightarrow> string list" where
  "commit_locks (OpenAction x path d e) s =
     (case session_of s x of
        None \<Rightarrow> []
      | Some _ \<Rightarrow>
          if \<not> is_root_path path \<and> (case ds s path of None \<Rightarrow> True | Some (meta, _) \<Rightarrow> \<not> file_exists meta)
          then [parent_path path] else [])"
| "commit_locks (CloseAction x fh) s =
     (case session_of s x of None \<Rightarrow> [] | Some session \<Rightarrow> close_locks session fh s)"
| "commit_locks (EndSessionAction x) s =
     (case session_of s x of
        None \<Rightarrow> []
      | Some session \<Rightarrow>
          end_session_locks (int_of_int64 x) [0..<nat (sint (handle_count session))] session s)"
| "commit_locks (DeleteAction x fh) s =
     (case session_of s x of
        None \<Rightarrow> []
      | Some session \<Rightarrow> (case fh_to_key fh session of Inl _ \<Rightarrow> [] | Inr key \<Rightarrow> [key, parent_path key]))"
| "commit_locks _ s = []"

section \<open>The calls that hold a mutex\<close>

text \<open>
  The mutex a handler holds while it appends an entry, if the handle passes its tests. \<open>Acquire\<close> also waits,
  without the mutex, until the lock is free; what is shown here does not depend on how long.
\<close>

fun handler_lock :: "action \<Rightarrow> sm_state \<Rightarrow> string option" where
  "handler_lock (AcqAction x fh ex) s =
     (case session_of s x of
        None \<Rightarrow> None
      | Some session \<Rightarrow>
          (case fh_to_key fh session of
             Inl _ \<Rightarrow> None
           | Inr key \<Rightarrow>
               (case ds s key of
                  None \<Rightarrow> None
                | Some (meta, _) \<Rightarrow> if check_handle fh session meta = Inr None then Some key else None)))"
| "handler_lock (RelAction x fh) s =
     (case session_of s x of
        None \<Rightarrow> None
      | Some session \<Rightarrow> (case fh_to_key fh session of Inl _ \<Rightarrow> None | Inr key \<Rightarrow> Some key))"
| "handler_lock _ s = None"

fun locks_first :: "action \<Rightarrow> bool" where
  "locks_first (AcqAction _ _ _) = True"
| "locks_first (RelAction _ _) = True"
| "locks_first _ = False"

datatype call = Entered string action | Waiting string nat

record threads =
  shared :: sm_state
  log :: "action list"
  applied :: nat
  held :: "string \<Rightarrow> nat option"
  calls :: "nat \<Rightarrow> call option"

inductive mx_step :: "threads \<Rightarrow> threads \<Rightarrow> bool" where
  submit: "\<not> locks_first a \<Longrightarrow> mx_step x (x\<lparr>log := log x @ [a]\<rparr>)"
| enter: "handler_lock a (shared x) = Some p \<Longrightarrow> held x p = None \<Longrightarrow> calls x c = None \<Longrightarrow>
    mx_step x (x\<lparr>held := (held x)(p \<mapsto> c), calls := (calls x)(c \<mapsto> Entered p a)\<rparr>)"
| append: "calls x c = Some (Entered p a) \<Longrightarrow>
    mx_step x (x\<lparr>log := log x @ [a], calls := (calls x)(c \<mapsto> Waiting p (length (log x)))\<rparr>)"
| commit_next: "applied x < length (log x) \<Longrightarrow> a = log x ! applied x \<Longrightarrow>
    list_all (\<lambda>p. held x p = None) (commit_locks a (shared x)) \<Longrightarrow> apply_action a (shared x) = Inr (r, s') \<Longrightarrow>
    mx_step x (x\<lparr>shared := s', applied := Suc (applied x)\<rparr>)"
| return: "calls x c = Some (Waiting p i) \<Longrightarrow> i < applied x \<Longrightarrow>
    mx_step x (x\<lparr>held := (held x)(p := None), calls := (calls x)(c := None)\<rparr>)"

abbreviation mx_run :: "threads \<Rightarrow> threads \<Rightarrow> bool" where
  "mx_run \<equiv> mx_step\<^sup>*\<^sup>*"

fun call_key :: "call \<Rightarrow> string" where
  "call_key (Entered p a) = p"
| "call_key (Waiting p i) = p"

text \<open>A mutex is held by exactly the calls that are between locking and returning.\<close>

definition mx_inv :: "threads \<Rightarrow> bool" where
  "mx_inv x \<longleftrightarrow> (\<forall>c p. held x p = Some c \<longleftrightarrow> (\<exists>k. calls x c = Some k \<and> call_key k = p)) \<and> applied x \<le> length (log x) \<and>
     (\<forall>c p i. calls x c = Some (Waiting p i) \<longrightarrow> i < length (log x))"

lemma mx_inv_step: "mx_step x x' \<Longrightarrow> mx_inv x \<Longrightarrow> mx_inv x'"
proof (induction rule: mx_step.induct)
  case (enter a x p c)
  then show ?case by (auto simp: mx_inv_def) (metis option.distinct(1))
next
  case (append x c p a)
  then show ?case by (auto simp: mx_inv_def intro: less_SucI)
next
  case (return x c p i)
  then have inv: "\<And>d q. held x q = Some d \<longleftrightarrow> (\<exists>k. calls x d = Some k \<and> call_key k = q)" and p: "held x p = Some c"
    by (force simp: mx_inv_def)+
  have "((held x)(p := None)) q = Some d \<longleftrightarrow> (\<exists>k. ((calls x)(c := None)) d = Some k \<and> call_key k = q)" for d q
  proof (cases "d = c")
    case True
    have "held x q = Some c \<Longrightarrow> q = p" using inv return(1) by force
    then show ?thesis using True by auto
  next
    case False
    then show ?thesis using inv [of q d] p by auto
  qed
  then show ?case using return by (simp add: mx_inv_def)
qed (auto simp: mx_inv_def less_Suc_eq)

lemma mx_inv_run: "mx_run x0 x \<Longrightarrow> mx_inv x0 \<Longrightarrow> mx_inv x"
  by (induction rule: rtranclp_induct) (auto intro: mx_inv_step)

section \<open>Deadlock\<close>

text \<open>The next entry needs a mutex that a call holds until a later entry is committed.\<close>

definition stuck :: "nat \<Rightarrow> string \<Rightarrow> nat \<Rightarrow> threads \<Rightarrow> bool" where
  "stuck c p i x \<longleftrightarrow> calls x c = Some (Waiting p i) \<and> applied x \<le> i \<and> i < length (log x) \<and>
     p \<in> set (commit_locks (log x ! applied x) (shared x))"

lemma stuck_step:
  assumes "mx_step x x'" and "mx_inv x" and "stuck c p i x"
  shows "stuck c p i x' \<and> applied x' = applied x \<and> shared x' = shared x"
proof -
  have held: "held x p = Some c" using assms(2,3) by (fastforce simp: mx_inv_def stuck_def)
  from assms(1) show ?thesis
  proof cases
    case (append c' p' a)
    then show ?thesis using assms(3) by (auto simp: stuck_def nth_append)
  next
    case (commit_next a r s')
    then have "held x p = None" using assms(3) by (simp add: stuck_def list_all_iff)
    then show ?thesis using held by simp
  next
    case (return c' p' j)
    then show ?thesis using assms(3) by (auto simp: stuck_def)
  qed (use assms(3) in \<open>auto simp: stuck_def nth_append\<close>)
qed

lemma stuck_run:
  assumes "mx_run x x'" and "mx_inv x" and "stuck c p i x"
  shows "stuck c p i x' \<and> applied x' = applied x \<and> shared x' = shared x"
  using assms
proof (induction rule: rtranclp_induct)
  case (step y y')
  then have "mx_inv y" "stuck c p i y" "applied y = applied x" "shared y = shared x" using mx_inv_run by auto
  then show ?case using stuck_step [OF step.hyps(2)] by metis
qed simp

text \<open>Where nothing is held and no call is in progress.\<close>

definition at_rest :: "sm_state \<Rightarrow> threads" where
  "at_rest s = \<lparr>shared = s, log = [], applied = 0, held = Map.empty, calls = Map.empty\<rparr>"

lemma at_rest_inv: "mx_inv (at_rest s)"
  by (simp add: mx_inv_def at_rest_def)

text \<open>
  C11: a lock call can stop the server for good. When the entry that is committed next locks the mutex of a
  file, as a delete of the file or of one below it does, and a \<open>TryAcquire\<close>, \<open>Acquire\<close> or
  \<open>Release\<close> of that file has appended its own entry behind it, then whatever the other threads do,
  no entry is ever committed again and the call never returns.
\<close>

theorem lock_call_stops_the_log:
  assumes "mx_run (at_rest s) x" and "calls x c = Some (Waiting p i)" and "applied x < i"
    and "p \<in> set (commit_locks (log x ! applied x) (shared x))"
    and "mx_run x x'"
  shows "applied x' = applied x \<and> shared x' = shared x \<and> calls x' c = Some (Waiting p i)"
proof -
  have inv: "mx_inv x" using mx_inv_run [OF assms(1) at_rest_inv] .
  then have "stuck c p i x" using assms(2-4) by (auto simp: stuck_def mx_inv_def)
  then show ?thesis using stuck_run [OF assms(5) inv] by (simp add: stuck_def)
qed

theorem lock_call_stops_the_log_witness:
  "\<exists>x. mx_run (at_rest (new_leader 5 two_sessions)) x \<and> log x = [DeleteAction 0 0, AcqAction 1 0 1] \<and>
     {x'. mx_run x x'} \<subseteq> {x'. applied x' = 0 \<and> calls x' 7 = Some (Waiting ''/f'' 1)}"
proof -
  let ?s = "new_leader 5 two_sessions"
  let ?x1 = "at_rest ?s\<lparr>log := [DeleteAction 0 0]\<rparr>"
  let ?x2 = "?x1\<lparr>held := [''/f'' \<mapsto> 7], calls := [7 \<mapsto> Entered ''/f'' (AcqAction 1 0 1)]\<rparr>"
  let ?x = "?x2\<lparr>log := [DeleteAction 0 0, AcqAction 1 0 1], calls := [7 \<mapsto> Waiting ''/f'' 1]\<rparr>"
  have "mx_step (at_rest ?s) ?x1" using submit [of "DeleteAction 0 0" "at_rest ?s"] by (simp add: at_rest_def)
  moreover have "mx_step ?x1 ?x2"
  proof -
    have "handler_lock (AcqAction 1 0 1) ?s = Some ''/f''" by code_simp
    from enter [of "AcqAction 1 0 1" ?x1 "''/f''" 7] this show ?thesis by (simp add: at_rest_def)
  qed
  moreover have "mx_step ?x2 ?x"
    using mx_step.append [of ?x2 7 "''/f''" "AcqAction 1 0 1"] by (simp add: at_rest_def)
  ultimately have run: "mx_run (at_rest ?s) ?x" by (meson rtranclp.intros)
  have l: "''/f'' \<in> set (commit_locks (DeleteAction 0 0) ?s)" by code_simp
  have "applied x' = 0 \<and> calls x' 7 = Some (Waiting ''/f'' 1)" if "mx_run ?x x'" for x'
    using lock_call_stops_the_log [OF run _ _ _ that, of 7 "''/f''" 1] l by (simp add: at_rest_def)
  then show ?thesis using run by (intro exI [of _ ?x]) (auto simp: at_rest_def)
qed

end
