(* ===== verification/Condvar.thy ===== *)
theory Condvar
  imports Prelude Runs
begin

text \<open>
  A condition variable with its mutex, as the sources use it: a thread locks the mutex and, while its condition does not
  hold, waits; \<open>wait\<close> lets go of the mutex and falls asleep at once, but between the test of the condition
  and falling asleep other threads run. A change of the shared state is made and notified by a thread that
  holds the mutex, or notified without it, or not notified. What a waiting thread relies on is the locale
  \<open>condition_variable\<close>; it is interpreted on the two condition variables of the program in \<open>Wakeup\<close>.
  A thread that sleeps wakes only when notified. (The language allows a thread to wake for no reason but promises nothing.)
\<close>

datatype wait_phase = Testing | Deciding | Sleeping | Woken | Through

datatype notification = Under_mutex | Without_mutex | Silent

datatype cv_label = Thread nat | Change notification

record 's cv =
  state :: 's
  mutex :: "nat option"
  ph :: "nat \<Rightarrow> wait_phase option"

definition notify_all_waiting :: "(nat \<Rightarrow> wait_phase option) \<Rightarrow> nat \<Rightarrow> wait_phase option" where
  "notify_all_waiting p = (\<lambda>c. if p c = Some Sleeping then Some Woken else p c)"

inductive cv_step :: "(nat \<Rightarrow> 's \<Rightarrow> bool) \<Rightarrow> (notification \<Rightarrow> 's \<Rightarrow> 's \<Rightarrow> bool) \<Rightarrow> (nat \<Rightarrow> 's \<Rightarrow> 's) \<Rightarrow>
    's cv \<Rightarrow> cv_label \<Rightarrow> 's cv \<Rightarrow> bool" for P chg leave where
  lock: "ph x c = None \<Longrightarrow> mutex x = None \<Longrightarrow>
    cv_step P chg leave x (Thread c) (x\<lparr>mutex := Some c, ph := (ph x)(c \<mapsto> Testing)\<rparr>)"
| pass: "ph x c = Some Testing \<Longrightarrow> P c (state x) \<Longrightarrow>
    cv_step P chg leave x (Thread c) (x\<lparr>ph := (ph x)(c \<mapsto> Through)\<rparr>)"
| fail: "ph x c = Some Testing \<Longrightarrow> \<not> P c (state x) \<Longrightarrow>
    cv_step P chg leave x (Thread c) (x\<lparr>ph := (ph x)(c \<mapsto> Deciding)\<rparr>)"
| sleep: "ph x c = Some Deciding \<Longrightarrow>
    cv_step P chg leave x (Thread c) (x\<lparr>mutex := None, ph := (ph x)(c \<mapsto> Sleeping)\<rparr>)"
| relock: "ph x c = Some Woken \<Longrightarrow> mutex x = None \<Longrightarrow>
    cv_step P chg leave x (Thread c) (x\<lparr>mutex := Some c, ph := (ph x)(c \<mapsto> Testing)\<rparr>)"
| left: "ph x c = Some Through \<Longrightarrow>
    cv_step P chg leave x (Thread c) (x\<lparr>state := leave c (state x), mutex := None, ph := (ph x)(c := None)\<rparr>)"
| under_mutex: "mutex x = None \<Longrightarrow> chg Under_mutex (state x) s' \<Longrightarrow>
    cv_step P chg leave x (Change Under_mutex) (x\<lparr>state := s', ph := notify_all_waiting (ph x)\<rparr>)"
| without_mutex: "chg Without_mutex (state x) s' \<Longrightarrow>
    cv_step P chg leave x (Change Without_mutex) (x\<lparr>state := s', ph := notify_all_waiting (ph x)\<rparr>)"
| silent: "chg Silent (state x) s' \<Longrightarrow> cv_step P chg leave x (Change Silent) (x\<lparr>state := s'\<rparr>)"

abbreviation cv_run :: "(nat \<Rightarrow> 's \<Rightarrow> bool) \<Rightarrow> (notification \<Rightarrow> 's \<Rightarrow> 's \<Rightarrow> bool) \<Rightarrow> (nat \<Rightarrow> 's \<Rightarrow> 's) \<Rightarrow>
    's cv \<Rightarrow> cv_label list \<Rightarrow> 's cv \<Rightarrow> bool" where
  "cv_run P chg leave \<equiv> steps (cv_step P chg leave)"

definition nobody_waits :: "'s \<Rightarrow> 's cv" where
  "nobody_waits s = \<lparr>state = s, mutex = None, ph = Map.empty\<rparr>"

text \<open>The thread that is between locking and sleeping or leaving has the mutex, and no other one.\<close>

definition has_mutex :: "wait_phase option \<Rightarrow> bool" where
  "has_mutex p \<longleftrightarrow> p \<in> {Some Testing, Some Deciding, Some Through}"

lemma has_mutex_simps [simp]:
  "\<not> has_mutex None" "has_mutex (Some Testing)" "has_mutex (Some Deciding)" "has_mutex (Some Through)"
  "\<not> has_mutex (Some Sleeping)" "\<not> has_mutex (Some Woken)" "has_mutex (notify_all_waiting p c) = has_mutex (p c)"
  by (simp_all add: has_mutex_def notify_all_waiting_def)

definition mutex_inv :: "'s cv \<Rightarrow> bool" where
  "mutex_inv x \<longleftrightarrow> (\<forall>c. mutex x = Some c \<longleftrightarrow> has_mutex (ph x c))"

lemma mutex_inv_unique: "mutex_inv x \<Longrightarrow> has_mutex (ph x c) \<Longrightarrow> has_mutex (ph x d) \<Longrightarrow> c = d"
  unfolding mutex_inv_def by (metis option.inject)

lemma mutex_inv_step:
  assumes "cv_step P chg leave x l x'" and "mutex_inv x"
  shows "mutex_inv x'"
  using assms(1)
proof cases
  case (sleep c)
  then show ?thesis using mutex_inv_unique [OF assms(2), of c] by (auto simp: mutex_inv_def)
next
  case (left c)
  then show ?thesis using mutex_inv_unique [OF assms(2), of c] by (auto simp: mutex_inv_def)
qed (use assms(2) in \<open>auto simp: mutex_inv_def\<close>)

interpretation cv_mutex: step_invariant "cv_step P chg leave" mutex_inv for P chg leave
  by unfold_locales (rule mutex_inv_step)

lemma mutex_inv_start: "mutex_inv (nobody_waits s)"
  by (simp add: mutex_inv_def nobody_waits_def)

text \<open>A sleeping thread sleeps on until somebody notifies.\<close>

lemma sleeps_on:
  "cv_run P chg leave x ls x' \<Longrightarrow> ph x c = Some Sleeping \<Longrightarrow>
   Change Under_mutex \<notin> set ls \<Longrightarrow> Change Without_mutex \<notin> set ls \<Longrightarrow> ph x' c = Some Sleeping"
proof (induction rule: steps.induct)
  case (steps_more ls y l y')
  then have "ph y c = Some Sleeping" "l \<noteq> Change Under_mutex" "l \<noteq> Change Without_mutex" by auto
  with steps_more.hyps(2) show ?case by cases auto
qed simp

definition sleeps_until_notified ::
  "(nat \<Rightarrow> 's \<Rightarrow> bool) \<Rightarrow> (notification \<Rightarrow> 's \<Rightarrow> 's \<Rightarrow> bool) \<Rightarrow> (nat \<Rightarrow> 's \<Rightarrow> 's) \<Rightarrow> nat \<Rightarrow> 's cv \<Rightarrow> bool" where
  "sleeps_until_notified P chg leave c x \<longleftrightarrow>
     (\<forall>ls x'. cv_run P chg leave x ls x' \<longrightarrow>
        Change Under_mutex \<in> set ls \<or> Change Without_mutex \<in> set ls \<or> ph x' c = Some Sleeping)"

lemma sleeping_until_notified: "ph x c = Some Sleeping \<Longrightarrow> sleeps_until_notified P chg leave c x"
  unfolding sleeps_until_notified_def using sleeps_on by metis

text \<open>
  The missed notification: a thread has tested its condition in vain, and before it falls asleep another one changes the state and
  notifies without the mutex.
\<close>

lemma notification_missed:
  assumes "ph x c = Some Deciding" and "chg Without_mutex (state x) s'"
  shows "\<exists>x'. cv_run P chg leave x [Change Without_mutex, Thread c] x' \<and> ph x' c = Some Sleeping \<and> state x' = s'"
proof -
  let ?y = "x\<lparr>state := s', ph := notify_all_waiting (ph x)\<rparr>"
  let ?z = "?y\<lparr>mutex := None, ph := (ph ?y)(c \<mapsto> Sleeping)\<rparr>"
  have "cv_step P chg leave x (Change Without_mutex) ?y" using assms(2) by (rule without_mutex)
  moreover have "cv_step P chg leave ?y (Thread c) ?z"
    by (rule sleep) (use assms(1) in \<open>simp add: notify_all_waiting_def\<close>)
  ultimately have "cv_run P chg leave x ([Change Without_mutex] @ [Thread c]) ?z" by (blast intro: steps_single steps_more)
  then show ?thesis by (intro exI [of _ ?z]) simp
qed

section \<open>What waiting threads rely on\<close>

text \<open>A change that is not notified, and what a thread does when it leaves, make no condition true.\<close>

locale condition_variable =
  fixes P :: "nat \<Rightarrow> 's \<Rightarrow> bool" and chg :: "notification \<Rightarrow> 's \<Rightarrow> 's \<Rightarrow> bool" and leave :: "nat \<Rightarrow> 's \<Rightarrow> 's"
  assumes silent_keeps: "chg Silent s s' \<Longrightarrow> P c s' \<Longrightarrow> P c s"
    and leave_keeps: "P c (leave d s) \<Longrightarrow> P c s"
begin

definition waits_rightly :: "'s cv \<Rightarrow> bool" where
  "waits_rightly x \<longleftrightarrow> (\<forall>c. ph x c \<in> {Some Deciding, Some Sleeping} \<longrightarrow> \<not> P c (state x))"

lemma waits_rightly_step:
  assumes "cv_step P chg leave x l x'" and "mutex_inv x" and "waits_rightly x" and "l \<noteq> Change Without_mutex"
  shows "waits_rightly x'"
  using assms(1)
proof cases
  case (under_mutex s')
  have "ph x c \<noteq> Some Deciding" for c
  proof
    assume "ph x c = Some Deciding"
    then have "mutex x = Some c" using assms(2) by (simp add: mutex_inv_def)
    then show False using under_mutex by simp
  qed
  then show ?thesis using under_mutex by (auto simp: waits_rightly_def notify_all_waiting_def)
qed (use assms(3,4) silent_keeps leave_keeps in \<open>auto simp: waits_rightly_def\<close>)

lemma waits_rightly_run:
  "cv_run P chg leave x ls x' \<Longrightarrow> mutex_inv x \<Longrightarrow> waits_rightly x \<Longrightarrow> Change Without_mutex \<notin> set ls \<Longrightarrow> waits_rightly x'"
proof (induction rule: steps.induct)
  case (steps_more ls y l y')
  then show ?case using waits_rightly_step [OF steps_more.hyps(2)] cv_mutex.inv_run [OF steps_more.hyps(1)] by auto
qed simp

text \<open>If nobody notifies without the mutex, no notification is missed.\<close>

lemma nobody_sleeps_in_vain:
  assumes "cv_run P chg leave (nobody_waits s) ls x" and "Change Without_mutex \<notin> set ls" and "ph x c = Some Sleeping"
  shows "\<not> P c (state x)"
proof -
  have "waits_rightly (nobody_waits s)" by (simp add: waits_rightly_def nobody_waits_def)
  then have "waits_rightly x" using waits_rightly_run [OF assms(1) mutex_inv_start _ assms(2)] by simp
  then show ?thesis using assms(3) by (auto simp: waits_rightly_def)
qed

end

end
