(* ===== verification/Wakeup.thy ===== *)
theory Wakeup
  imports Condvar Skinny_Properties
begin

text \<open>
  The condition variables of the program: that of a file, on which \<open>Acquire\<close> waits for the lock and which the
  committing thread notifies when a lock has lost its last owner, and \<open>ack_event_cv_\<close> of a keep-alive
  thread, on which a notifier waits for the acknowledgement of its event. The handler of \<open>Release\<close> holds the
  mutex of the file while its entry is committed, and a delete locks it; the end of a session and a close do not. \<open>set_reactor\<close> holds
  the mutex of the acknowledgements, \<open>cancel\<close> does not.
\<close>

section \<open>The lock of a file\<close>

text \<open>What \<open>Acquire\<close> waits for. Its file is in the store, so that the first case does not occur.\<close>

definition lock_wait_over :: "bool \<Rightarrow> string \<Rightarrow> sm_state \<Rightarrow> bool" where
  "lock_wait_over ex key s \<longleftrightarrow> ds s key = None \<or> lock_free_for ex key s"

text \<open>The files whose condition variable \<open>release_lock\<close> notifies, and then every action.\<close>

definition release_notifies :: "i32 \<Rightarrow> i32 \<Rightarrow> sm_state \<Rightarrow> string list" where
  "release_notifies sid fh s =
     (case find_session sid (sdb s) of
        None \<Rightarrow> []
      | Some session \<Rightarrow>
          (case fh_to_key fh session of
             Inl _ \<Rightarrow> []
           | Inr key \<Rightarrow>
               (case ds s key of
                  None \<Rightarrow> []
                | Some (meta, _) \<Rightarrow>
                    if file_exists meta \<and> lock_owners (snd (meta_release sid meta)) = {} then [key] else [])))"

fun end_session_notifies :: "i32 \<Rightarrow> nat list \<Rightarrow> entry \<Rightarrow> sm_state \<Rightarrow> string list" where
  "end_session_notifies sid [] session s = []"
| "end_session_notifies sid (i # is) session s =
     (case close_file_delete_ephermeral sid session (of_nat i) s of
        Inl _ \<Rightarrow> []
      | Inr (_, session', s1) \<Rightarrow>
          release_notifies sid (of_nat i) s1 @
          (case release_lock sid (of_nat i) s1 of
             Inl _ \<Rightarrow> []
           | Inr (_, s2) \<Rightarrow> end_session_notifies sid is session' s2))"

fun commit_notifies :: "action \<Rightarrow> sm_state \<Rightarrow> string list" where
  "commit_notifies (CloseAction x fh) s =
     (case session_of s x of
        None \<Rightarrow> []
      | Some session \<Rightarrow>
          (case close_file_delete_ephermeral (int_of_int64 x) session fh s of
             Inl _ \<Rightarrow> []
           | Inr (_, _, s1) \<Rightarrow> release_notifies (int_of_int64 x) fh s1))"
| "commit_notifies (EndSessionAction x) s =
     (case session_of s x of
        None \<Rightarrow> []
      | Some session \<Rightarrow> end_session_notifies (int_of_int64 x) [0..<nat (sint (handle_count session))] session s)"
| "commit_notifies (RelAction x fh) s = release_notifies (int_of_int64 x) fh s"
| "commit_notifies (DeleteAction x fh) s =
     (case session_of s x of
        None \<Rightarrow> []
      | Some session \<Rightarrow> (case fh_to_key fh session of Inl _ \<Rightarrow> [] | Inr key \<Rightarrow> [key]))"
| "commit_notifies _ s = []"

text \<open>Who holds the mutex of the file then: the caller of \<open>Release\<close>, or the committing thread for a delete.\<close>

fun with_mutex :: "action \<Rightarrow> bool" where
  "with_mutex (RelAction _ _) = True"
| "with_mutex (DeleteAction _ _) = True"
| "with_mutex _ = False"

definition notification_of :: "string \<Rightarrow> action \<Rightarrow> sm_state \<Rightarrow> notification" where
  "notification_of key a s =
     (if key \<notin> set (commit_notifies a s) then Silent else if with_mutex a then Under_mutex else Without_mutex)"

definition file_change :: "string \<Rightarrow> notification \<Rightarrow> sm_state \<Rightarrow> sm_state \<Rightarrow> bool" where
  "file_change key n s s' \<longleftrightarrow> (\<exists>a r. apply_action a s = Inr (r, s') \<and> n = notification_of key a s)"

text \<open>A thread that leaves has the entry of its request committed, which is a change of its own.\<close>

definition file_leave :: "nat \<Rightarrow> sm_state \<Rightarrow> sm_state" where
  "file_leave c s = s"

section \<open>Changes that are not notified\<close>

lemma lock_wait_over_set_file:
  "ds s q = Some (m0, c0) \<Longrightarrow> lock_owners m = lock_owners m0 \<Longrightarrow> is_locked_ex m = is_locked_ex m0 \<Longrightarrow>
   lock_wait_over ex p (set_file q (m, c) s) = lock_wait_over ex p s"
  by (simp add: lock_wait_over_def lock_free_for_def)

lemma lock_wait_over_frame [simp]:
  "lock_wait_over ex p (set_session j e s) = lock_wait_over ex p s"
  "lock_wait_over ex p (s\<lparr>sdb := d\<rparr>) = lock_wait_over ex p s"
  by (simp_all add: lock_wait_over_def lock_free_for_def)

lemma drop_subscriber_wait:
  assumes "drop_subscriber j key s = Inr (ret, s')"
  shows "lock_wait_over ex p s' = lock_wait_over ex p s"
proof -
  obtain m c where m: "ds s key = Some (m, c)" using assms by (auto simp: drop_subscriber_def result_simps)
  define m1 where "m1 = m\<lparr>subscribers := AList.delete j (subscribers m)\<rparr>"
  have e: "lock_wait_over ex p (set_file key (m1, c) s) = lock_wait_over ex p s"
    "lock_wait_over ex p (set_file key (m1\<lparr>file_exists := False\<rparr>, c) s) = lock_wait_over ex p s"
    using lock_wait_over_set_file [OF m] by (simp_all add: m1_def)
  from assms m m1_def show ?thesis
    by (cases rule: drop_subscriber_cases) (use e lock_wait_over_set_file in auto)
qed

lemma close_file_wait:
  "close_file_delete_ephermeral j e fh s = Inr (ret, e', s') \<Longrightarrow> lock_wait_over ex p s' = lock_wait_over ex p s"
  using drop_subscriber_wait [where ex = ex and p = p]
  by (fastforce simp: close_file_delete_ephermeral_def result_simps split: if_splits)

lemma release_lock_wait:
  assumes "release_lock j fh s = Inr (rc, s')" and "p \<notin> set (release_notifies j fh s)" and "lock_wait_over ex p s'"
  shows "lock_wait_over ex p s"
  using assms
  by (auto simp: release_lock_def release_notifies_def meta_release_def lock_wait_over_def lock_free_for_def result_simps
      split: option.splits if_splits sum.splits) blast+

lemma end_session_loop_wait:
  "end_session_loop j is e ps sz s = Inr (ps', sz', s') \<Longrightarrow> p \<notin> set (end_session_notifies j is e s) \<Longrightarrow>
   lock_wait_over ex p s' \<Longrightarrow> lock_wait_over ex p s"
proof (induction "is" arbitrary: e ps sz s)
  case (Cons i "is")
  obtain ret e1 s1 rc s2 ps1 sz1 where
      cl: "close_file_delete_ephermeral j e (of_nat i) s = Inr (ret, e1, s1)"
    and rl: "release_lock j (of_nat i) s1 = Inr (rc, s2)"
    and lp: "end_session_loop j is e1 ps1 sz1 s2 = Inr (ps', sz', s')"
    using Cons.prems(1) by (auto simp: result_simps Let_def)
  have "lock_wait_over ex p s2" using Cons.IH [OF lp] Cons.prems(2,3) cl rl by simp
  then show ?case using release_lock_wait [OF rl] close_file_wait [OF cl, of ex p] Cons.prems(2) cl by simp
qed simp

lemma open_wait:
  assumes "apply_open x q d e s = Inr (r, s')" and "lock_wait_over ex p s'"
  shows "lock_wait_over ex p s"
proof (cases "find_session (int_of_int64 x) (sdb s) = None \<or> ds s p = None")
  case True
  then show ?thesis using assms by (auto simp: apply_open_def lock_wait_over_def)
next
  case False
  then obtain session s1 s2 where 1: "open_file q d e s = Inr s1" and 2: "open_parent q s1 = Inr s2"
    and 3: "open_handle (int_of_int64 x) session q s2 = Inr (r, s')"
    using assms(1) by (auto simp: apply_open_def Let_def result_simps)
  have "lock_wait_over ex p s1 \<Longrightarrow> lock_wait_over ex p s"
    using 1 False by (auto simp: open_file_def Let_def lock_wait_over_def lock_free_for_def split: if_splits)
  moreover have "lock_wait_over ex p s2 = lock_wait_over ex p s1"
    using 2 by (auto simp: open_parent_def Let_def result_simps lock_wait_over_def lock_free_for_def split: if_splits)
  moreover have "lock_wait_over ex p s' = lock_wait_over ex p s2"
    using 3 by (auto simp: open_handle_def Let_def result_simps split_def lock_wait_over_set_file)
  ultimately show ?thesis using assms(2) by simp
qed

lemma acq_wait:
  assumes "apply_acq x fh ae s = Inr (r, s')" and "lock_wait_over ex p s'"
  shows "lock_wait_over ex p s"
  using assms
  by (auto simp: apply_acq_def Let_def meta_acquire_def result_simps lock_wait_over_def lock_free_for_def
      split: option.splits if_splits)

lemma delete_wait:
  assumes "apply_delete x fh s = Inr (r, s')" and "p \<notin> set (commit_notifies (DeleteAction x fh) s)" and "lock_wait_over ex p s'"
  shows "lock_wait_over ex p s"
  using assms
  by (auto simp: apply_delete_def Let_def result_simps lock_wait_over_def lock_free_for_def session_of_def
      split: option.splits if_splits)

lemma silent_wait:
  assumes ap: "apply_action a s = Inr (r, s')" and n: "p \<notin> set (commit_notifies a s)" and w: "lock_wait_over ex p s'"
  shows "lock_wait_over ex p s"
proof (cases a)
  case (CloseAction x fh)
  then show ?thesis using ap n w close_file_wait release_lock_wait
    by (fastforce simp: apply_close_def session_of_def Let_def result_simps split: option.splits)
next
  case StartSessionAction
  then show ?thesis using ap w by (auto simp: apply_start_session_def split: prod.splits)
next
  case (EndSessionAction x)
  show ?thesis
  proof (cases "find_session (int_of_int64 x) (sdb s)")
    case None
    then show ?thesis using ap w EndSessionAction by (simp add: apply_end_session_def)
  next
    case (Some e)
    then obtain ps sz s1 d where "end_session_loop (int_of_int64 x) [0..<nat (sint (handle_count e))] e []
        (4 + 8 + length ''OK'' + 4) s = Inr (ps, sz, s1)" "s' = s1\<lparr>sdb := d\<rparr>"
      using ap EndSessionAction by (auto simp: apply_end_session_def Let_def result_simps)
    then show ?thesis using end_session_loop_wait n w Some EndSessionAction by (simp add: session_of_def)
  qed
next
  case (RelAction x fh)
  then show ?thesis using ap n w release_lock_wait
    by (fastforce simp: apply_rel_def result_simps split: if_splits)
next
  case (SetContentAction x fh c)
  then show ?thesis using ap w
    by (auto simp: apply_set_content_def Let_def result_simps lock_wait_over_set_file split: option.splits if_splits)
qed (use ap n w open_wait acq_wait delete_wait in \<open>auto simp del: commit_notifies.simps\<close>)

interpretation file_cv: condition_variable "\<lambda>c. lock_wait_over (ex c) key" "file_change key" file_leave
proof
  fix s s' c
  assume "file_change key Silent s s'" and w: "lock_wait_over (ex c) key s'"
  then obtain a r where "apply_action a s = Inr (r, s')" "key \<notin> set (commit_notifies a s)"
    by (auto simp: file_change_def notification_of_def split: if_splits)
  then show "lock_wait_over (ex c) key s" using silent_wait w by blast
qed (simp add: file_leave_def)

section \<open>Acknowledgements\<close>

definition ack_change :: "notification \<Rightarrow> ka_thread \<Rightarrow> ka_thread \<Rightarrow> bool" where
  "ack_change n t t' \<longleftrightarrow>
     (case n of
        Under_mutex \<Rightarrow> (\<exists>r acked. t' = ka_set_reactor r acked t)
      | Without_mutex \<Rightarrow> (\<exists>ret sid. ka_wake ret t = (Expire sid, t')) \<or> t' = ka_destroy t
      | Silent \<Rightarrow> (\<exists>fh k. ka_enqueue_event fh t = (k, t')) \<or>
          (\<exists>ret out. ka_wake ret t = (out, t') \<and> (\<forall>sid. out \<noteq> Expire sid)))"

interpretation ack_cv: condition_variable "\<lambda>c. ka_unblocked (eid c)" ack_change "\<lambda>c. ka_block_return (eid c)"
proof
  fix t t' c
  assume "ack_change Silent t t'" and "ka_unblocked (eid c) t'"
  then show "ka_unblocked (eid c) t"
    by (auto simp: ack_change_def ka_unblocked_def ka_enqueue_event_def ka_wake_def Let_def
        split: if_splits option.splits list.splits)
qed (auto simp: ka_unblocked_def ka_block_return_def)

lemma nobody_sleeps_in_vain_on_acks:
  "cv_run (\<lambda>c. ka_unblocked (eid c)) ack_change (\<lambda>c. ka_block_return (eid c)) (nobody_waits t) ls x \<Longrightarrow>
   Change Without_mutex \<notin> set ls \<Longrightarrow> ph x c = Some Sleeping \<Longrightarrow> eid c \<notin> acked_events (state x)"
  using ack_cv.nobody_sleeps_in_vain by (fastforce simp: ka_unblocked_def)

section \<open>Properties\<close>

text \<open>
  C10: a released lock wakes those who wait for it. As long as locks become free by releases and deletes, in every
  interleaving of \<open>Acquire\<close> calls with committed entries, a call that sleeps on the condition variable of its
  file has nothing to take: the lock is not free for its mode. No notification is missed between the test of the
  condition and falling asleep. (With ends of sessions this fails: \<open>acquire_misses_session_end\<close>.)
\<close>

theorem acquire_is_woken:
  assumes "cv_run (\<lambda>c. lock_wait_over (ex c) key) (file_change key) file_leave (nobody_waits s) ls x"
    and "Change Without_mutex \<notin> set ls" and "ph x c = Some Sleeping"
  shows "\<not> lock_free_for (ex c) key (state x)"
  using file_cv.nobody_sleeps_in_vain [OF assms] by (simp add: lock_wait_over_def)

text \<open>Session 0 owns the lock exclusively, the call of session 1 tests it and is about to sleep.\<close>

definition tested :: "'s \<Rightarrow> 's cv" where
  "tested s = \<lparr>state = s, mutex = Some 1, ph = [1 \<mapsto> Deciding]\<rparr>"

lemma run_tested: "\<not> P 1 s \<Longrightarrow> cv_run P chg leave (nobody_waits s) [Thread 1, Thread 1] (tested s)"
proof -
  assume n: "\<not> P 1 s"
  let ?x = "\<lparr>state = s, mutex = Some 1, ph = [1 \<mapsto> Testing]\<rparr>"
  have "cv_step P chg leave (nobody_waits s) (Thread 1) ?x"
    using lock [of "nobody_waits s" 1 P chg leave] by (simp add: nobody_waits_def)
  moreover have "cv_step P chg leave ?x (Thread 1) (tested s)"
    using fail [of ?x 1 P chg leave] n by (simp add: tested_def)
  ultimately have "cv_run P chg leave (nobody_waits s) ([Thread 1] @ [Thread 1]) (tested s)"
    by (blast intro: steps_single steps_more)
  then show ?thesis by simp
qed

theorem acquire_is_woken_witness:
  "\<exists>x. cv_run (\<lambda>c. lock_wait_over True ''/f'') (file_change ''/f'') file_leave
      (nobody_waits (after_log locked_log)) [Thread 1, Thread 1, Thread 1] x \<and>
    ph x 1 = Some Sleeping \<and> \<not> lock_free_for True ''/f'' (state x)"
proof -
  let ?P = "\<lambda>c :: nat. lock_wait_over True ''/f''" and ?s = "after_log locked_log"
  let ?x = "(tested ?s)\<lparr>mutex := None, ph := (ph (tested ?s))(1 \<mapsto> Sleeping)\<rparr>"
  have "\<not> ?P 1 ?s" by code_simp
  then have "cv_run ?P (file_change ''/f'') file_leave (nobody_waits ?s) [Thread 1, Thread 1] (tested ?s)" by (rule run_tested)
  moreover have "cv_step ?P (file_change ''/f'') file_leave (tested ?s) (Thread 1) ?x"
    by (rule sleep) (simp add: tested_def)
  ultimately have run: "cv_run ?P (file_change ''/f'') file_leave (nobody_waits ?s) [Thread 1, Thread 1, Thread 1] ?x"
    using steps_more by fastforce
  have "\<not> lock_free_for True ''/f'' (state ?x)"
    using acquire_is_woken [where ex = "\<lambda>_. True", OF run, of 1] by (simp add: tested_def)
  then show ?thesis using run by (intro exI [of _ ?x]) simp
qed

text \<open>
  C13: the end of a session can leave a waiting call asleep. Whenever the end of a session frees a lock that an \<open>Acquire\<close> call
  has found taken, there is a run in which the call has tested its condition and is about to sleep, the commit frees the lock and
  notifies without the mutex, and the call falls asleep although the lock is free; it sleeps until somebody notifies again,
  which nothing need ever do.
\<close>

theorem acquire_misses_session_end:
  assumes "apply_action (EndSessionAction y) s = Inr (r, s')" and "\<not> lock_wait_over ex key s" and "lock_free_for ex key s'"
  shows "\<exists>ls x. cv_run (\<lambda>_. lock_wait_over ex key) (file_change key) file_leave (nobody_waits s) ls x \<and>
     state x = s' \<and> ph x 1 = Some Sleeping \<and>
     sleeps_until_notified (\<lambda>_. lock_wait_over ex key) (file_change key) file_leave 1 x"
proof -
  let ?P = "\<lambda>_ :: nat. lock_wait_over ex key"
  have over: "lock_wait_over ex key s'" using assms(3) by (simp add: lock_wait_over_def)
  have chg: "file_change key (notification_of key (EndSessionAction y) s) s s'" using assms(1) unfolding file_change_def by blast
  have "notification_of key (EndSessionAction y) s \<noteq> Silent"
    using file_cv.silent_keeps [of key s s' "\<lambda>_. ex"] chg over assms(2) by auto
  then have "file_change key Without_mutex s s'" using chg by (auto simp: notification_of_def split: if_splits)
  then obtain x where 2: "cv_run ?P (file_change key) file_leave (tested s) [Change Without_mutex, Thread 1] x"
    and x: "ph x 1 = Some Sleeping" "state x = s'"
    using notification_missed [of "tested s" 1 "file_change key" s' ?P file_leave] by (auto simp: tested_def)
  have 1: "cv_run ?P (file_change key) file_leave (nobody_waits s) [Thread 1, Thread 1] (tested s)"
    by (rule run_tested) (rule assms(2))
  have "sleeps_until_notified ?P (file_change key) file_leave 1 x" using sleeping_until_notified [OF x(1)] .
  then show ?thesis using steps_append [OF 2 1] x
    by (intro exI [of _ "[Thread 1, Thread 1] @ [Change Without_mutex, Thread 1]"] exI [of _ x]) simp
qed

theorem acquire_misses_session_end_witness:
  "\<exists>ls x. cv_run (\<lambda>_. lock_wait_over True ''/f'') (file_change ''/f'') file_leave (nobody_waits (after_log locked_log)) ls x \<and>
     lock_state (state x) ''/f'' = Some Free \<and> ph x 1 = Some Sleeping"
proof -
  have 1: "apply_action (EndSessionAction 0) (after_log locked_log) =
      Inr (EndSessionReturn 18 [], after_log (locked_log @ [EndSessionAction 0]))"
    by (rule step_after) code_simp
  have 2: "\<not> lock_wait_over True ''/f'' (after_log locked_log)" by code_simp
  have 3: "lock_free_for True ''/f'' (after_log (locked_log @ [EndSessionAction 0]))" by code_simp
  have 4: "lock_state (after_log (locked_log @ [EndSessionAction 0])) ''/f'' = Some Free" by code_simp
  show ?thesis using acquire_misses_session_end [OF 1 2 3] 4 by metis
qed

text \<open>
  The expiry of a session can leave a notifier asleep. A call waits for the acknowledgement of event 5 by a session; it has
  tested the condition in vain when the session's thread times out and calls \<open>cancel\<close>, which notifies without the
  mutex. The call falls asleep although its wait is over; only a further KeepAlive call or another \<open>cancel\<close> would wake
  it. The session is ended, so that no such call comes, and its thread is destroyed only after the
  sleeping call has returned.
\<close>

theorem notifier_misses_expiry:
  "\<exists>ls x. cv_run (\<lambda>_. ka_unblocked 5) ack_change (\<lambda>_. ka_block_return 5)
       (nobody_waits (snd (ka_enqueue_event 0 (new_kathread 5 1)))) ls x \<and>
     ka_wake Timeout (snd (ka_enqueue_event 0 (new_kathread 5 1))) = (Expire 1, state x) \<and>
     ka_unblocked 5 (state x) \<and> ph x 1 = Some Sleeping \<and>
     sleeps_until_notified (\<lambda>_. ka_unblocked 5) ack_change (\<lambda>_. ka_block_return 5) 1 x"
proof -
  let ?P = "\<lambda>_ :: nat. ka_unblocked 5" and ?leave = "\<lambda>_ :: nat. ka_block_return 5"
  let ?t = "snd (ka_enqueue_event 0 (new_kathread 5 1))"
  have wake: "ka_wake Timeout ?t = (Expire 1, ka_cancel ?t)"
    by (simp add: ka_enqueue_event_def new_kathread_def ka_wake_def Let_def)
  then have chg: "ack_change Without_mutex ?t (ka_cancel ?t)" by (auto simp: ack_change_def)
  have "\<not> ?P 1 ?t" by (simp add: ka_enqueue_event_def new_kathread_def ka_unblocked_def Let_def)
  then have 1: "cv_run ?P ack_change ?leave (nobody_waits ?t) [Thread 1, Thread 1] (tested ?t)" by (rule run_tested)
  obtain x where 2: "cv_run ?P ack_change ?leave (tested ?t) [Change Without_mutex, Thread 1] x"
    and x: "ph x 1 = Some Sleeping" "state x = ka_cancel ?t"
    using notification_missed [of "tested ?t" 1 ack_change "ka_cancel ?t" ?P ?leave] chg by (auto simp: tested_def)
  have "ka_unblocked 5 (ka_cancel ?t)" by (simp add: ka_unblocked_def ka_cancel_def)
  moreover have "sleeps_until_notified ?P ack_change ?leave 1 x" using sleeping_until_notified [OF x(1)] .
  ultimately show ?thesis using steps_append [OF 2 1] wake x
    by (intro exI [of _ "[Thread 1, Thread 1] @ [Change Without_mutex, Thread 1]"] exI [of _ x]) simp
qed

end
