(* ===== verification/Reelection.thy ===== *)
theory Reelection
  imports System
begin

text \<open>
  A server that becomes leader again: \<open>start_kathread\<close> of the session database (src/Session.cpp) gives every session a new
  keep-alive thread. What the old thread had is gone, the client's call in progress with it. It takes the lock of the database and, for each session,
  the lock of the thread (\<open>kalock_\<close>) for itself, which the calls that wait for an acknowledgement share; with the lock of the
  database held, no session is found, by no handler and no commit.
\<close>

section \<open>The calls in progress\<close>

fun no_keepalive :: "ka_trace \<Rightarrow> bool" where
  "no_keepalive [] = True"
| "no_keepalive ((Keepalive r a, out) # tr) = False"
| "no_keepalive (_ # tr) = no_keepalive tr"

lemma no_keepalive_append [simp]: "no_keepalive (tr @ tr') = (no_keepalive tr \<and> no_keepalive tr')"
  by (induction tr rule: no_keepalive.induct) simp_all

definition finished :: "ka_trace \<Rightarrow> nat \<Rightarrow> bool" where
  "finished tr r \<longleftrightarrow> (\<exists>ev event. (ev, Finish r event) \<in> set tr)"

lemma ka_step_reactor:
  "ka_step t ev out t' \<Longrightarrow> reactor t = None \<Longrightarrow> (\<forall>r a. ev \<noteq> Keepalive r a) \<Longrightarrow> reactor t' = None \<and> (\<forall>r event. out \<noteq> Finish r event)"
  by (induction rule: ka_step.induct)
    (auto simp: ka_wake_def ka_enqueue_event_def ka_block_return_def ka_cancel_def Let_def split: if_splits option.splits list.splits)

lemma ka_run_reactor:
  "ka_run t tr t' \<Longrightarrow> reactor t = None \<Longrightarrow> no_keepalive tr \<Longrightarrow> reactor t' = None \<and> \<not> finished tr r"
proof (induction rule: ka_run_induct)
  case (run_step tr t1 ev out t2)
  then have "\<forall>r a. ev \<noteq> Keepalive r a" by (cases ev) auto
  then show ?case using ka_step_reactor [OF run_step.hyps(2)] run_step by (auto simp: finished_def)
qed (simp add: finished_def)

text \<open>What the new thread does while its session's client makes no new call.\<close>

definition expires_unserved :: "ka_thread \<Rightarrow> nat \<Rightarrow> bool" where
  "expires_unserved t r \<longleftrightarrow> (\<forall>tr t'. ka_run t tr t' \<longrightarrow> no_keepalive tr \<longrightarrow>
     \<not> finished tr r \<and> (cancelled t' \<or> ka_wake Timeout t' = (Expire (ka_sid t), ka_cancel t')))"



section \<open>The locks\<close>

text \<open>
  The database with the calls that wait in \<open>block_until_event_acked\<close> (session and event), each of which shares the lock of
  its session's thread, and the progress of \<open>start_kathread\<close>: the sessions that have no new thread yet, while it holds the lock of the
  database. A handler or a commit that looks for a session waits for that lock.
\<close>

record relock =
  server :: sm_state
  restarting :: "i32 list option"
  waiting :: "(i32 \<times> i32) set"

datatype re_event = Restarts "i32 list" | Restarted i32 | Unlocks | Serves nat i64 "i32 option" | Commits action
  | Notifies i32 i32 | Acked i32 i32 | Wakes i32 cv_status ka_output

inductive re_step :: "buf_api \<Rightarrow> (i32 \<Rightarrow> i32) \<Rightarrow> relock \<Rightarrow> re_event \<Rightarrow> relock \<Rightarrow> bool" for B e0 where
  restarts: "restarting z = None \<Longrightarrow> distinct sids \<Longrightarrow> set sids = {sid. find_session sid (sdb (server z)) \<noteq> None} \<Longrightarrow>
    re_step B e0 z (Restarts sids) (z\<lparr>restarting := Some sids\<rparr>)"
| restarted: "restarting z = Some (sid # sids) \<Longrightarrow> \<forall>eid. (sid, eid) \<notin> waiting z \<Longrightarrow> find_session sid (sdb (server z)) = Some e \<Longrightarrow>
    re_step B e0 z (Restarted sid)
      (z\<lparr>server := set_session sid (entry_start_kathread (e0 sid) e) (server z), restarting := Some sids\<rparr>)"
| unlocks: "restarting z = Some [] \<Longrightarrow> re_step B e0 z Unlocks (z\<lparr>restarting := None\<rparr>)"
| serves: "restarting z = None \<Longrightarrow> KeepAlive (leader_raft B) r x a (server z) = (answer, s') \<Longrightarrow>
    re_step B e0 z (Serves r x a) (z\<lparr>server := s'\<rparr>)"
| commits: "restarting z = None \<Longrightarrow> apply_action a (server z) = Inr (ret, s') \<Longrightarrow>
    re_step B e0 z (Commits a) (z\<lparr>server := s'\<rparr>)"
| notifies: "restarting z = None \<Longrightarrow> thread_of sid (sdb (server z)) = Some t \<Longrightarrow> ka_enqueue_event fh t = (eid, t') \<Longrightarrow>
    re_step B e0 z (Notifies sid fh) (z\<lparr>server := set_thread sid t' (server z), waiting := insert (sid, eid) (waiting z)\<rparr>)"
| acked: "(sid, eid) \<in> waiting z \<Longrightarrow> thread_of sid (sdb (server z)) = Some t \<Longrightarrow> ka_unblocked eid t \<Longrightarrow>
    re_step B e0 z (Acked sid eid)
      (z\<lparr>server := set_thread sid (ka_block_return eid t) (server z), waiting := waiting z - {(sid, eid)}\<rparr>)"
| wakes: "thread_of sid (sdb (server z)) = Some t \<Longrightarrow> ka_wake ret t = (out, t') \<Longrightarrow>
    re_step B e0 z (Wakes sid ret out) (z\<lparr>server := set_thread sid t' (server z)\<rparr>)"

definition expires_in :: "i32 \<Rightarrow> re_event list \<Rightarrow> bool" where
  "expires_in sid tr \<longleftrightarrow> (\<exists>ret s. Wakes sid ret (Expire s) \<in> set tr)"

lemma expires_in_simps [simp]:
  "\<not> expires_in sid []" "expires_in sid (tr @ tr') = (expires_in sid tr \<or> expires_in sid tr')"
  "expires_in sid [ev] = (\<exists>ret s. ev = Wakes sid ret (Expire s))"
  by (auto simp: expires_in_def)

text \<open>The restart waits for the thread of a session on which a call waits.\<close>

definition restart_waits :: "i32 \<Rightarrow> i32 \<Rightarrow> i32 list \<Rightarrow> sm_state \<Rightarrow> relock \<Rightarrow> bool" where
  "restart_waits sid eid sids s z \<longleftrightarrow> restarting z = Some (sid # sids) \<and> (sid, eid) \<in> waiting z \<and>
     ds (server z) = ds s \<and> same_handles (sdb s) (sdb (server z)) \<and>
     (\<exists>t. thread_of sid (sdb (server z)) = Some t \<and> \<not> ka_unblocked eid t)"

lemma ka_wake_unblocked:
  "ka_wake ret t = (out, t') \<Longrightarrow> \<not> ka_unblocked eid t \<Longrightarrow> (\<forall>s. out \<noteq> Expire s) \<Longrightarrow> \<not> ka_unblocked eid t'"
  by (auto simp: ka_wake_def ka_unblocked_def split: if_splits option.splits list.splits)

lemma same_handles_trans: "same_handles d d1 \<Longrightarrow> same_handles d1 d2 \<Longrightarrow> same_handles d d2"
  by (simp add: same_handles_def)

lemma restart_waits_step:
  assumes "re_step B e0 z ev z'" and w: "restart_waits sid eid sids s z" and "\<not> expires_in sid [ev]"
  shows "restart_waits sid eid sids s z'"
  using assms(1)
proof cases
  case (acked sid' eid' t)
  note th = set_thread_effect [OF acked(4)]
  show ?thesis using w acked th(1,2) same_handles_trans [OF _ th(3)]
    by (auto simp: restart_waits_def ka_unblocked_def ka_block_return_def)
next
  case (wakes sid' t ret out t')
  note th = set_thread_effect [OF wakes(3)]
  show ?thesis using w wakes th(1,2) same_handles_trans [OF _ th(3)] ka_wake_unblocked [OF wakes(4)] assms(3)
    by (auto simp: restart_waits_def)
qed (use w in \<open>auto simp: restart_waits_def\<close>)

fun needs_db :: "re_event \<Rightarrow> bool" where
  "needs_db (Serves r x a) = True"
| "needs_db (Commits a) = True"
| "needs_db (Notifies sid fh) = True"
| "needs_db _ = False"

lemma restart_waits_run:
  "steps (re_step B e0) z tr z' \<Longrightarrow> restart_waits sid eid sids s z \<Longrightarrow> \<not> expires_in sid tr \<Longrightarrow>
   restart_waits sid eid sids s z' \<and> list_all (Not \<circ> needs_db) tr"
proof (induction rule: steps.induct)
  case (steps_more tr z1 ev z2)
  then have w: "restart_waits sid eid sids s z1" "list_all (Not \<circ> needs_db) tr" "\<not> expires_in sid [ev]"
    by (auto simp: comp_def)
  have "\<not> needs_db ev" using steps_more.hyps(2) w(1) by cases (auto simp: restart_waits_def)
  then show ?case using restart_waits_step [OF steps_more.hyps(2) w(1,3)] w(2) by (simp add: comp_def)
qed simp

text \<open>
  C34: a leader that is elected again serves nobody while a call waits. If \<open>start_kathread\<close> comes to a session with a call that waits for an
  acknowledgement, it goes on only when the session expires: until then, whatever happens, no KeepAlive is served and so the
  acknowledgement cannot come, nothing is committed, nobody is notified, and files and sessions stay as they are.
\<close>

theorem reelection_waits_for_expiry:
  assumes "restarting z = Some (sid # sids)" and "(sid, eid) \<in> waiting z" and "thread_of sid (sdb (server z)) = Some t"
    and "\<not> ka_unblocked eid t" and "steps (re_step B e0) z tr z'" and "\<not> expires_in sid tr"
  shows "list_all (Not \<circ> needs_db) tr \<and> restarting z' = Some (sid # sids) \<and> (sid, eid) \<in> waiting z' \<and>
    ds (server z') = ds (server z) \<and> same_handles (sdb (server z)) (sdb (server z'))"
proof -
  have "restart_waits sid eid sids (server z) z" using assms(1-4) by (simp add: restart_waits_def same_handles_def)
  from restart_waits_run [OF assms(5) this assms(6)] show ?thesis by (simp add: restart_waits_def)
qed

text \<open>With the expiry of the session the call returns and the restart goes on.\<close>

lemma restart_goes_on:
  assumes r: "restarting z = Some (sid # sids)" and w: "waiting z = {(sid, eid)}" and t: "thread_of sid (sdb (server z)) = Some t"
    and ka: "\<not> cancelled t" "reactor t = None"
  shows "\<exists>z'. steps (re_step B e0) z [Wakes sid Timeout (Expire (ka_sid t)), Acked sid eid, Restarted sid] z' \<and>
    restarting z' = Some sids \<and> waiting z' = {}"
proof -
  let ?s1 = "set_thread sid (ka_cancel t) (server z)" and ?t2 = "ka_block_return eid (ka_cancel t)"
  let ?z1 = "z\<lparr>server := ?s1\<rparr>"
  let ?z2 = "?z1\<lparr>server := set_thread sid ?t2 ?s1, waiting := waiting ?z1 - {(sid, eid)}\<rparr>"
  have t1: "thread_of sid (sdb ?s1) = Some (ka_cancel t)" using set_thread_effect(1) [OF t] by simp
  have 1: "re_step B e0 z (Wakes sid Timeout (Expire (ka_sid t))) ?z1" by (rule wakes [OF t]) (simp add: ka_wake_def ka)
  have 2: "re_step B e0 ?z1 (Acked sid eid) ?z2"
    using acked [of sid eid ?z1 "ka_cancel t" B e0] w t1 by (simp add: ka_unblocked_def ka_cancel_def)
  obtain e where e: "find_session sid (sdb (server ?z2)) = Some e"
    using set_thread_effect(1) [OF t1, of sid ?t2] by (auto simp: thread_of_def split: option.splits)
  let ?z3 = "?z2\<lparr>server := set_session sid (entry_start_kathread (e0 sid) e) (server ?z2), restarting := Some sids\<rparr>"
  have 3: "re_step B e0 ?z2 (Restarted sid) ?z3" by (rule restarted [OF _ _ e]) (use r w in simp_all)
  have "steps (re_step B e0) z [Wakes sid Timeout (Expire (ka_sid t)), Acked sid eid, Restarted sid] ?z3"
    by (rule steps_cons [where step = "re_step B e0", OF 1], rule steps_cons [where step = "re_step B e0", OF 2],
        rule steps_single [where step = "re_step B e0", OF 3])
  then show ?thesis using w by (intro exI [of _ ?z3]) simp
qed

text \<open>A call waits for the acknowledgement of event 5 by session 1 when the server becomes leader again.\<close>

definition reelected :: relock where
  "reelected = \<lparr>server = set_thread 1 (snd (ka_enqueue_event 0 (new_kathread 5 1))) (new_leader 5 two_sessions),
     restarting = Some [1, 0], waiting = {(1, 5)}\<rparr>"

theorem reelection_waits_for_expiry_witness:
  "{z'. \<exists>tr. steps (re_step le_buf (\<lambda>_. 5)) reelected tr z' \<and> \<not> expires_in 1 tr} \<subseteq>
   {z'. restarting z' = Some [1, 0] \<and> ds (server z') = ds (server reelected)}"
proof -
  let ?t = "snd (ka_enqueue_event 0 (new_kathread 5 1))"
  have "thread_of 1 (sdb (new_leader 5 two_sessions)) = Some (new_kathread 5 1)" by code_simp
  from set_thread_effect(1) [OF this, of 1 ?t] have t: "thread_of 1 (sdb (server reelected)) = Some ?t" by (simp add: reelected_def)
  have u: "\<not> ka_unblocked 5 ?t" by (simp add: ka_unblocked_def ka_enqueue_event_def new_kathread_def Let_def)
  have r: "restarting reelected = Some (1 # [0])" "(1, 5) \<in> waiting reelected" by (simp_all add: reelected_def)
  show ?thesis using reelection_waits_for_expiry [OF r t u] by blast
qed

end
