(* ===== verification/Directories.thy ===== *)
theory Directories
  imports SM_Properties
begin

text \<open>
  Directory listings. The content of a directory is kept in step with its children by three pieces of code:
  an open appends a name, a delete and the removal of an ephemeral file search for it and erase it. This works
  for the sets of paths described by \<open>paths_ok\<close>: no name in a directory is a prefix of another one's, and a path
  determines and is determined by its parent and its name. For other paths it does not
  (\<open>delete_corrupts_listing\<close>).
\<close>

definition paths_ok :: "string set \<Rightarrow> bool" where
  "paths_ok P \<longleftrightarrow> (\<forall>p \<in> P. parent_path p \<noteq> p \<and> nul_free (filename p) \<and>
     (\<forall>q \<in> P. parent_path q = parent_path p \<longrightarrow> prefix (filename p) (filename q) \<longrightarrow> q = p))"

definition exists_in :: "data_store \<Rightarrow> string \<Rightarrow> bool" where
  "exists_in f p = (case f p of Some (m, _) \<Rightarrow> file_exists m | None \<Rightarrow> False)"

definition children :: "string set \<Rightarrow> data_store \<Rightarrow> string \<Rightarrow> string set" where
  "children P f d = {p \<in> P. parent_path p = d \<and> exists_in f p}"

definition lists :: "string set \<Rightarrow> data_store \<Rightarrow> string \<Rightarrow> string \<Rightarrow> bool" where
  "lists P f d c \<longleftrightarrow> (\<exists>names. c = listing names \<and> distinct names \<and> set names = filename ` children P f d)"

definition dirs_ok :: "string set \<Rightarrow> data_store \<Rightarrow> bool" where
  "dirs_ok P f \<longleftrightarrow> (\<forall>d m c. d \<in> parent_path ` P \<longrightarrow> f d = Some (m, c) \<longrightarrow> is_directory m \<and> lists P f d c)"

definition handles_in :: "string set \<Rightarrow> db \<Rightarrow> bool" where
  "handles_in P d \<longleftrightarrow> (\<forall>sid e. find_session sid d = Some e \<longrightarrow> set (entry_v e) \<subseteq> P)"

section \<open>Changes of the store\<close>

lemma lists_cong: "children P f' d = children P f d \<Longrightarrow> lists P f' d c = lists P f d c"
  by (simp add: lists_def)

lemma exists_in_upd [simp]: "exists_in (f(p \<mapsto> (m, c))) q = (if q = p then file_exists m else exists_in f q)"
  by (simp add: exists_in_def)

text \<open>A change of one file that keeps its existence and, of a directory, the content and the flag.\<close>

lemma dirs_ok_update:
  assumes ok: "dirs_ok P f" and p: "f p = Some (m, c)" and ex: "file_exists m' = file_exists m"
    and d: "p \<in> parent_path ` P \<Longrightarrow> c' = c \<and> is_directory m'"
  shows "dirs_ok P (f(p \<mapsto> (m', c')))"
proof -
  have "exists_in f p = file_exists m" using p by (simp add: exists_in_def)
  then have "children P (f(p \<mapsto> (m', c'))) d = children P f d" for d using ex by (auto simp: children_def)
  then have "lists P (f(p \<mapsto> (m', c'))) d z = lists P f d z" for d z by (simp add: lists_def)
  then show ?thesis using ok p d by (auto simp: dirs_ok_def)
qed

text \<open>A new entry for a file that does not exist yet.\<close>

lemma dirs_ok_new:
  assumes ok: "dirs_ok P f" and p: "f p = None" and ex: "\<not> file_exists m" and d: "p \<in> parent_path ` P \<Longrightarrow> is_directory m"
    and par: "\<And>q. f q \<noteq> None \<Longrightarrow> f (parent_path q) \<noteq> None"
  shows "dirs_ok P (f(p \<mapsto> (m, [])))"
proof -
  have "\<not> exists_in f p" using p by (simp add: exists_in_def)
  then have "children P (f(p \<mapsto> (m, []))) d = children P f d" for d using ex by (auto simp: children_def)
  then have same: "lists P (f(p \<mapsto> (m, []))) d z = lists P f d z" for d z by (simp add: lists_def)
  have "children P f p = {}" using par p by (force simp: children_def exists_in_def split: option.splits)
  then have "lists P f p []" by (simp add: lists_def)
  then show ?thesis using ok d same by (auto simp: dirs_ok_def)
qed

lemma filename_inj:
  "paths_ok P \<Longrightarrow> p \<in> P \<Longrightarrow> q \<in> P \<Longrightarrow> parent_path q = parent_path p \<Longrightarrow> filename p = filename q \<Longrightarrow> q = p"
  by (auto simp: paths_ok_def)

text \<open>The creation of a file: its name is appended to the listing of its parent.\<close>

lemma dirs_ok_create:
  assumes P: "paths_ok P" and ok: "dirs_ok P f" and p: "p \<in> P" and m: "f p = Some (m, c)" and new: "\<not> file_exists m"
    and pm: "f (parent_path p) = Some (pm, pc)" and m': "file_exists m'" "is_directory m' = is_directory m"
  shows "dirs_ok P (f(parent_path p \<mapsto> (pm, add_child pc (filename p)), p \<mapsto> (m', c)))"
proof -
  let ?d = "parent_path p"
  let ?f = "f(?d \<mapsto> (pm, add_child pc (filename p)), p \<mapsto> (m', c))"
  have ne: "?d \<noteq> p" using P p by (auto simp: paths_ok_def)
  have notin: "\<not> exists_in f p" using m new by (simp add: exists_in_def)
  have exd: "file_exists pm = exists_in f ?d" using pm by (simp add: exists_in_def)
  have ch: "children P ?f d = (if d = ?d then insert p (children P f d) else children P f d)" for d
    using p m'(1) ne notin exd by (auto simp: children_def)
  have "is_directory pm \<and> lists P f ?d pc" using ok pm p by (auto simp: dirs_ok_def)
  then obtain names where n: "pc = listing names" "distinct names" "set names = filename ` children P f ?d" "is_directory pm"
    by (auto simp: lists_def)
  have "filename p \<notin> set names"
  proof
    assume "filename p \<in> set names"
    then obtain q where "q \<in> P" "parent_path q = ?d" "exists_in f q" "filename p = filename q" using n(3) by (auto simp: children_def)
    then show False using filename_inj [OF P p] notin by metis
  qed
  then have "lists P ?f ?d (add_child pc (filename p))"
    unfolding lists_def ch using n by (intro exI [of _ "names @ [filename p]"]) (auto simp: listing_add)
  moreover have "lists P ?f d z = lists P f d z" if "d \<noteq> ?d" for d z using ch that by (simp add: lists_def)
  ultimately show ?thesis using ok ne n(4) m m'(2) by (auto simp: dirs_ok_def split: if_splits)
qed

text \<open>The removal of a file, by a delete or with its last handle: its name is searched and erased.\<close>

lemma dirs_ok_remove:
  assumes P: "paths_ok P" and ok: "dirs_ok P f" and p: "p \<in> P" and m: "f p = Some (m, c)"
    and pm: "f (parent_path p) = Some (pm, pc)" and m': "\<not> file_exists m'" "is_directory m' = is_directory m"
    and c': "p \<in> parent_path ` P \<Longrightarrow> c' = c"
  shows "dirs_ok P (f(parent_path p \<mapsto> (pm, case remove_child pc (filename p) of Some pc' \<Rightarrow> pc' | None \<Rightarrow> pc), p \<mapsto> (m', c')))"
proof -
  let ?d = "parent_path p"
  let ?pc = "case remove_child pc (filename p) of Some pc' \<Rightarrow> pc' | None \<Rightarrow> pc"
  let ?f = "f(?d \<mapsto> (pm, ?pc), p \<mapsto> (m', c'))"
  have ne: "?d \<noteq> p" using P p by (auto simp: paths_ok_def)
  have exd: "file_exists pm = exists_in f ?d" using pm by (simp add: exists_in_def)
  have ch: "children P ?f d = (if d = ?d then children P f d - {p} else children P f d)" for d
    using m'(1) ne exd by (auto simp: children_def)
  have "is_directory pm \<and> lists P f ?d pc" using ok pm p by (auto simp: dirs_ok_def)
  then obtain names where n: "pc = listing names" "distinct names" "set names = filename ` children P f ?d" "is_directory pm"
    by (auto simp: lists_def)
  have free: "nul_free z" if "z \<in> set names" for z using that n(3) P by (auto simp: children_def paths_ok_def)
  have pfree: "nul_free (filename p)" using P p by (simp add: paths_ok_def)
  have only: "z = filename p \<and> exists_in f p" if z: "z \<in> set names" "prefix (filename p) z" for z
  proof -
    obtain q where q: "q \<in> P" "parent_path q = ?d" "exists_in f q" "z = filename q" using z(1) n(3) by (auto simp: children_def)
    then have "q = p" using P p z(2) by (auto simp: paths_ok_def)
    then show ?thesis using q by simp
  qed
  have "lists P ?f ?d ?pc"
  proof (cases "exists_in f p")
    case True
    then have "filename p \<in> set names" using n(3) p by (auto simp: children_def)
    then obtain ns1 ns2 where ns: "names = ns1 @ filename p # ns2" by (auto simp: in_set_conv_decomp)
    have "\<forall>z \<in> set ns1. \<not> prefix (filename p) z" using only n(2) ns by fastforce
    then have "remove_child pc (filename p) = Some (listing (ns1 @ ns2))"
      using remove_child_listing [of ns1 "filename p" ns2] free pfree n(1) ns by simp
    moreover have "set (ns1 @ ns2) = filename ` (children P f ?d - {p})"
    proof -
      have "set (ns1 @ ns2) = set names - {filename p}" using n(2) ns by auto
      also have "\<dots> = filename ` (children P f ?d - {p})"
        using n(3) filename_inj [OF P p] by (auto simp: children_def)
      finally show ?thesis .
    qed
    ultimately show ?thesis unfolding lists_def ch using n(2) ns
      by (intro exI [of _ "ns1 @ ns2"]) simp
  next
    case False
    then have "\<forall>z \<in> set names. nul_free z \<and> \<not> prefix (filename p) z" using only free by blast
    then have "remove_child pc (filename p) = None" using remove_child_absent [OF pfree] n(1) by simp
    moreover have "children P f ?d - {p} = children P f ?d" using False by (auto simp: children_def)
    ultimately show ?thesis unfolding lists_def ch using n by auto
  qed
  moreover have "lists P ?f d z = lists P f d z" if "d \<noteq> ?d" for d z using ch that by (simp add: lists_def)
  ultimately show ?thesis using ok ne n(4) m m'(2) c' by (auto simp: dirs_ok_def split: if_splits)
qed

section \<open>Every action\<close>

text \<open>Directories are opened as directories, only paths of the set are opened, and no content is written to a directory.\<close>

fun tidy_action :: "string set \<Rightarrow> action \<Rightarrow> sm_state \<Rightarrow> bool" where
  "tidy_action P (OpenAction x p d e) s = (p \<in> P \<and> (p \<in> parent_path ` P \<longrightarrow> bool_of_int d))"
| "tidy_action P (SetContentAction x fh c) s =
     (case session_of s x of
        None \<Rightarrow> True
      | Some e \<Rightarrow> (case fh_to_key fh e of
          Inl _ \<Rightarrow> True
        | Inr p \<Rightarrow> (case ds s p of None \<Rightarrow> True | Some (m, _) \<Rightarrow> \<not> is_directory m)))"
| "tidy_action P _ s = True"

definition dirs_inv :: "string set \<Rightarrow> sm_state \<Rightarrow> bool" where
  "dirs_inv P s \<longleftrightarrow> dirs_ok P (ds s) \<and> handles_in P (sdb s)"

lemma handles_in_key: "handles_in P d \<Longrightarrow> find_session sid d = Some e \<Longrightarrow> fh_to_key fh e = Inr p \<Longrightarrow> p \<in> P"
  unfolding handles_in_def fh_to_key_def vec_at_Inr_iff in_range_def by (metis nth_mem subsetD)

lemma handles_in_put:
  "handles_in P d \<Longrightarrow> set (entry_v e) \<subseteq> P \<Longrightarrow> handles_in P (put_session sid e d)"
  by (simp add: handles_in_def find_put_session)

lemma handles_in_same: "handles_in P d \<Longrightarrow> same_handles d d' \<Longrightarrow> handles_in P d'"
  unfolding handles_in_def using same_handlesD [OF same_handles_sym] by metis

lemma drop_subscriber_dirs:
  assumes P: "paths_ok P" and ok: "dirs_ok P (ds s)" and p: "key \<in> P" and dr: "drop_subscriber sid key s = Inr (ret, s')"
    and m: "ds s key = Some (m, c)"
  shows "dirs_ok P (ds s')"
proof -
  have D: "key \<in> parent_path ` P \<Longrightarrow> is_directory m" using ok m by (auto simp: dirs_ok_def)
  have ne: "parent_path key \<noteq> key" using P p by (auto simp: paths_ok_def)
  define m1 where "m1 = m\<lparr>subscribers := AList.delete sid (subscribers m)\<rparr>"
  have m1: "file_exists m1 = file_exists m" "is_directory m1 = is_directory m" by (simp_all add: m1_def)
  from dr m m1_def show ?thesis
  proof (cases rule: drop_subscriber_cases)
    case unsubscribed
    then show ?thesis using ok by simp
  next
    case kept
    then show ?thesis using dirs_ok_update [OF ok m m1(1)] D m1(2) by simp
  next
    case (removed pm pc)
    then have pm: "ds s (parent_path key) = Some (pm, pc)" using ne by simp
    from dirs_ok_remove [OF P ok p m pm, of "m1\<lparr>file_exists := False\<rparr>" c] removed show ?thesis
      using m1(2) pm by (simp add: fun_upd_idem)
  next
    case (unlisted pm pc pc')
    then have pm: "ds s (parent_path key) = Some (pm, pc)" using ne by simp
    from dirs_ok_remove [OF P ok p m pm, of "m1\<lparr>file_exists := False\<rparr>" c] unlisted show ?thesis
      using m1(2) ne by (simp add: fun_upd_twist)
  qed
qed

lemma close_file_dirs:
  assumes P: "paths_ok P" and inv: "sm_inv n s" and di: "dirs_inv P s" and e: "find_session sid (sdb s) = Some session"
    and cl: "close_file_delete_ephermeral sid session fh s = Inr (ret, session', s')"
  shows "dirs_inv P s' \<and> sm_inv n s' \<and> find_session sid (sdb s') = Some session'"
proof -
  have c: "sm_inv n s'" "sdb s' = put_session sid session' (sdb s)" "closed_upto session fh session'"
    using close_file_inv [OF inv e cl] by auto
  have v: "set (entry_v session') \<subseteq> P" using di e c(3) by (auto simp: dirs_inv_def handles_in_def closed_upto_def)
  obtain inum where inum: "handle_inum fh session = Inr inum"
    using cl by (auto simp: close_file_delete_ephermeral_def result_simps)
  have "dirs_ok P (ds s')"
  proof (cases "inum = -1")
    case True
    then show ?thesis using cl inum di by (auto simp: close_file_delete_ephermeral_def dirs_inv_def)
  next
    case False
    then obtain s1 key where k: "fh_to_key fh s1 = Inr key" "close_handle fh session = Inr s1"
      and dr: "drop_subscriber (entry_id s1) key (set_session sid s1 s) = Inr (ret, s')"
      using cl inum by (auto simp: close_file_delete_ephermeral_def result_simps)
    have "fh_to_key fh session = Inr key" using k close_handle_frame [OF k(2)] by (simp add: fh_to_key_def)
    then have key: "key \<in> P" using handles_in_key [OF _ e] di by (auto simp: dirs_inv_def)
    obtain m c where "ds (set_session sid s1 s) key = Some (m, c)" using dr by (auto simp: drop_subscriber_def result_simps)
    from drop_subscriber_dirs [OF P _ key dr this] show ?thesis using di by (simp add: dirs_inv_def)
  qed
  then show ?thesis using c handles_in_put [OF _ v] di by (simp add: dirs_inv_def find_put_session)
qed

lemma release_lock_dirs:
  assumes di: "dirs_inv P s" and rl: "release_lock sid fh s = Inr (rc, s')"
  shows "dirs_inv P s'"
proof (cases "s' = s")
  case False
  then obtain key m c m' where k: "ds s key = Some (m, c)" "s' = set_file key (m', c) s"
      "file_exists m' = file_exists m" "is_directory m' = is_directory m"
    using rl by (auto simp: release_lock_def meta_release_def result_simps split: option.splits if_splits)
  then have "key \<in> parent_path ` P \<Longrightarrow> is_directory m'" using di by (auto simp: dirs_inv_def dirs_ok_def)
  then show ?thesis using di dirs_ok_update [of P "ds s" key m c m' c] k by (simp add: dirs_inv_def)
qed (use di in simp)

lemma end_session_loop_dirs:
  assumes "paths_ok P" and "sm_inv n s" and "dirs_inv P s" and "find_session sid (sdb s) = Some session"
    and "end_session_loop sid is session parents sz s = Inr (parents', sz', s')"
  shows "dirs_inv P s'"
  using assms(2-5)
proof (induction "is" arbitrary: session parents sz s)
  case (Cons i "is")
  obtain ret session1 s1 rc s2 parents1 sz1 where
      cl: "close_file_delete_ephermeral sid session (of_nat i) s = Inr (ret, session1, s1)"
    and rl: "release_lock sid (of_nat i) s1 = Inr (rc, s2)"
    and lp: "end_session_loop sid is session1 parents1 sz1 s2 = Inr (parents', sz', s')"
    using Cons.prems(4) by (auto simp: result_simps Let_def)
  from close_file_dirs [OF assms(1) Cons.prems(1-3) cl] have c: "dirs_inv P s1" "sm_inv n s1"
    "find_session sid (sdb s1) = Some session1" by simp_all
  from release_lock_inv [OF c(2) rl] have r: "sm_inv n s2" "sdb s2 = sdb s1" by auto
  show ?case using Cons.IH [OF r(1) release_lock_dirs [OF c(1) rl] _ lp] c(3) r(2) by simp
qed simp

lemma open_dirs:
  assumes P: "paths_ok P" and inv: "sm_inv n s" and di: "dirs_inv P s" and p: "p \<in> P" "p \<in> parent_path ` P \<Longrightarrow> bool_of_int d"
    and ap: "apply_open x p d e s = Inr (r, s')"
  shows "dirs_inv P s'"
proof (cases "find_session (int_of_int64 x) (sdb s)")
  case None
  then show ?thesis using ap di by (simp add: apply_open_def)
next
  case (Some session)
  then obtain s1 s2 where s1: "open_file p d e s = Inr s1" and s2: "open_parent p s1 = Inr s2"
    and s3: "open_handle (int_of_int64 x) session p s2 = Inr (r, s')"
    using ap by (auto simp: apply_open_def Let_def result_simps)
  have np: "parent_path p \<noteq> p" "\<not> is_root_path p"
    using P p(1) parent_path_all_slash [of p] by (auto simp: paths_ok_def is_root_path_def)
  have ok: "dirs_ok P (ds s)" using di by (simp add: dirs_inv_def)
  have par: "ds s q \<noteq> None \<Longrightarrow> ds s (parent_path q) \<noteq> None" for q using sm_inv_parent [OF inv] by fastforce
  define c where "c = (case content_of s p of Some c \<Rightarrow> c | None \<Rightarrow> [])"
  from open_file_effect [OF s1] obtain m where sdb1: "sdb s1 = sdb s" and fr: "\<forall>q. q \<noteq> p \<longrightarrow> ds s1 q = ds s q"
    and m: "ds s1 p = Some (m, c)" "file_exists m = exists_file s p"
      "is_directory m = (if exists_file s p then is_directory (fst (the (ds s p))) else bool_of_int d)"
    unfolding c_def by blast
  have ds1: "ds s1 = (ds s)(p \<mapsto> (m, c))" using fr m(1) by auto
  have dir: "p \<in> parent_path ` P \<Longrightarrow> is_directory m"
    using m(3) p(2) ok by (auto simp: dirs_ok_def exists_file_def split: option.splits)
  have ok1: "dirs_ok P (ds s1)"
  proof (cases "ds s p")
    case None
    then show ?thesis using dirs_ok_new [OF ok None, of m] m(2) dir par
      by (simp add: ds1 c_def content_of_def exists_file_def)
  next
    case (Some f)
    then obtain m0 where "ds s p = Some (m0, c)" by (cases f) (simp add: c_def content_of_def)
    then show ?thesis using dirs_ok_update [OF ok, of p m0 c m c] m(2) dir by (simp add: ds1 exists_file_def)
  qed
  from open_parent_effect [OF s2 m(1) np(1)] obtain pm pc where pm: "ds s1 (parent_path p) = Some (pm, pc)" "is_directory pm"
    and s2': "s2 = (if \<not> file_exists m then set_file (parent_path p) (pm, add_child pc (filename p)) s1 else s1)"
    using np(2) by auto
  obtain fh session' where add: "add_new_handle p (instance_num m) session = (fh, session')" by fastforce
  have m2: "ds s2 p = Some (m, c)" using m(1) np(1) s2' by auto
  obtain m' where s': "s' = set_session (int_of_int64 x) session' (set_file p (m', c) s2)"
    and m': "file_exists m'" "is_directory m' = is_directory m"
    using s3 m2 add by (auto simp: open_handle_def Let_def)
  have "dirs_ok P (ds s')"
  proof (cases "file_exists m")
    case True
    then show ?thesis using dirs_ok_update [OF ok1 m(1), of m' c] m' dir by (simp add: s' s2')
  next
    case False
    then show ?thesis using dirs_ok_create [OF P ok1 p(1) m(1) False pm(1) m'] by (simp add: s' s2')
  qed
  moreover have "set (entry_v session) \<subseteq> P" using di Some by (simp add: dirs_inv_def handles_in_def)
  then have "set (entry_v session') \<subseteq> P" using add p(1) by (auto simp: add_new_handle_def Let_def)
  ultimately show ?thesis
    using di sdb1 by (auto simp: dirs_inv_def s' s2' intro: handles_in_put)
qed

lemma close_dirs:
  assumes P: "paths_ok P" and inv: "sm_inv n s" and di: "dirs_inv P s" and ap: "apply_close x fh s = Inr (r, s')"
  shows "dirs_inv P s'"
proof (cases "find_session (int_of_int64 x) (sdb s)")
  case None
  then show ?thesis using ap di by (simp add: apply_close_def)
next
  case (Some session)
  then obtain p session' s1 rc where
      "close_file_delete_ephermeral (int_of_int64 x) session fh s = Inr (Some p, session', s1)"
      "release_lock (int_of_int64 x) fh s1 = Inr (rc, s')"
    using ap by (auto simp: apply_close_def Let_def result_simps split: option.splits)
  then show ?thesis using close_file_dirs [OF P inv di Some] release_lock_dirs by blast
qed

lemma end_session_dirs:
  assumes P: "paths_ok P" and inv: "sm_inv n s" and n: "n < 2 ^ 31" and di: "dirs_inv P s"
    and ap: "apply_end_session x s = Inr (r, s')"
  shows "dirs_inv P s'"
proof (cases "find_session (int_of_int64 x) (sdb s)")
  case None
  then show ?thesis using ap di by (simp add: apply_end_session_def)
next
  case (Some session)
  show ?thesis
  proof (rule end_session_state [OF inv n Some ap])
    fix parents sz s1 e1
    assume lp: "end_session_loop (int_of_int64 x) [0..<length (entry_v session)] session [] 18 s = Inr (parents, sz, s1)"
      and del: "delete_session (int_of_int64 x) (sdb s1) = Inr (sdb s')" and s': "s' = s1\<lparr>sdb := sdb s'\<rparr>"
    have "dirs_inv P s1" using end_session_loop_dirs [OF P inv di Some lp] .
    moreover have "ds s' = ds s1" by (subst s') simp
    ultimately show ?thesis
      using db.find_del [OF del] by (auto simp: dirs_inv_def handles_in_def split: if_splits)
  qed
qed

lemma start_session_dirs:
  assumes di: "dirs_inv P s" and ap: "apply_start_session s = Inr (r, s')"
  shows "dirs_inv P s'"
proof -
  obtain e d where cr: "create_session (sdb s) = (e, d)" by fastforce
  then have "entry_v e = []" by (auto simp: create_session_def new_entry_def Let_def)
  moreover have "s' = s\<lparr>sdb := d\<rparr>" using ap cr by (simp add: apply_start_session_def)
  moreover have "find_session j d = (if j = next_id (sdb s) then Some e else find_session j (sdb s))" for j
    using find_create_session [OF cr] by blast
  ultimately show ?thesis using di by (simp add: dirs_inv_def handles_in_def)
qed

lemma set_content_dirs:
  assumes di: "dirs_inv P s" and td: "tidy_action P (SetContentAction x fh z) s"
    and ap: "apply_set_content x fh z s = Inr (r, s')"
  shows "dirs_inv P s'"
proof (cases "s' = s")
  case False
  then obtain e p m c where e: "find_session (int_of_int64 x) (sdb s) = Some e" "fh_to_key fh e = Inr p"
      "ds s p = Some (m, c)" "s' = set_file p (m, z) s"
    using ap by (auto simp: apply_set_content_def Let_def result_simps split: option.splits if_splits)
  then have "\<not> is_directory m" using td by (simp add: session_of_def)
  then have "p \<notin> parent_path ` P" using di e(3) by (auto simp: dirs_inv_def dirs_ok_def)
  then show ?thesis using di e dirs_ok_update [of P "ds s" p m c m z] by (simp add: dirs_inv_def)
qed (use di in simp)

lemma acq_dirs:
  assumes di: "dirs_inv P s" and ap: "apply_acq x fh ex s = Inr (r, s')"
  shows "dirs_inv P s'"
proof (cases "s' = s")
  case False
  then obtain p m c sid m' where m: "ds s p = Some (m, c)"
      "meta_acquire (bool_of_int ex) sid m = Inr (True, m')" "s' = set_file p (m', c) s"
    using ap by (auto simp: apply_acq_def Let_def result_simps split: option.splits if_splits)
  have m': "file_exists m' = file_exists m" "is_directory m' = is_directory m"
    using m(2) by (auto simp: meta_acquire_def result_simps Let_def split: if_splits)
  have "p \<in> parent_path ` P \<Longrightarrow> is_directory m" using di m(1) by (auto simp: dirs_inv_def dirs_ok_def)
  then show ?thesis using di m m' dirs_ok_update [of P "ds s" p m c m' c] by (simp add: dirs_inv_def)
qed (use di in simp)

lemma rel_dirs: "dirs_inv P s \<Longrightarrow> apply_rel x fh s = Inr (r, s') \<Longrightarrow> dirs_inv P s'"
  using release_lock_dirs by (fastforce simp: apply_rel_def result_simps split: if_splits)

lemma delete_dirs:
  assumes P: "paths_ok P" and di: "dirs_inv P s" and ap: "apply_delete x fh s = Inr (r, s')"
  shows "dirs_inv P s'"
proof (cases "find_session (int_of_int64 x) (sdb s)")
  case None
  then show ?thesis using ap di by (simp add: apply_delete_def)
next
  case (Some e)
  obtain p m c where p: "fh_to_key fh e = Inr p" and m: "ds s p = Some (m, c)" and empty: "is_directory m \<Longrightarrow> c = []"
    using ap Some by (auto simp: apply_delete_def Let_def result_simps)
  have pP: "p \<in> P" using handles_in_key [OF _ Some p] di by (simp add: dirs_inv_def)
  then have np: "parent_path p \<noteq> p" using P by (simp add: paths_ok_def)
  have re: "resolves s x fh p" using Some p by (simp add: resolves_def)
  have ok: "dirs_ok P (ds s)" using di by (simp add: dirs_inv_def)
  have D: "p \<in> parent_path ` P \<Longrightarrow> [] = c" using ok m empty by (auto simp: dirs_ok_def)
  have md: "\<not> file_exists (meta_delete m)" "is_directory (meta_delete m) = is_directory m"
    by (simp_all add: meta_delete_def)
  show ?thesis
  proof (rule delete_effect [OF ap re m np])
    fix pm pc
    let ?pc = "case remove_child pc (filename p) of Some pc' \<Rightarrow> pc' | None \<Rightarrow> pc"
    assume pm: "ds s (parent_path p) = Some (pm, pc)" and s': "ds s' p = Some (meta_delete m, [])"
      "ds s' (parent_path p) = Some (pm, ?pc)" "\<forall>q. q \<noteq> p \<and> q \<noteq> parent_path p \<longrightarrow> ds s' q = ds s q"
      and se: "\<forall>j. find_session j (sdb s') =
        (if j \<in> lock_owners m then map_option (\<lambda>e. snd (entry_enqueue_event fh e)) (find_session j (sdb s))
         else find_session j (sdb s))"
    have "ds s' = (ds s)(parent_path p \<mapsto> (pm, ?pc), p \<mapsto> (meta_delete m, []))" using s' by (auto simp: fun_eq_iff)
    then have "dirs_ok P (ds s')" using dirs_ok_remove [OF P ok pP m pm md D] by simp
    moreover have "handles_in P (enqueue_owners (lock_owners m) fh (sdb s))"
      using handles_in_same [OF _ same_handles_enqueue_owners] di by (simp add: dirs_inv_def)
    then have "handles_in P (sdb s')" using se by (simp add: handles_in_def find_enqueue_owners)
    ultimately show ?thesis by (simp add: dirs_inv_def)
  qed
qed

lemma apply_action_dirs:
  assumes P: "paths_ok P" and inv: "sm_inv n s" and n: "n < 2 ^ 31" and di: "dirs_inv P s"
    and td: "tidy_action P a s" and ap: "apply_action a s = Inr (r, s')"
  shows "dirs_inv P s'"
proof (cases a)
  case (OpenAction x p d e)
  then show ?thesis using ap td open_dirs [OF P inv di, of p d x e] by simp
next
  case (SetContentAction x fh z)
  then show ?thesis using ap td set_content_dirs [OF di] by (simp del: tidy_action.simps)
qed (use ap close_dirs [OF P inv di] start_session_dirs [OF di] end_session_dirs [OF P inv n di] acq_dirs [OF di]
      rel_dirs [OF di] delete_dirs [OF P di] in simp_all)

section \<open>Along a log\<close>

text \<open>Every action of the log is tidy in the state it is applied to.\<close>

fun tidy :: "string set \<Rightarrow> action list \<Rightarrow> sm_state \<Rightarrow> bool" where
  "tidy P [] s = True"
| "tidy P (a # as) s = (tidy_action P a s \<and>
     (case apply_action a s of Inl _ \<Rightarrow> True | Inr (_, s') \<Rightarrow> tidy P as s'))"

lemma run_log_dirs:
  assumes "paths_ok P" and "sm_inv n s" and "n + length as < 2 ^ 31" and "dirs_inv P s" and "tidy P as s"
    and "run_log as s = Inr (rs, s')"
  shows "dirs_inv P s'"
  using assms(2-)
proof (induction as arbitrary: n s rs)
  case (Cons a as)
  obtain r s1 rs1 where 1: "apply_action a s = Inr (r, s1)" "run_log as s1 = Inr (rs1, s')"
    using Cons.prems(5) by (auto simp: result_simps)
  have "dirs_inv P s1" using apply_action_dirs [OF assms(1) Cons.prems(1) _ Cons.prems(3) _ 1(1)] Cons.prems(2,4) by simp
  moreover have "sm_inv (Suc n) s1" using apply_action_inv [OF Cons.prems(1) _ 1(1)] Cons.prems(2) by simp
  ultimately show ?case using Cons.IH [OF _ _ _ _ 1(2)] Cons.prems(2,4) 1(1) by simp
qed simp

lemma init_state_dirs:
  assumes "paths_ok P"
  shows "dirs_inv P init_state"
proof -
  have "children P (ds init_state) d = {}" for d
    using assms parent_path_all_slash [of "''/''"]
    by (auto simp: children_def exists_in_def init_state_def paths_ok_def split: if_splits)
  then have "lists P (ds init_state) d []" for d by (simp add: lists_def)
  then show ?thesis
    by (auto simp: dirs_inv_def dirs_ok_def handles_in_def find_session_def init_state_def empty_db_def split: if_splits)
qed

lemma reaches_dirs:
  "reaches as s \<Longrightarrow> length as < 2 ^ 31 \<Longrightarrow> paths_ok P \<Longrightarrow> tidy P as init_state \<Longrightarrow> dirs_inv P s"
  unfolding reaches_def using run_log_dirs [OF _ init_state_inv _ init_state_dirs] by fastforce

lemma dirs_ok_listing:
  assumes "dirs_ok P (ds s)" and "d \<in> parent_path ` P" and "ds s d = Some (m, c)"
  shows "is_directory m \<and> (\<exists>names. c = listing names \<and> distinct names \<and>
    set names = filename ` {p \<in> P. parent_path p = d \<and> exists_file s p})"
  using assms unfolding dirs_ok_def lists_def children_def exists_in_def exists_file_def by blast


text \<open>Three files are created, one in a subdirectory; one is deleted, one goes with its session.\<close>

definition tree_paths :: "string set" where
  "tree_paths = {''/f'', ''/d'', ''/d/f'', ''/tmp''}"

definition tree_log :: "action list" where
  "tree_log = [StartSessionAction, StartSessionAction, OpenAction 0 ''/f'' 0 0, OpenAction 0 ''/d'' 1 0,
     OpenAction 0 ''/d/f'' 0 0, OpenAction 1 ''/tmp'' 0 1, SetContentAction 0 2 ''x'',
     DeleteAction 0 0, EndSessionAction 1]"


end
