(* ===== verification/Service.thy ===== *)
theory Service
  imports Directories
begin

text \<open>
  What the replicated state machine promises its clients, as an abstract service: which files are present, what they
  contain, who holds their locks, and which handles a session has and whether they still stand for the file they
  were opened on. There are no instance numbers, subscriptions, directories or events in it. The state machine refines it on
  logs without ephemeral opens: \<open>state_machine_refines_service\<close>.
\<close>

record svc =
  present :: "string \<Rightarrow> bool"
  data :: "string \<Rightarrow> string"
  locks :: "string \<Rightarrow> rw_state"
  handles :: "i32 \<Rightarrow> (string \<times> bool) list option"
  next_session :: i32

definition svc_handle :: "svc \<Rightarrow> i64 \<Rightarrow> i32 \<Rightarrow> (string \<times> bool) option" where
  "svc_handle v x fh =
     (case handles v (int_of_int64 x) of
        None \<Rightarrow> None
      | Some hs \<Rightarrow> if in_range hs fh then Some (hs ! nat (sint fh)) else None)"

text \<open>The operations, with the code of the reply. A close is refused: it succeeds on ephemeral files only.\<close>

fun svc_step :: "action \<Rightarrow> svc \<Rightarrow> i32 \<times> svc" where
  "svc_step (OpenAction x p d e) v =
     (case handles v (int_of_int64 x) of
        None \<Rightarrow> (-1, v)
      | Some hs \<Rightarrow> (0, v\<lparr>present := (present v)(p := True), handles := (handles v)(int_of_int64 x \<mapsto> hs @ [(p, True)])\<rparr>))"
| "svc_step (CloseAction x fh) v = (-1, v)"
| "svc_step StartSessionAction v =
     (0, v\<lparr>handles := (handles v)(next_session v \<mapsto> []), next_session := next_session v + 1\<rparr>)"
| "svc_step (EndSessionAction x) v =
     (case handles v (int_of_int64 x) of
        None \<Rightarrow> (-1, v)
      | Some hs \<Rightarrow>
          (0, v\<lparr>locks := (\<lambda>p. if p \<in> fst ` set hs \<and> present v p then snd (rw_release (int_of_int64 x) (locks v p))
                        else locks v p),
              handles := (handles v)(int_of_int64 x := None)\<rparr>))"
| "svc_step (AcqAction x fh ex) v =
     (case svc_handle v x fh of
        None \<Rightarrow> (-1, v)
      | Some (p, _) \<Rightarrow>
          (let (granted, l) = rw_acquire (bool_of_int ex) (int_of_int64 x) (locks v p)
           in (if granted then 0 else 1, v\<lparr>locks := (locks v)(p := l)\<rparr>)))"
| "svc_step (RelAction x fh) v =
     (case svc_handle v x fh of
        None \<Rightarrow> (-1, v)
      | Some (p, _) \<Rightarrow>
          if \<not> present v p then (-2, v)
          else (let (held, l) = rw_release (int_of_int64 x) (locks v p)
                in (if held then 0 else -1, v\<lparr>locks := (locks v)(p := l)\<rparr>)))"
| "svc_step (SetContentAction x fh c) v =
     (case svc_handle v x fh of
        None \<Rightarrow> (-1, v)
      | Some (p, current) \<Rightarrow>
          if current \<and> present v p then (0, v\<lparr>data := (data v)(p := c)\<rparr>) else (-1, v))"
| "svc_step (DeleteAction x fh) v =
     (case svc_handle v x fh of
        None \<Rightarrow> (-1, v)
      | Some (p, _) \<Rightarrow>
          (0, v\<lparr>present := (present v)(p := False), data := (data v)(p := []), locks := (locks v)(p := Free),
              handles := (\<lambda>sid. map_option (map (\<lambda>(q, current). (q, current \<and> q \<noteq> p))) (handles v sid))\<rparr>))"

fun svc_run :: "action list \<Rightarrow> svc \<Rightarrow> i32 list \<times> svc" where
  "svc_run [] v = ([], v)"
| "svc_run (a # as) v = (let (k, v1) = svc_step a v; (ks, v2) = svc_run as v1 in (k # ks, v2))"

definition svc_init :: svc where
  "svc_init = \<lparr>present = (\<lambda>p. p = ''/''), data = (\<lambda>_. []), locks = (\<lambda>_. Free), handles = Map.empty, next_session = 0\<rparr>"

section \<open>The abstraction\<close>

definition data_of :: "sm_state \<Rightarrow> string \<Rightarrow> string" where
  "data_of s p = (case ds s p of Some (_, c) \<Rightarrow> c | None \<Rightarrow> [])"

definition lock_of :: "sm_state \<Rightarrow> string \<Rightarrow> rw_state" where
  "lock_of s p = (case ds s p of Some (m, _) \<Rightarrow> abs_lock m | None \<Rightarrow> Free)"

definition instance_of :: "sm_state \<Rightarrow> string \<Rightarrow> i32 option" where
  "instance_of s p = (case ds s p of Some (m, _) \<Rightarrow> Some (instance_num m) | None \<Rightarrow> None)"

definition entry_handles :: "(string \<Rightarrow> i32 option) \<Rightarrow> entry \<Rightarrow> (string \<times> bool) list" where
  "entry_handles g e = map (\<lambda>(p, k). (p, g p = Some k)) (zip (entry_v e) (entry_inum e))"

definition handles_of :: "(string \<Rightarrow> i32 option) \<Rightarrow> db \<Rightarrow> i32 \<Rightarrow> (string \<times> bool) list option" where
  "handles_of g d sid = map_option (entry_handles g) (find_session sid d)"

text \<open>The state a service is in, given what it has for the contents of directories.\<close>

definition svc_of :: "(string \<Rightarrow> string) \<Rightarrow> sm_state \<Rightarrow> svc" where
  "svc_of f s = \<lparr>present = exists_file s, data = f, locks = lock_of s, handles = handles_of (instance_of s) (sdb s),
     next_session = next_id (sdb s)\<rparr>"

text \<open>What holds besides: nothing is ephemeral, handles are on paths of \<open>P\<close> and not from the future.\<close>

definition plain :: "string set \<Rightarrow> sm_state \<Rightarrow> bool" where
  "plain P s \<longleftrightarrow> (\<forall>p m c. ds s p = Some (m, c) \<longrightarrow> is_ephemeral m \<noteq> Some True) \<and> handles_in P (sdb s) \<and>
     (\<forall>sid e p k j. find_session sid (sdb s) = Some e \<longrightarrow> (p, k) \<in> set (zip (entry_v e) (entry_inum e)) \<longrightarrow>
        instance_of s p = Some j \<longrightarrow> sint k \<le> sint j)"

definition simulates :: "string set \<Rightarrow> svc \<Rightarrow> sm_state \<Rightarrow> bool" where
  "simulates P v s \<longleftrightarrow> plain P s \<and> (\<exists>f. v = svc_of f s \<and> (\<forall>p. p \<notin> parent_path ` P \<longrightarrow> f p = data_of s p))"

lemma svc_of_simps [simp]:
  "present (svc_of f s) = exists_file s" "data (svc_of f s) = f" "locks (svc_of f s) = lock_of s"
  "handles (svc_of f s) = handles_of (instance_of s) (sdb s)" "next_session (svc_of f s) = next_id (sdb s)"
  by (simp_all add: svc_of_def)

lemma svc_eqI:
  "present v = present w \<Longrightarrow> data v = data w \<Longrightarrow> locks v = locks w \<Longrightarrow> handles v = handles w \<Longrightarrow>
   next_session v = next_session w \<Longrightarrow> v = (w :: svc)"
  by simp

lemma set_file_views [simp]:
  "exists_file (set_file q (m, c) s) = (exists_file s)(q := file_exists m)"
  "data_of (set_file q (m, c) s) = (data_of s)(q := c)"
  "lock_of (set_file q (m, c) s) = (lock_of s)(q := abs_lock m)"
  "instance_of (set_file q (m, c) s) = (instance_of s)(q \<mapsto> instance_num m)"
  by (auto simp: exists_file_def data_of_def lock_of_def instance_of_def fun_eq_iff)

lemma file_views:
  "ds s p = Some (m, c) \<Longrightarrow> exists_file s p = file_exists m" "ds s p = Some (m, c) \<Longrightarrow> data_of s p = c"
  "ds s p = Some (m, c) \<Longrightarrow> lock_of s p = abs_lock m" "ds s p = Some (m, c) \<Longrightarrow> instance_of s p = Some (instance_num m)"
  by (auto simp: exists_file_def data_of_def lock_of_def instance_of_def)

lemma view_cong:
  assumes "ds s' = ds s"
  shows "exists_file s' = exists_file s" "data_of s' = data_of s" "lock_of s' = lock_of s" "instance_of s' = instance_of s"
  using assms by (simp_all add: exists_file_def data_of_def lock_of_def instance_of_def fun_eq_iff)

lemma handles_of_put:
  "handles_of g (put_session sid e d) = (handles_of g d)(sid \<mapsto> entry_handles g e)"
  by (auto simp: handles_of_def find_put_session fun_eq_iff)

text \<open>How a handle of the code is seen.\<close>

lemma svc_handle_of:
  assumes e: "find_session (int_of_int64 x) (sdb s) = Some e" and ok: "entry_ok n (int_of_int64 x) e"
    and p: "fh_to_key fh e = Inr p"
  shows "\<exists>k. handle_inum fh e = Inr k \<and> svc_handle (svc_of f s) x fh = Some (p, instance_of s p = Some k)"
proof -
  have r: "in_range (entry_v e) fh" using p by (auto simp: fh_to_key_def vec_at_Inr_iff)
  then have i: "nat (sint fh) < length (entry_v e)" by (simp add: in_range_def)
  have len: "length (entry_inum e) = length (entry_v e)" using ok by (simp add: entry_ok_def)
  then have h: "length (entry_handles (instance_of s) e) = length (entry_v e)" by (simp add: entry_handles_def)
  then have "in_range (entry_handles (instance_of s) e) fh" using r by (simp add: in_range_def)
  moreover have "entry_v e ! nat (sint fh) = p" using p by (auto simp: fh_to_key_def vec_at_Inr_iff)
  moreover have "handle_inum fh e = Inr (entry_inum e ! nat (sint fh))"
    using r len by (simp add: handle_inum_def vec_at_Inr_iff in_range_def)
  ultimately show ?thesis using e i len
    by (simp add: svc_handle_def handles_of_def entry_handles_def)
qed

lemma svc_no_session: "find_session (int_of_int64 x) (sdb s) = None \<Longrightarrow> handles_of g (sdb s) (int_of_int64 x) = None"
  by (simp add: handles_of_def)

section \<open>Every action\<close>

lemma plain_set_file:
  assumes pl: "plain P s" and p: "ds s p = Some (m0, c0)" and "is_ephemeral m \<noteq> Some True"
    and le: "sint (instance_num m0) \<le> sint (instance_num m)"
  shows "plain P (set_file p (m, c) s)"
  unfolding plain_def
proof (intro conjI allI impI)
  fix sid e q k j
  assume e: "find_session sid (sdb (set_file p (m, c) s)) = Some e" "(q, k) \<in> set (zip (entry_v e) (entry_inum e))"
    and j: "instance_of (set_file p (m, c) s) q = Some j"
  show "sint k \<le> sint j"
  proof (cases "q = p")
    case True
    then have "sint k \<le> sint (instance_num m0)" using pl e file_views(4) [OF p] by (auto simp: plain_def)
    then show ?thesis using True j le by simp
  next
    case False
    then show ?thesis using pl e j by (auto simp: plain_def)
  qed
qed (use pl assms(3) in \<open>auto simp: plain_def split: if_splits\<close>)

lemma plain_keep:
  assumes pl: "plain P s" and p: "ds s p = Some (m0, c0)" and m: "is_ephemeral m = is_ephemeral m0" "instance_num m = instance_num m0"
  shows "plain P (set_file p (m, c) s)"
proof -
  have "is_ephemeral m0 \<noteq> Some True" using pl p unfolding plain_def by blast
  then show ?thesis using plain_set_file [OF pl p] m by simp
qed

lemma svc_of_set_file:
  assumes "ds s p = Some (m0, c0)" and "file_exists m = file_exists m0" and "instance_num m = instance_num m0"
  shows "svc_of f (set_file p (m, c) s) = (svc_of f s)\<lparr>locks := (lock_of s)(p := abs_lock m)\<rparr>"
  using file_views [OF assms(1)] assms(2,3)
  by (intro svc_eqI) (simp_all add: fun_upd_idem)

lemma meta_acquire_frame:
  "meta_acquire ex sid m = Inr (b, m') \<Longrightarrow> file_exists m' = file_exists m \<and> instance_num m' = instance_num m \<and>
   is_ephemeral m' = is_ephemeral m"
  by (auto simp: meta_acquire_def result_simps Let_def split: if_splits)

lemma acq_refines:
  assumes inv: "sm_inv n s" and pl: "plain P s" and ap: "apply_acq x fh ex s = Inr (r, s')"
  shows "svc_step (AcqAction x fh ex) (svc_of f s) = (ret_res r, svc_of f s') \<and> plain P s'"
proof (cases "find_session (int_of_int64 x) (sdb s)")
  case None
  then show ?thesis using ap pl by (auto simp: apply_acq_def svc_handle_def svc_no_session)
next
  case (Some e)
  obtain p m c b m' where p: "fh_to_key fh e = Inr p" and m: "ds s p = Some (m, c)"
    and acq: "meta_acquire (bool_of_int ex) (entry_id e) m = Inr (b, m')"
    and r: "ret_res r = (if b then 0 else 1)" and s': "s' = (if b then set_file p (m', c) s else s)"
    using ap Some by (auto simp: apply_acq_def Let_def result_simps split: if_splits)
  have ok: "entry_ok n (int_of_int64 x) e" using sm_inv_entry [OF inv Some] .
  then have id: "entry_id e = int_of_int64 x" by (simp add: entry_ok_def)
  obtain k where h: "svc_handle (svc_of f s) x fh = Some (p, instance_of s p = Some k)"
    using svc_handle_of [OF Some ok p] by blast
  have wf: "lock_wf m" using sm_inv_meta [OF inv m] by (simp add: meta_ok_def)
  have l: "rw_acquire (bool_of_int ex) (int_of_int64 x) (lock_of s p) = (b, abs_lock m')"
    using abs_lock_acquire [OF wf acq] id file_views(3) [OF m] by simp
  have same: "\<not> b \<Longrightarrow> abs_lock m' = lock_of s p"
    using l by (cases "(bool_of_int ex, int_of_int64 x, lock_of s p)" rule: rw_acquire.cases) auto
  note fr = meta_acquire_frame [OF acq]
  have "svc_step (AcqAction x fh ex) (svc_of f s) = (ret_res r, svc_of f s')"
  proof (cases b)
    case True
    then show ?thesis using h l r s' svc_of_set_file [OF m, of m'] fr by simp
  next
    case False
    then have "(svc_of f s)\<lparr>locks := (lock_of s)(p := abs_lock m')\<rparr> = svc_of f s"
      using same by (intro svc_eqI) (simp_all add: fun_upd_idem)
    then show ?thesis using h l r s' False by simp
  qed
  moreover have "plain P s'"
    using plain_keep [OF pl m, of m' c] fr pl s' by simp
  ultimately show ?thesis by simp
qed

lemma rel_refines:
  assumes inv: "sm_inv n s" and pl: "plain P s" and ap: "apply_rel x fh s = Inr (r, s')"
  shows "svc_step (RelAction x fh) (svc_of f s) = (ret_res r, svc_of f s') \<and> plain P s'"
proof (cases "find_session (int_of_int64 x) (sdb s)")
  case None
  then show ?thesis using ap pl by (auto simp: apply_rel_def release_lock_def svc_handle_def svc_no_session)
next
  case (Some e)
  obtain p m c where p: "fh_to_key fh e = Inr p" and m: "ds s p = Some (m, c)"
    using ap Some by (auto simp: apply_rel_def release_lock_def result_simps)
  obtain held m' where rel: "meta_release (int_of_int64 x) m = (held, m')" by fastforce
  have fr: "file_exists m' = file_exists m" "instance_num m' = instance_num m" "is_ephemeral m' = is_ephemeral m"
    using rel by (auto simp: meta_release_def)
  have ok: "entry_ok n (int_of_int64 x) e" using sm_inv_entry [OF inv Some] .
  obtain k where h: "svc_handle (svc_of f s) x fh = Some (p, instance_of s p = Some k)"
    using svc_handle_of [OF Some ok p] by blast
  have wf: "lock_wf m" using sm_inv_meta [OF inv m] by (simp add: meta_ok_def)
  have l: "rw_release (int_of_int64 x) (lock_of s p) = (held, abs_lock m')"
    using abs_lock_release [OF wf rel] file_views(3) [OF m] by simp
  show ?thesis
  proof (cases "file_exists m")
    case True
    then have r: "ret_res r = (if held then 0 else -1)" and s': "s' = set_file p (m', c) s"
      using ap Some p m rel by (auto simp: apply_rel_def release_lock_def split: if_splits)
    have "plain P s'" using plain_keep [OF pl m, of m' c] fr pl s' by simp
    then show ?thesis using h l r s' True file_views(1) [OF m] svc_of_set_file [OF m fr(1,2)] by simp
  next
    case False
    then have "ret_res r = -2 \<and> s' = s"
      using ap Some p m by (auto simp: apply_rel_def release_lock_def split: if_splits)
    then show ?thesis using h False file_views(1) [OF m] pl by simp
  qed
qed

lemma set_content_refines:
  assumes inv: "sm_inv n s" and pl: "plain P s" and ap: "apply_set_content x fh z s = Inr (r, s')"
    and f: "\<forall>p. p \<notin> D \<longrightarrow> f p = data_of s p"
  shows "\<exists>f'. svc_step (SetContentAction x fh z) (svc_of f s) = (ret_res r, svc_of f' s') \<and>
    (\<forall>p. p \<notin> D \<longrightarrow> f' p = data_of s' p) \<and> plain P s'"
proof (cases "find_session (int_of_int64 x) (sdb s)")
  case None
  then show ?thesis using ap pl f
    by (intro exI [of _ f]) (auto simp: apply_set_content_def svc_handle_def svc_no_session)
next
  case (Some e)
  obtain p m c where p: "fh_to_key fh e = Inr p" and m: "ds s p = Some (m, c)"
    using ap Some by (auto simp: apply_set_content_def Let_def result_simps)
  have ok: "entry_ok n (int_of_int64 x) e" using sm_inv_entry [OF inv Some] .
  obtain k where k: "handle_inum fh e = Inr k" and h: "svc_handle (svc_of f s) x fh = Some (p, instance_of s p = Some k)"
    using svc_handle_of [OF Some ok p] by blast
  have se: "session_of s x = Some e" using Some by (simp add: session_of_def)
  note eff = set_content_effect [OF se p m k, of z]
  show ?thesis
  proof (cases "k = instance_num m \<and> file_exists m")
    case True
    then have r: "ret_res r = 0" and s': "s' = set_file p (m, z) s" using eff ap by auto
    have "(svc_of f s)\<lparr>data := f(p := z)\<rparr> = svc_of (f(p := z)) s'"
      using svc_of_set_file [OF m, of m "f(p := z)" z] file_views(3) [OF m] s'
      by (intro svc_eqI) (simp_all add: fun_upd_idem)
    moreover have "plain P s'" using plain_keep [OF pl m, of m z] s' by simp
    ultimately show ?thesis using h r f s' True file_views [OF m]
      by (intro exI [of _ "f(p := z)"]) simp
  next
    case False
    then have "ret_res r = -1 \<and> s' = s" using eff ap by (auto split: if_splits)
    then show ?thesis using h False f pl file_views [OF m] by (intro exI [of _ f]) auto
  qed
qed

lemma start_refines:
  assumes inv: "sm_inv n s" and pl: "plain P s" and ap: "apply_start_session s = Inr (r, s')"
  shows "svc_step StartSessionAction (svc_of f s) = (ret_res r, svc_of f s') \<and> plain P s'"
proof -
  obtain e d where cr: "create_session (sdb s) = (e, d)" by fastforce
  then have e: "entry_v e = []" "next_id d = next_id (sdb s) + 1" by (auto simp: create_session_def new_entry_def Let_def)
  have r: "ret_res r = 0" and s': "s' = s\<lparr>sdb := d\<rparr>" using ap cr by (auto simp: apply_start_session_def)
  have find: "find_session j d = (if j = next_id (sdb s) then Some e else find_session j (sdb s))" for j
    using find_create_session [OF cr] by blast
  have v: "exists_file s' = exists_file s" "lock_of s' = lock_of s" "instance_of s' = instance_of s"
    by (rule view_cong, simp add: s')+
  have "svc_of f s' = (svc_of f s)\<lparr>handles := (handles_of (instance_of s) (sdb s))(next_id (sdb s) \<mapsto> []),
      next_session := next_id (sdb s) + 1\<rparr>"
    unfolding svc_of_def v using e find by (auto simp: s' handles_of_def entry_handles_def fun_eq_iff)
  moreover have "plain P s'" using pl find e v(3) by (auto simp: plain_def s' handles_in_def split: if_splits)
  ultimately show ?thesis using r by simp
qed

text \<open>The state after an open, in full.\<close>

lemma open_shape:
  assumes ap: "apply_open x p d e s = Inr (r, s')" and se: "find_session (int_of_int64 x) (sdb s) = Some session"
    and np: "parent_path p \<noteq> p"
  obtains fh session' m pm pc where "r = OpenReturn 0 ''OK'' fh" and "add_new_handle p (instance_num m) session = (fh, session')"
    and "sdb s' = put_session (int_of_int64 x) session' (sdb s)"
    and "\<exists>pc0. ds s (parent_path p) = Some (pm, pc0)"
    and "ds s' = (ds s)(parent_path p \<mapsto> (pm, pc), p \<mapsto> (m, data_of s p))"
    and "file_exists m" and "is_ephemeral m = Some (bool_of_int e)" and "abs_lock m = lock_of s p"
    and "instance_num m = (case instance_of s p of Some k \<Rightarrow> k | None \<Rightarrow> 0)"
proof -
  obtain s1 s2 where s1: "open_file p d e s = Inr s1" and s2: "open_parent p s1 = Inr s2"
    and s3: "open_handle (int_of_int64 x) session p s2 = Inr (r, s')"
    using ap se by (auto simp: apply_open_def Let_def result_simps)
  obtain m0 where m0: "ds s1 = (ds s)(p \<mapsto> (m0, data_of s p))" "sdb s1 = sdb s" "is_ephemeral m0 = Some (bool_of_int e)"
      "abs_lock m0 = lock_of s p" "instance_num m0 = (case instance_of s p of Some k \<Rightarrow> k | None \<Rightarrow> 0)"
  proof (cases "ds s p")
    case None
    then show thesis using s1 that
      by (auto simp: open_file_def Let_def new_file_meta_def data_of_def lock_of_def instance_of_def abs_lock_def)
  next
    case (Some f)
    obtain m1 c1 where "f = (m1, c1)" by (cases f)
    then show thesis using s1 Some that
      by (auto simp: open_file_def Let_def data_of_def lock_of_def instance_of_def abs_lock_def split: if_splits)
  qed
  have m1: "ds s1 p = Some (m0, data_of s p)" using m0 by simp
  from open_parent_effect [OF s2 m1 np] obtain pm pc0 where pm: "ds s1 (parent_path p) = Some (pm, pc0)"
    and s2': "s2 = (if \<not> is_root_path p \<and> \<not> file_exists m0
        then set_file (parent_path p) (pm, add_child pc0 (filename p)) s1 else s1)" by metis
  have m2: "ds s2 p = Some (m0, data_of s p)" "sdb s2 = sdb s" using s2' m1 np m0(2) by auto
  obtain fh session' where add: "add_new_handle p (instance_num m0) session = (fh, session')" by fastforce
  define m where "m = m0\<lparr>file_exists := True, subscribers := AList.update (entry_id session) fh (subscribers m0)\<rparr>"
  have r: "r = OpenReturn 0 ''OK'' fh" and s': "s' = set_session (int_of_int64 x) session' (set_file p (m, data_of s p) s2)"
    using s3 m2 add by (auto simp: open_handle_def Let_def m_def)
  have d: "\<exists>pc. ds s' = (ds s)(parent_path p \<mapsto> (pm, pc), p \<mapsto> (m, data_of s p))"
  proof (cases "\<not> is_root_path p \<and> \<not> file_exists m0")
    case True
    then show ?thesis using s' s2' m0(1) np
      by (intro exI [of _ "add_child pc0 (filename p)"]) (auto simp: fun_eq_iff)
  next
    case False
    then show ?thesis using s' s2' m0(1) np pm by (intro exI [of _ pc0]) (auto simp: fun_eq_iff)
  qed
  then obtain pc where "ds s' = (ds s)(parent_path p \<mapsto> (pm, pc), p \<mapsto> (m, data_of s p))" by blast
  moreover have "abs_lock m = abs_lock m0" by (simp add: m_def abs_lock_def cong: if_cong)
  moreover have "is_ephemeral m = is_ephemeral m0" "instance_num m = instance_num m0" "file_exists m" by (simp_all add: m_def)
  ultimately show thesis using that [of fh m session' pm pc] r add s' m2 pm m0 np by simp
qed

lemma open_refines:
  assumes inv: "sm_inv n s" and n: "n < 2 ^ 31 - 1" and pl: "plain P s" and ap: "apply_open x p d e s = Inr (r, s')"
    and p: "p \<in> P" "parent_path p \<noteq> p" "\<not> bool_of_int e" and f: "\<forall>p. p \<notin> parent_path ` P \<longrightarrow> f p = data_of s p"
  shows "svc_step (OpenAction x p d e) (svc_of f s) = (ret_res r, svc_of f s') \<and>
    (\<forall>p. p \<notin> parent_path ` P \<longrightarrow> f p = data_of s' p) \<and> plain P s'"
proof (cases "find_session (int_of_int64 x) (sdb s)")
  case None
  then show ?thesis using ap pl f by (auto simp: apply_open_def svc_no_session)
next
  case (Some session)
  from open_shape [OF ap Some p(2)] obtain fh session' m pm pc pc0 where
      r: "r = OpenReturn 0 ''OK'' fh" and add: "add_new_handle p (instance_num m) session = (fh, session')"
    and d: "sdb s' = put_session (int_of_int64 x) session' (sdb s)" and pm: "ds s (parent_path p) = Some (pm, pc0)"
    and s': "ds s' = (ds s)(parent_path p \<mapsto> (pm, pc), p \<mapsto> (m, data_of s p))"
    and m: "file_exists m" "is_ephemeral m = Some (bool_of_int e)" "abs_lock m = lock_of s p"
      "instance_num m = (case instance_of s p of Some k \<Rightarrow> k | None \<Rightarrow> 0)" by metis
  have ex: "exists_file s' = (exists_file s)(p := True)" and lk: "lock_of s' = lock_of s"
    and inst: "instance_of s' = (instance_of s)(p \<mapsto> instance_num m)"
    and dt: "q \<noteq> parent_path p \<Longrightarrow> data_of s' q = data_of s q" for q
    using s' pm m p(2) by (auto simp: exists_file_def lock_of_def instance_of_def data_of_def fun_eq_iff)
  have old: "entry_handles (instance_of s') e' = entry_handles (instance_of s) e'" if "find_session sid (sdb s) = Some e'" for sid e'
  proof -
    have "instance_of s' q = instance_of s q" if "(q, k) \<in> set (zip (entry_v e') (entry_inum e'))" for q k
    proof -
      have "ds s q \<noteq> None" using sm_inv_path [OF inv \<open>find_session sid (sdb s) = Some e'\<close>] set_zip_leftD that by metis
      then show ?thesis using inst m(4) by (auto simp: instance_of_def split: option.splits)
    qed
    then show ?thesis by (auto simp: entry_handles_def)
  qed
  have len: "length (entry_inum session) = length (entry_v session)" using sm_inv_entry [OF inv Some] by (simp add: entry_ok_def)
  have new: "zip (entry_v session') (entry_inum session') = zip (entry_v session) (entry_inum session) @ [(p, instance_num m)]"
    using add len by (auto simp: add_new_handle_def Let_def)
  then have "entry_handles (instance_of s') session' = entry_handles (instance_of s') session @ [(p, True)]"
    using inst by (simp add: entry_handles_def)
  then have "handles_of (instance_of s') (sdb s') =
      (handles_of (instance_of s) (sdb s))(int_of_int64 x \<mapsto> entry_handles (instance_of s) session @ [(p, True)])"
    using old Some unfolding d handles_of_put by (auto simp: handles_of_def fun_eq_iff intro!: map_option_cong)
  then have step: "svc_step (OpenAction x p d e) (svc_of f s) = (ret_res r, svc_of f s')"
    using Some r d by (auto simp: svc_of_def ex lk handles_of_def)
  have "plain P s'" unfolding plain_def
  proof (intro conjI allI impI)
    fix q m' c' assume q: "ds s' q = Some (m', c')"
    show "is_ephemeral m' \<noteq> Some True"
    proof (cases "q = p")
      case False
      then have "\<exists>c. ds s q = Some (m', c)" using q s' pm by (auto split: if_splits)
      then show ?thesis using pl unfolding plain_def by blast
    qed (use q s' m(2) p(3) in auto)
  next
    have "set (entry_v session) \<subseteq> P" using pl Some unfolding plain_def handles_in_def by blast
    then have "set (entry_v session') \<subseteq> P" using add p(1) by (auto simp: add_new_handle_def Let_def)
    then show "handles_in P (sdb s')" using pl handles_in_put unfolding d plain_def by blast
  next
    fix sid e' q k j
    assume e': "find_session sid (sdb s') = Some e'" "(q, k) \<in> set (zip (entry_v e') (entry_inum e'))"
      and j: "instance_of s' q = Some j"
    show "sint k \<le> sint j"
    proof (cases "sid = int_of_int64 x \<and> (q, k) = (p, instance_num m)")
      case True
      then show ?thesis using j inst by simp
    next
      case False
      then obtain e0 where e0: "find_session sid (sdb s) = Some e0" "(q, k) \<in> set (zip (entry_v e0) (entry_inum e0))"
        using e' new Some unfolding d find_put_session by (auto split: if_splits)
      then have "ds s q \<noteq> None" using sm_inv_path [OF inv] set_zip_leftD by metis
      then have "instance_of s q = Some j" using j inst m(4) by (auto simp: instance_of_def split: option.splits if_splits)
      then show ?thesis using pl e0 unfolding plain_def by blast
    qed
  qed
  moreover have "\<forall>q. q \<notin> parent_path ` P \<longrightarrow> f q = data_of s' q" using dt f p(1) by (metis image_eqI)
  ultimately show ?thesis using step by blast
qed

lemma next_id_same:
  assumes "apply_action a s = Inr (r, s')" and "a \<noteq> StartSessionAction"
  shows "next_id (sdb s') = next_id (sdb s)"
  using apply_action_next_id [OF assms(1)] assms(2) by simp

lemma delete_refines:
  assumes inv: "sm_inv n s" and n: "n < 2 ^ 31 - 1" and pl: "plain P s" and ap: "apply_delete x fh s = Inr (r, s')"
    and P: "\<forall>p \<in> P. parent_path p \<noteq> p" and f: "\<forall>p. p \<notin> parent_path ` P \<longrightarrow> f p = data_of s p"
  shows "\<exists>f'. svc_step (DeleteAction x fh) (svc_of f s) = (ret_res r, svc_of f' s') \<and>
    (\<forall>p. p \<notin> parent_path ` P \<longrightarrow> f' p = data_of s' p) \<and> plain P s'"
proof (cases "find_session (int_of_int64 x) (sdb s)")
  case None
  then show ?thesis using ap pl f
    by (intro exI [of _ f]) (auto simp: apply_delete_def svc_handle_def svc_no_session)
next
  case (Some e)
  obtain p m c where p: "fh_to_key fh e = Inr p" and m: "ds s p = Some (m, c)"
    using ap Some by (auto simp: apply_delete_def Let_def result_simps)
  have ok: "entry_ok n (int_of_int64 x) e" using sm_inv_entry [OF inv Some] .
  obtain k where h: "svc_handle (svc_of f s) x fh = Some (p, instance_of s p = Some k)"
    using svc_handle_of [OF Some ok p] by blast
  have hin: "handles_in P (sdb s)" using pl by (simp add: plain_def)
  have pP: "p \<in> P" using handles_in_key [OF hin Some p] .
  then have np: "parent_path p \<noteq> p" using P by blast
  have re: "resolves s x fh p" using Some p by (simp add: resolves_def)
  let ?k = "instance_num m"
  have up: "sint (instance_num (meta_delete m)) = sint ?k + 1"
    using sm_inv_meta [OF inv m] n sint_inc [of ?k] by (simp add: meta_ok_def meta_delete_def)
  show ?thesis
  proof (rule delete_effect [OF ap re m np])
    fix pm pc
    let ?pc = "case remove_child pc (filename p) of Some pc' \<Rightarrow> pc' | None \<Rightarrow> pc"
    assume r: "r = Response 0 []" and pm: "ds s (parent_path p) = Some (pm, pc)" and d: "ds s' p = Some (meta_delete m, [])"
      "ds s' (parent_path p) = Some (pm, ?pc)" "\<forall>q. q \<noteq> p \<and> q \<noteq> parent_path p \<longrightarrow> ds s' q = ds s q"
      and se: "\<forall>j. find_session j (sdb s') =
        (if j \<in> lock_owners m then map_option (\<lambda>e. snd (entry_enqueue_event fh e)) (find_session j (sdb s))
         else find_session j (sdb s))"
    have ds': "ds s' = (ds s)(parent_path p \<mapsto> (pm, ?pc), p \<mapsto> (meta_delete m, []))" using d by (auto simp: fun_eq_iff)
    have ex: "exists_file s' = (exists_file s)(p := False)" and lk: "lock_of s' = (lock_of s)(p := Free)"
      and inst: "instance_of s' = (instance_of s)(p \<mapsto> instance_num (meta_delete m))"
      and dt: "q \<noteq> parent_path p \<Longrightarrow> data_of s' q = ((data_of s)(p := [])) q" for q
      using ds' pm by (auto simp: exists_file_def lock_of_def instance_of_def data_of_def meta_delete_def abs_lock_def fun_eq_iff)
    have same: "same_handles (sdb s) (enqueue_owners (lock_owners m) fh (sdb s))" by (rule same_handles_enqueue_owners)
    have find': "find_session j (sdb s') = find_session j (enqueue_owners (lock_owners m) fh (sdb s))" for j
      using se by (simp add: find_enqueue_owners)
    have ent: "\<exists>e0. find_session j (sdb s) = Some e0 \<and> entry_v e' = entry_v e0 \<and> entry_inum e' = entry_inum e0"
      if "find_session j (sdb s') = Some e'" for j e'
      using same_handlesD [OF same_handles_sym [OF same]] that find' by metis
    have old: "sint i \<le> sint ?k" if "find_session j (sdb s) = Some e0" "(p, i) \<in> set (zip (entry_v e0) (entry_inum e0))" for j e0 i
      using pl that file_views(4) [OF m] unfolding plain_def by blast
    have "entry_handles (instance_of s') e' = map (\<lambda>(q, current). (q, current \<and> q \<noteq> p)) (entry_handles (instance_of s) e0)"
      if e0: "find_session j (sdb s) = Some e0" and e': "entry_v e' = entry_v e0" "entry_inum e' = entry_inum e0" for j e0 e'
    proof -
      have "i \<noteq> instance_num (meta_delete m)" if "(p, i) \<in> set (zip (entry_v e0) (entry_inum e0))" for i
        using old [OF e0 that] up by auto
      then have "(p, instance_num (meta_delete m)) \<notin> set (zip (entry_v e0) (entry_inum e0))" by blast
      then show ?thesis by (auto simp: entry_handles_def e' inst split: if_splits)
    qed
    then have "handles_of (instance_of s') (sdb s') =
        (\<lambda>sid. map_option (map (\<lambda>(q, current). (q, current \<and> q \<noteq> p))) (handles_of (instance_of s) (sdb s) sid))"
    proof (intro ext)
      fix j
      assume eh: "\<And>j e0 e'. find_session j (sdb s) = Some e0 \<Longrightarrow> entry_v e' = entry_v e0 \<Longrightarrow> entry_inum e' = entry_inum e0 \<Longrightarrow>
        entry_handles (instance_of s') e' = map (\<lambda>(q, current). (q, current \<and> q \<noteq> p)) (entry_handles (instance_of s) e0)"
      show "handles_of (instance_of s') (sdb s') j =
          map_option (map (\<lambda>(q, current). (q, current \<and> q \<noteq> p))) (handles_of (instance_of s) (sdb s) j)"
      proof (cases "find_session j (sdb s')")
        case None
        then have "find_session j (sdb s) = None" using se by (auto split: if_splits)
        then show ?thesis using None by (simp add: handles_of_def)
      next
        case (Some e')
        then show ?thesis using ent eh by (fastforce simp: handles_of_def)
      qed
    qed
    moreover have "next_id (sdb s') = next_id (sdb s)" using next_id_same [of "DeleteAction x fh"] ap by simp
    ultimately have "svc_step (DeleteAction x fh) (svc_of f s) = (ret_res r, svc_of (f(p := [])) s')"
      using h r by (simp add: svc_of_def ex lk)
    moreover have "\<forall>q. q \<notin> parent_path ` P \<longrightarrow> (f(p := [])) q = data_of s' q" using dt f pP by (metis fun_upd_apply image_eqI)
    moreover have "plain P s'" unfolding plain_def
    proof (intro conjI allI impI)
      fix q m' c' assume q: "ds s' q = Some (m', c')"
      then have "\<exists>m0 c0. ds s q = Some (m0, c0) \<and> is_ephemeral m' = is_ephemeral m0"
        using ds' pm m by (auto simp: meta_delete_def split: if_splits)
      then show "is_ephemeral m' \<noteq> Some True" using pl unfolding plain_def by metis
    next
      show "handles_in P (sdb s')" using hin ent unfolding handles_in_def by metis
    next
      fix sid e' q i j
      assume e': "find_session sid (sdb s') = Some e'" "(q, i) \<in> set (zip (entry_v e') (entry_inum e'))"
        and j: "instance_of s' q = Some j"
      obtain e0 where e0: "find_session sid (sdb s) = Some e0" "(q, i) \<in> set (zip (entry_v e0) (entry_inum e0))"
        using ent [OF e'(1)] e'(2) by auto
      show "sint i \<le> sint j"
      proof (cases "q = p")
        case True
        then show ?thesis using old e0 up j inst by fastforce
      next
        case False
        then show ?thesis using pl e0 j inst unfolding plain_def by auto
      qed
    qed
    ultimately show ?thesis by blast
  qed
qed

text \<open>The end of a session, where nothing is ephemeral: it releases locks and closes handles, and keeps the files.\<close>

definition lasting :: "sm_state \<Rightarrow> bool" where
  "lasting s \<longleftrightarrow> (\<forall>p m c. ds s p = Some (m, c) \<longrightarrow> is_ephemeral m \<noteq> Some True)"

definition same_views :: "sm_state \<Rightarrow> sm_state \<Rightarrow> bool" where
  "same_views s s' \<longleftrightarrow> exists_file s' = exists_file s \<and> data_of s' = data_of s \<and> instance_of s' = instance_of s"

lemma lasting_set_file: "lasting s \<Longrightarrow> is_ephemeral m \<noteq> Some True \<Longrightarrow> lasting (set_file p (m, c) s)"
  by (simp add: lasting_def)

lemma close_file_lasting:
  assumes la: "lasting s" and cl: "close_file_delete_ephermeral sid session fh s = Inr (ret, session', s')"
  shows "lasting s' \<and> same_views s s' \<and> lock_of s' = lock_of s"
proof -
  obtain inum where inum: "handle_inum fh session = Inr inum"
    using cl by (auto simp: close_file_delete_ephermeral_def result_simps)
  show ?thesis
  proof (cases "inum = -1")
    case True
    then show ?thesis using cl inum la by (auto simp: close_file_delete_ephermeral_def same_views_def)
  next
    case False
    then obtain s1 key where dr: "drop_subscriber (entry_id s1) key (set_session sid s1 s) = Inr (ret, s')"
      using cl inum by (auto simp: close_file_delete_ephermeral_def result_simps)
    obtain m c where m: "ds s key = Some (m, c)" using dr by (auto simp: drop_subscriber_def result_simps)
    define m1 where "m1 = m\<lparr>subscribers := AList.delete (entry_id s1) (subscribers m)\<rparr>"
    have m1: "file_exists m1 = file_exists m" "instance_num m1 = instance_num m" "abs_lock m1 = abs_lock m"
      "is_ephemeral m1 = is_ephemeral m" by (simp_all add: m1_def abs_lock_def cong: if_cong)
    have eph: "is_ephemeral m1 \<noteq> Some True" using la m m1(4) unfolding lasting_def by metis
    have v: "exists_file (set_session sid s1 s) = exists_file s" "data_of (set_session sid s1 s) = data_of s"
      "lock_of (set_session sid s1 s) = lock_of s" "instance_of (set_session sid s1 s) = instance_of s"
      by (rule view_cong, simp)+
    have la1: "lasting (set_session sid s1 s)" using la by (simp add: lasting_def)
    have ds1: "ds (set_session sid s1 s) key = Some (m, c)" using m by simp
    from dr ds1 m1_def show ?thesis
    proof (cases rule: drop_subscriber_cases)
      case unsubscribed
      then show ?thesis using v la1 by (simp add: same_views_def)
    next
      case kept
      have "exists_file s' = exists_file s" "data_of s' = data_of s" "lock_of s' = lock_of s" "instance_of s' = instance_of s"
        unfolding kept set_file_views v m1 using file_views [OF m] by (simp_all add: fun_upd_idem)
      then show ?thesis using lasting_set_file [OF la1 eph] kept by (simp add: same_views_def)
    qed (use eph in simp_all)
  qed
qed

lemma release_lock_lasting:
  assumes inv: "sm_inv n s" and la: "lasting s" and e: "find_session sid (sdb s) = Some e" and p: "fh_to_key fh e = Inr p"
    and rl: "release_lock sid fh s = Inr (rc, s')"
  shows "lasting s' \<and> same_views s s' \<and>
    lock_of s' = (if exists_file s p then (lock_of s)(p := snd (rw_release sid (lock_of s p))) else lock_of s)"
proof -
  obtain m c where m: "ds s p = Some (m, c)" using sm_inv_key [OF inv e p] by blast
  obtain held m' where rel: "meta_release sid m = (held, m')" by fastforce
  have fr: "file_exists m' = file_exists m" "instance_num m' = instance_num m" "is_ephemeral m' = is_ephemeral m"
    using rel by (auto simp: meta_release_def)
  have "lock_wf m" using sm_inv_meta [OF inv m] by (simp add: meta_ok_def)
  then have l: "snd (rw_release sid (lock_of s p)) = abs_lock m'" using abs_lock_release [OF _ rel] file_views(3) [OF m] by simp
  show ?thesis
  proof (cases "file_exists m")
    case True
    then have s': "s' = set_file p (m', c) s" using rl e p m rel by (simp add: release_lock_def)
    have "is_ephemeral m' \<noteq> Some True" using la m fr(3) unfolding lasting_def by metis
    then have "lasting s'" using lasting_set_file [OF la] s' by simp
    then show ?thesis using True l fr file_views [OF m] s' by (simp add: same_views_def fun_upd_idem)
  next
    case False
    then show ?thesis using rl e p m la file_views(1) [OF m] by (auto simp: release_lock_def same_views_def)
  qed
qed

lemma rw_release_twice: "snd (rw_release sid (snd (rw_release sid l))) = snd (rw_release sid l)"
  by (cases l) auto

lemma end_session_loop_lasting:
  assumes "sm_inv n s" and "find_session sid (sdb s) = Some session" and "lasting s"
    and "\<forall>i \<in> set is. i < length (entry_v session)" and "length (entry_v session) < 2 ^ 31"
    and "end_session_loop sid is session ps sz s = Inr (ps', sz', s')"
  shows "lasting s' \<and> same_views s s' \<and>
    lock_of s' = (\<lambda>p. if p \<in> (!) (entry_v session) ` set is \<and> exists_file s p then snd (rw_release sid (lock_of s p)) else lock_of s p)"
  using assms
proof (induction "is" arbitrary: session ps sz s)
  case Nil
  then show ?case by (simp add: same_views_def)
next
  case (Cons i "is")
  obtain ret session1 s1 rc s2 ps1 sz1 where
      cl: "close_file_delete_ephermeral sid session (of_nat i) s = Inr (ret, session1, s1)"
    and rl: "release_lock sid (of_nat i) s1 = Inr (rc, s2)"
    and lp: "end_session_loop sid is session1 ps1 sz1 s2 = Inr (ps', sz', s')"
    using Cons.prems(6) by (auto simp: result_simps Let_def)
  from close_file_inv [OF Cons.prems(1,2) cl] have c: "sm_inv n s1" "find_session sid (sdb s1) = Some session1"
    "entry_v session1 = entry_v session" by (auto simp: find_put_session closed_upto_def)
  note v1 = close_file_lasting [OF Cons.prems(3) cl]
  let ?p = "entry_v session ! i"
  have i: "i < length (entry_v session)" "i < 2 ^ 31" using Cons.prems(4,5) by auto
  then have key: "fh_to_key (of_nat i) session1 = Inr ?p"
    using c(3) in_range_of_nat [of i "entry_v session"] by (simp add: fh_to_key_def result_simps sint_of_nat32)
  have la1: "lasting s1" using v1 by simp
  note v2 = release_lock_lasting [OF c(1) la1 c(2) key rl]
  from release_lock_inv [OF c(1) rl] have r: "sm_inv n s2" "sdb s2 = sdb s1" by auto
  have la2: "lasting s2" using v2 by simp
  have "find_session sid (sdb s2) = Some session1" using c(2) r(2) by simp
  note v3 = Cons.IH [OF r(1) this la2 _ _ lp]
  have v3: "lasting s' \<and> same_views s2 s' \<and> lock_of s' = (\<lambda>p. if p \<in> (!) (entry_v session) ` set is \<and> exists_file s2 p
      then snd (rw_release sid (lock_of s2 p)) else lock_of s2 p)"
    using v3 Cons.prems(4,5) c(3) by simp
  have "lock_of s' q = (if q \<in> (!) (entry_v session) ` set (i # is) \<and> exists_file s q
      then snd (rw_release sid (lock_of s q)) else lock_of s q)" for q
    using v1 v2 v3 rw_release_twice [of sid "lock_of s q"] by (auto simp: same_views_def)
  then have l: "lock_of s' = (\<lambda>q. if q \<in> (!) (entry_v session) ` set (i # is) \<and> exists_file s q
      then snd (rw_release sid (lock_of s q)) else lock_of s q)" by (rule ext)
  have "same_views s s'" using v1 v2 v3 by (simp add: same_views_def)
  then show ?case using v3 l by blast
qed

lemma end_session_refines:
  assumes inv: "sm_inv n s" and n: "n < 2 ^ 31 - 1" and pl: "plain P s" and ap: "apply_end_session x s = Inr (r, s')"
    and f: "\<forall>p. p \<notin> D \<longrightarrow> f p = data_of s p"
  shows "svc_step (EndSessionAction x) (svc_of f s) = (ret_res r, svc_of f s') \<and>
    (\<forall>p. p \<notin> D \<longrightarrow> f p = data_of s' p) \<and> plain P s'"
proof (cases "find_session (int_of_int64 x) (sdb s)")
  case None
  then show ?thesis using ap pl f by (auto simp: apply_end_session_def svc_no_session)
next
  case (Some e)
  let ?sid = "int_of_int64 x"
  have n1: "n < 2 ^ 31" using n by simp
  have la: "lasting s" using pl by (simp add: plain_def lasting_def)
  have ok: "entry_ok n ?sid e" using sm_inv_entry [OF inv Some] .
  then have len: "length (entry_v e) < 2 ^ 31" "length (entry_inum e) = length (entry_v e)" using n by (auto simp: entry_ok_def)
  show ?thesis
  proof (rule end_session_state [OF inv n1 Some ap])
    fix parents sz s1 e1
    assume lp: "end_session_loop ?sid [0..<length (entry_v e)] e [] 18 s = Inr (parents, sz, s1)"
      and r: "r = EndSessionReturn sz parents" and del: "delete_session ?sid (sdb s1) = Inr (sdb s')"
      and s': "s' = s1\<lparr>sdb := sdb s'\<rparr>"
      and oth: "\<And>j. j \<noteq> ?sid \<Longrightarrow> find_session j (sdb s1) = find_session j (sdb s)"
    have "ds s' = ds s1" by (subst s') simp
    note v1 = view_cong [OF this]
    have "lasting s1 \<and> same_views s s1 \<and> lock_of s1 = (\<lambda>p. if p \<in> (!) (entry_v e) ` set [0..<length (entry_v e)] \<and> exists_file s p
        then snd (rw_release ?sid (lock_of s p)) else lock_of s p)"
      by (rule end_session_loop_lasting [OF inv Some la _ len(1) lp]) simp
    moreover have "(!) (entry_v e) ` set [0..<length (entry_v e)] = set (entry_v e)"
      by (simp add: nth_image)
    ultimately have v: "lasting s1" "exists_file s' = exists_file s" "data_of s' = data_of s" "instance_of s' = instance_of s"
        "lock_of s' = (\<lambda>p. if p \<in> set (entry_v e) \<and> exists_file s p then snd (rw_release ?sid (lock_of s p)) else lock_of s p)"
      unfolding v1 by (simp_all add: same_views_def)
    have find: "find_session j (sdb s') = (if j = ?sid then None else find_session j (sdb s))" for j
      using db.find_del [OF del] oth by simp
    have "handles_of (instance_of s') (sdb s') = (handles_of (instance_of s) (sdb s))(?sid := None)"
      unfolding v(4) using find by (simp add: handles_of_def fun_eq_iff)
    moreover have "next_id (sdb s') = next_id (sdb s)" using next_id_same [of "EndSessionAction x"] ap by simp
    moreover have "fst ` set (entry_handles (instance_of s) e) = set (entry_v e)"
    proof -
      have "map fst (entry_handles (instance_of s) e) = entry_v e"
        using len(2) by (simp add: entry_handles_def comp_def split_def)
      then show ?thesis by (metis set_map)
    qed
    ultimately have "svc_step (EndSessionAction x) (svc_of f s) = (ret_res r, svc_of f s')"
      using Some v r by (simp add: svc_of_def handles_of_def cong: if_cong)
    moreover have "plain P s'"
    proof -
      have "lasting s'" using v(1) \<open>ds s' = ds s1\<close> by (simp add: lasting_def)
      moreover have "handles_in P (sdb s')" using pl find by (auto simp: plain_def handles_in_def split: if_splits)
      moreover have "sint k \<le> sint j" if "find_session sid (sdb s') = Some e'" "(p, k) \<in> set (zip (entry_v e') (entry_inum e'))"
        "instance_of s' p = Some j" for sid e' p k j
        using that pl find v(4) unfolding plain_def by (auto split: if_splits)
      ultimately show ?thesis unfolding plain_def lasting_def by blast
    qed
    ultimately show ?thesis using f v(3) by simp
  qed
qed

text \<open>The remaining actions change no content, and a close removes nothing.\<close>

lemma start_data: "apply_start_session s = Inr (r, s') \<Longrightarrow> data_of s' = data_of s"
  by (rule view_cong) (auto simp: apply_start_session_def split: prod.splits)

lemma data_of_keep: "ds s p = Some (m0, c) \<Longrightarrow> data_of (set_file p (m, c) s) = data_of s"
  using file_views(2) by (simp add: fun_upd_idem)

lemma acq_data: "apply_acq x fh ex s = Inr (r, s') \<Longrightarrow> data_of s' = data_of s"
  by (auto simp: apply_acq_def Let_def result_simps data_of_keep simp del: set_file_views split: option.splits if_splits)

lemma rel_data: "apply_rel x fh s = Inr (r, s') \<Longrightarrow> data_of s' = data_of s"
  by (auto simp: apply_rel_def release_lock_def meta_release_def result_simps data_of_keep simp del: set_file_views
      split: option.splits if_splits)

lemma close_file_none:
  assumes la: "lasting s" and cl: "close_file_delete_ephermeral sid session fh s = Inr (ret, session', s')"
  shows "ret = None"
proof -
  obtain inum where inum: "handle_inum fh session = Inr inum"
    using cl by (auto simp: close_file_delete_ephermeral_def result_simps)
  show ?thesis
  proof (cases "inum = -1")
    case False
    then obtain s1 key where dr: "drop_subscriber (entry_id s1) key (set_session sid s1 s) = Inr (ret, s')"
      using cl inum by (auto simp: close_file_delete_ephermeral_def result_simps)
    obtain m c where m: "ds (set_session sid s1 s) key = Some (m, c)" using dr by (auto simp: drop_subscriber_def result_simps)
    then have "is_ephemeral m \<noteq> Some True" using la unfolding lasting_def by (metis set_session_simps(1))
    note eph = this
    from dr m refl show ?thesis by (cases rule: drop_subscriber_cases) (use eph in auto)
  qed (use cl inum in \<open>simp add: close_file_delete_ephermeral_def\<close>)
qed

text \<open>The paths of the log, none of them opened as ephemeral.\<close>

fun lasting_action :: "string set \<Rightarrow> action \<Rightarrow> bool" where
  "lasting_action P (OpenAction x p d e) = (p \<in> P \<and> \<not> bool_of_int e)"
| "lasting_action P _ = True"

lemma action_refines:
  assumes inv: "sm_inv n s" and n: "n < 2 ^ 31 - 1" and si: "simulates P v s" and ap: "apply_action a s = Inr (r, s')"
    and P: "\<forall>p \<in> P. parent_path p \<noteq> p" and la: "lasting_action P a"
  shows "\<exists>v'. svc_step a v = (ret_res r, v') \<and> simulates P v' s'"
proof -
  obtain f where pl: "plain P s" and v: "v = svc_of f s" and f: "\<forall>p. p \<notin> parent_path ` P \<longrightarrow> f p = data_of s p"
    using si by (auto simp: simulates_def)
  show ?thesis
  proof (cases a)
    case (OpenAction x p d e)
    then show ?thesis using open_refines [OF inv n pl, of x p d e r s' f] ap P la f
      unfolding simulates_def v by auto
  next
    case (CloseAction x fh)
    then have none: "find_session (int_of_int64 x) (sdb s) = None \<or> (\<exists>p session' s1 rc. find_session (int_of_int64 x) (sdb s) \<noteq> None \<and>
        close_file_delete_ephermeral (int_of_int64 x) (the (find_session (int_of_int64 x) (sdb s))) fh s = Inr (Some p, session', s1))"
      using ap by (auto simp: apply_close_def Let_def result_simps split: option.splits)
    have "lasting s" using pl by (simp add: plain_def lasting_def)
    then have "find_session (int_of_int64 x) (sdb s) = None" using none close_file_none by fastforce
    then show ?thesis using CloseAction ap pl f by (auto simp: apply_close_def simulates_def v)
  next
    case StartSessionAction
    then show ?thesis using start_refines [OF inv pl] ap f start_data [of s r s'] unfolding simulates_def v by fastforce
  next
    case (EndSessionAction x)
    then show ?thesis using end_session_refines [OF inv n pl _ f] ap unfolding simulates_def v by fastforce
  next
    case (AcqAction x fh ex)
    then show ?thesis using acq_refines [OF inv pl] ap f acq_data [of x fh ex s r s'] unfolding simulates_def v by fastforce
  next
    case (RelAction x fh)
    then show ?thesis using rel_refines [OF inv pl] ap f rel_data [of x fh s r s'] unfolding simulates_def v by fastforce
  next
    case (SetContentAction x fh c)
    then show ?thesis using set_content_refines [OF inv pl _ f] ap unfolding simulates_def v by fastforce
  next
    case (DeleteAction x fh)
    then show ?thesis using delete_refines [OF inv n pl _ P f] ap unfolding simulates_def v by fastforce
  qed
qed

lemma run_refines:
  assumes "sm_inv n s" and "n + length as < 2 ^ 31" and "simulates P v s" and "run_log as s = Inr (rs, s')"
    and P: "\<forall>p \<in> P. parent_path p \<noteq> p" and "list_all (lasting_action P) as"
  shows "\<exists>v'. svc_run as v = (map ret_res rs, v') \<and> simulates P v' s'"
  using assms(1-4,6)
proof (induction as arbitrary: n s v rs)
  case (Cons a as)
  obtain r s1 rs1 where 1: "apply_action a s = Inr (r, s1)" "run_log as s1 = Inr (rs1, s')" "rs = r # rs1"
    using Cons.prems(4) by (auto simp: result_simps)
  have n: "n < 2 ^ 31 - 1" using Cons.prems(2) by simp
  obtain v1 where v1: "svc_step a v = (ret_res r, v1)" "simulates P v1 s1"
    using action_refines [OF Cons.prems(1) n Cons.prems(3) 1(1) P] Cons.prems(5) by auto
  have inv1: "sm_inv (Suc n) s1" using apply_action_inv [OF Cons.prems(1) n 1(1)] .
  obtain v' where "svc_run as v1 = (map ret_res rs1, v')" "simulates P v' s'"
    using Cons.IH [OF inv1 _ v1(2) 1(2)] Cons.prems(2,5) by auto
  then show ?case using v1(1) 1(3) by simp
qed simp

lemma simulates_init: "simulates P svc_init init_state"
proof -
  have "svc_init = svc_of (\<lambda>_. []) init_state"
    by (intro svc_eqI) (auto simp: svc_init_def init_state_def exists_file_def lock_of_def handles_of_def find_session_def
        empty_db_def abs_lock_def new_file_meta_def fun_eq_iff)
  moreover have "plain P init_state"
    by (auto simp: plain_def init_state_def handles_in_def find_session_def empty_db_def new_file_meta_def split: if_splits)
  moreover have "data_of init_state p = []" for p by (simp add: data_of_def init_state_def)
  ultimately show ?thesis unfolding simulates_def by fastforce
qed

text \<open>
  C7: the replicated state machine implements the abstract service. After every log of which no open is
  ephemeral, the codes of all replies are those of the service on the same log, and its state is the service's: the
  files that exist, the contents of those that are not directories, the locks, and each session's handles with
  their paths, where carrying the file's instance number means that the file has not been deleted since.
\<close>

theorem state_machine_refines_service:
  assumes "run_log as init_state = Inr (rs, s)" and "length as < 2 ^ 31"
    and "\<forall>p \<in> P. parent_path p \<noteq> p" and "list_all (lasting_action P) as"
  shows "\<exists>v. svc_run as svc_init = (map ret_res rs, v) \<and> present v = exists_file s \<and> locks v = lock_of s \<and>
    (\<forall>p. p \<notin> parent_path ` P \<longrightarrow> data v p = data_of s p) \<and>
    (\<forall>sid. handles v sid = map_option
       (\<lambda>e. map (\<lambda>(p, k). (p, instance_of s p = Some k)) (zip (entry_v e) (entry_inum e))) (find_session sid (sdb s))) \<and>
    next_session v = next_id (sdb s)"
proof -
  obtain v where "svc_run as svc_init = (map ret_res rs, v)" "simulates P v s"
    using run_refines [OF init_state_inv _ simulates_init assms(1,3,4)] assms(2) by auto
  then show ?thesis
    by (intro exI [of _ v]) (auto simp: simulates_def handles_of_def entry_handles_def [abs_def])
qed

definition service_log :: "action list" where
  "service_log = two_sessions @ [AcqAction 0 0 1, AcqAction 1 0 0, SetContentAction 0 0 ''x'', DeleteAction 1 0,
     OpenAction 1 ''/f'' 0 0, SetContentAction 0 0 ''y'', SetContentAction 1 1 ''z'', RelAction 0 0]"

theorem state_machine_refines_service_witness:
  "\<exists>v. svc_run service_log svc_init = ([0, 0, 0, 0, 0, 1, 0, 0, 0, -1, 0, -1], v) \<and>
     data v ''/f'' = ''z'' \<and> handles v 0 = Some [(''/f'', False)] \<and> handles v 1 = Some [(''/f'', False), (''/f'', True)]"
proof -
  have "map_sum id (map ret_res \<circ> fst) (run_log service_log init_state) = Inr [0, 0, 0, 0, 0, 1, 0, 0, 0, -1, 0, -1]" by code_simp
  then obtain rs s where run: "run_log service_log init_state = Inr (rs, s)"
    and rs: "map ret_res rs = [0, 0, 0, 0, 0, 1, 0, 0, 0, -1, 0, -1]"
    by (cases "run_log service_log init_state") auto
  have s: "s = after_log service_log" using run by (simp add: after_log_def)
  have len: "length service_log < 2 ^ 31" by (simp add: service_log_def two_sessions_def)
  have par: "\<forall>p \<in> {''/f''}. parent_path p \<noteq> p" by code_simp
  have la: "list_all (lasting_action {''/f''}) service_log" by code_simp
  from state_machine_refines_service [OF run len par la] obtain v where v: "svc_run service_log svc_init = (map ret_res rs, v)"
      "\<forall>p. p \<notin> parent_path ` {''/f''} \<longrightarrow> data v p = data_of s p"
      "\<forall>sid. handles v sid = map_option
       (\<lambda>e. map (\<lambda>(p, k). (p, instance_of s p = Some k)) (zip (entry_v e) (entry_inum e))) (find_session sid (sdb s))"
    by (elim exE conjE)
  have "''/f'' \<notin> parent_path ` {''/f''}" "data_of (after_log service_log) ''/f'' = ''z''" by code_simp+
  moreover have "map_option (\<lambda>e. map (\<lambda>(p, k). (p, instance_of (after_log service_log) p = Some k)) (zip (entry_v e) (entry_inum e)))
      (find_session 0 (sdb (after_log service_log))) = Some [(''/f'', False)]" by code_simp
  moreover have "map_option (\<lambda>e. map (\<lambda>(p, k). (p, instance_of (after_log service_log) p = Some k)) (zip (entry_v e) (entry_inum e)))
      (find_session 1 (sdb (after_log service_log))) = Some [(''/f'', False), (''/f'', True)]" by code_simp
  ultimately show ?thesis using v rs s by (intro exI [of _ v]) simp
qed

end
