(* ===== verification/SM_Replies.thy ===== *)
theory SM_Replies
  imports SM_Properties
begin

text \<open>
  The replies of the state machine, by the action they answer: the struct each \<open>apply_\<close> overload
  serializes, which is the one the action's RPC handler reads, and the codes it can carry.
\<close>

fun reply_of_kind :: "action \<Rightarrow> sm_ret \<Rightarrow> bool" where
  "reply_of_kind (OpenAction _ _ _ _) (OpenReturn res msg fh) =
     (res = 0 \<and> msg = ''OK'' \<or> res = -1 \<and> msg = session_not_found_str \<and> fh = -1)"
| "reply_of_kind (CloseAction _ _) (CloseReturn res msg need_notify parent) =
     (res = 0 \<and> msg = ''OK'' \<and> need_notify = 1 \<or>
      res = -1 \<and> msg = session_not_found_str \<and> need_notify = 0 \<and> parent = [])"
| "reply_of_kind StartSessionAction (StartSessionReturn res msg sid) = (res = 0 \<and> msg = ''OK'')"
| "reply_of_kind (EndSessionAction _) (EndSessionReturn _ _) = True"
| "reply_of_kind (EndSessionAction _) (Response res msg) = (res = -1 \<and> msg = session_not_found_str)"
| "reply_of_kind (AcqAction _ _ _) (Response res msg) =
     (res = 0 \<or> res = 1 \<and> msg = ''fail to acquire'' \<or> res = -1 \<and> msg = session_not_found_str)"
| "reply_of_kind (RelAction _ _) (Response res msg) =
     (res = 0 \<or> res = -1 \<and> msg = ''the session does not hold this lock'' \<or> res = -2 \<and> msg = ''file not found'')"
| "reply_of_kind (SetContentAction _ _ _) (Response res msg) =
     (res = 0 \<or> res = -1 \<and> msg \<in> {session_not_found_str, ''Instance num mismatch'', ''File does not exist''})"
| "reply_of_kind (DeleteAction _ _) (Response res msg) = (res = 0 \<or> res = -1 \<and> msg = session_not_found_str)"
| "reply_of_kind _ _ = False"

lemma release_lock_failed: "release_lock sid fh s = Inr (rc, s') \<Longrightarrow> rc \<in> {0, -1, -2} \<and> (rc \<noteq> 0 \<longrightarrow> s' = s)"
  by (auto simp: release_lock_def meta_release_def result_simps set_file_def fun_upd_idem split: option.splits if_splits)

lemma release_reply: "apply_rel x fh s = Inr (r, s') \<Longrightarrow> reply_of_kind (RelAction x fh) r \<and> (ret_res r \<noteq> 0 \<longrightarrow> s' = s)"
  using release_lock_failed [of "int_of_int64 x" fh s]
  by (auto simp: apply_rel_def result_simps split: if_splits)

lemma close_reply:
  assumes "apply_close x fh s = Inr (r, s')"
  shows "reply_of_kind (CloseAction x fh) r \<and> (ret_res r = 0 \<or> s' = s)"
proof (cases "find_session (int_of_int64 x) (sdb s)")
  case None
  then show ?thesis using assms by (auto simp: apply_close_def int_of_bool_def)
next
  case (Some e)
  then obtain ret s2 where "(case ret of None \<Rightarrow> Inl Bad_optional_access
      | Some parent \<Rightarrow> Inr (CloseReturn 0 ''OK'' (int_of_bool True) parent, s2)) = Inr (r, s')"
    using assms by (auto simp: apply_close_def Let_def bindE_Inr_iff)
  then show ?thesis by (auto simp: int_of_bool_def split: option.splits)
qed

lemma replies:
  "apply_open x p d e s = Inr (r, s') \<Longrightarrow> reply_of_kind (OpenAction x p d e) r \<and> (ret_res r = 0 \<or> s' = s)"
  "apply_close x fh s = Inr (r, s') \<Longrightarrow> reply_of_kind (CloseAction x fh) r \<and> (ret_res r = 0 \<or> s' = s)"
  "apply_start_session s = Inr (r, s') \<Longrightarrow> reply_of_kind StartSessionAction r \<and> (ret_res r = 0 \<or> s' = s)"
  "apply_end_session x s = Inr (r, s') \<Longrightarrow> reply_of_kind (EndSessionAction x) r \<and> (ret_res r = 0 \<or> s' = s)"
  "apply_acq x fh ex s = Inr (r, s') \<Longrightarrow> reply_of_kind (AcqAction x fh ex) r \<and> (ret_res r = 0 \<or> s' = s)"
  "apply_rel x fh s = Inr (r, s') \<Longrightarrow> reply_of_kind (RelAction x fh) r \<and> (ret_res r = 0 \<or> s' = s)"
  "apply_set_content x fh c s = Inr (r, s') \<Longrightarrow> reply_of_kind (SetContentAction x fh c) r \<and> (ret_res r = 0 \<or> s' = s)"
  "apply_delete x fh s = Inr (r, s') \<Longrightarrow> reply_of_kind (DeleteAction x fh) r \<and> (ret_res r = 0 \<or> s' = s)"
         apply (auto simp: apply_open_def open_handle_def Let_def split_def result_simps split: option.splits) [1]
        apply (use close_reply [of x fh s r s'] in auto) [1]
       apply (auto simp: apply_start_session_def Let_def split_def) [1]
      apply (auto simp: apply_end_session_def Let_def result_simps split: option.splits) [1]
     apply (auto simp: apply_acq_def Let_def result_simps split: option.splits if_splits) [1]
    apply (use release_reply [of x fh s r s'] in auto) [1]
   apply (auto simp: apply_set_content_def Let_def result_simps split: option.splits if_splits) [1]
  apply (auto simp: apply_delete_def Let_def result_simps split: option.splits) [1]
  done

lemma reply_kind: "apply_action a s = Inr (r, s') \<Longrightarrow> reply_of_kind a r \<and> (ret_res r = 0 \<or> s' = s)"
  using replies by (cases a) auto

text \<open>
  C28: every reply has the type its handler reads, and a reply that reports a failure changes nothing. The
  reply to an action is of the struct its RPC handler deserializes, with one of the codes and messages listed
  for it; when the code is not zero, the state is exactly as before the action.
\<close>

theorem replies_have_their_type:
  assumes "apply_action a s = Inr (r, s')"
  shows "reply_of_kind a r \<and> (ret_res r = 0 \<or> s' = s)"
  using reply_kind [OF assms] .

theorem replies_have_their_type_witness:
  "reply_of_kind (AcqAction 1 0 0) (Response 1 ''fail to acquire'') \<and>
   (ret_res (Response 1 ''fail to acquire'') = 0 \<or> after_log locked_log = after_log locked_log)"
proof (rule replies_have_their_type)
  have "map_sum id fst (apply_action (AcqAction 1 0 0) (after_log locked_log)) = Inr (Response 1 ''fail to acquire'')"
    by code_simp
  then obtain s' where s': "apply_action (AcqAction 1 0 0) (after_log locked_log) = Inr (Response 1 ''fail to acquire'', s')"
    by (cases "apply_action (AcqAction 1 0 0) (after_log locked_log)") auto
  moreover have "s' = after_log locked_log"
    using s' by (auto simp: apply_acq_def Let_def result_simps split: option.splits if_splits)
  ultimately show "apply_action (AcqAction 1 0 0) (after_log locked_log) =
      Inr (Response 1 ''fail to acquire'', after_log locked_log)" by simp
qed

end
