(* ===== verification/Startup.thy ===== *)
theory Startup
  imports Server Client
begin

text \<open>
  How a server starts (\<open>main\<close>, \<open>init_raft\<close> and \<open>init_grpc\<close> in \<open>server.cpp\<close>): the addresses it uses,
  the requests it sends to have the other servers join the cluster, and the state it serves. The
  replication library's \<open>is_initialized\<close> and \<open>get_srv_config\<close> are parameters: the answers to successive
  questions, for the latter by server, whether it is part of the configuration. \<open>SRV_CONFIG\<close> is indexed without a test; an index
  outside is \<open>Out_of_range\<close> here.
\<close>

definition server_address :: "i32 \<Rightarrow> string result" where
  "server_address node_id =
     bindE (vec_at SRV_CONFIG node_id) (\<lambda>(host, port). Inr (''0.0.0.0:'' @ to_string (port + 1)))"

definition raft_endpoint :: "i32 \<Rightarrow> string result" where
  "raft_endpoint node_id =
     bindE (vec_at SRV_CONFIG node_id) (\<lambda>(host, port). Inr (host @ '':'' @ to_string port))"

definition DiagnosticImpl_GetLeader :: "raft_api \<Rightarrow> status \<times> i32" where
  "DiagnosticImpl_GetLeader R = (status_ok, get_leader R)"

text \<open>
  \<open>init_grpc\<close>: the address the server listens on, the limits of its messages, and the services it answers. Contents
  therefore have fewer than \<open>2 ^ 31\<close> bytes.
\<close>

datatype service = Skinny_service | SkinnyCb_service | Diagnostic_service

record grpc_server =
  listening_address :: string
  max_send_size :: i32
  max_receive_size :: i32
  services :: "service list"

definition INT_MAX :: i32 where
  "INT_MAX = 2147483647"

definition init_grpc :: "i32 \<Rightarrow> grpc_server result" where
  "init_grpc node_id =
     bindE (server_address node_id) (\<lambda>address.
     Inr \<lparr>listening_address = address, max_send_size = INT_MAX, max_receive_size = INT_MAX,
          services = [Skinny_service, SkinnyCb_service, Diagnostic_service]\<rparr>)"

text \<open>
  How \<open>init_raft\<close> starts the replication library: the server's number, address and port, and that
  \<open>append_entries\<close> blocks until the entry is committed, practically without a time limit (in milliseconds).
\<close>

record raft_setup =
  srv_id :: i32
  own_endpoint :: string
  raft_port :: i32
  blocking :: bool
  client_req_timeout :: i32

definition raft_setup_of :: "i32 \<Rightarrow> raft_setup result" where
  "raft_setup_of node_id =
     bindE (vec_at SRV_CONFIG node_id) (\<lambda>(host, port).
     Inr \<lparr>srv_id = node_id, own_endpoint = host @ '':'' @ to_string port, raft_port = port, blocking = True,
          client_req_timeout = INT_MAX\<rparr>)"

text \<open>The loop that waits for the library: the number of rounds, given its answers to \<open>is_initialized\<close>.\<close>

fun wait_initialized :: "bool list \<Rightarrow> nat option" where
  "wait_initialized [] = None"
| "wait_initialized (ready # answers) = (if \<not> ready then map_option Suc (wait_initialized answers) else Some 0)"

text \<open>
  The inner loop: \<open>add_srv\<close> is repeated until the server is found in the configuration. The result is the
  number of requests, \<open>None\<close> while it has not been found yet.
\<close>

fun add_srv_loop :: "bool list \<Rightarrow> nat option" where
  "add_srv_loop [] = None"
| "add_srv_loop (found # answers) = (if found then Some 1 else map_option Suc (add_srv_loop answers))"

fun join_loop :: "i32 list \<Rightarrow> i32 \<Rightarrow> (i32 \<Rightarrow> bool list) \<Rightarrow> (i32 \<times> string) list result option" where
  "join_loop [] node_id known = Some (Inr [])"
| "join_loop (i # is) node_id known =
     (if i = node_id then join_loop is node_id known
      else case raft_endpoint i of
        Inl k \<Rightarrow> Some (Inl k)
      | Inr fendpoint \<Rightarrow>
          (case (add_srv_loop (known i), join_loop is node_id known) of
             (Some n, Some rest) \<Rightarrow> Some (bindE rest (\<lambda>requests. Inr (replicate n (i, fendpoint) @ requests)))
           | _ \<Rightarrow> None))"

definition init_raft :: "i32 \<Rightarrow> bool list \<Rightarrow> (i32 \<Rightarrow> bool list) \<Rightarrow> (raft_setup \<times> (i32 \<times> string) list) result option" where
  "init_raft node_id ready known =
     (case raft_setup_of node_id of
        Inl k \<Rightarrow> Some (Inl k)
      | Inr launcher \<Rightarrow>
          (case wait_initialized ready of
             None \<Rightarrow> None
           | Some _ \<Rightarrow>
               map_option (\<lambda>r. bindE r (\<lambda>requests. Inr (launcher, requests)))
                 (join_loop (map of_nat [0..<length SRV_CONFIG]) node_id known)))"

text \<open>The constructor of the diagnostic client: the addresses of its stubs.\<close>

definition diagnostic_stubs :: "string list" where
  "diagnostic_stubs = map (\<lambda>(host, port). host @ '':'' @ to_string (port + 1)) SRV_CONFIG"

text \<open>\<open>atoi\<close> of the command line: 0 when there is no number.\<close>

definition atoi :: "string \<Rightarrow> i32" where
  "atoi x = (case stoi x of Some n \<Rightarrow> n | None \<Rightarrow> 0)"

definition main :: "string list \<Rightarrow> bool list \<Rightarrow> (i32 \<Rightarrow> bool list) \<Rightarrow>
    (raft_setup \<times> (i32 \<times> string) list \<times> grpc_server \<times> sm_state) result option" where
  "main argv ready known =
     (if length argv < 2 then Some (Inl Assert_failed)
      else
        (let node_id = atoi (argv ! 1) in
         case main_init of
           Inl k \<Rightarrow> Some (Inl k)
         | Inr s \<Rightarrow>
             map_option (\<lambda>r. bindE r (\<lambda>(launcher, requests).
                 bindE (init_grpc node_id) (\<lambda>server. Inr (launcher, requests, server, s))))
               (init_raft node_id ready known)))"

section \<open>Lemmas\<close>

lemma add_srv_loop_Some:
  "True \<in> set answers \<Longrightarrow> \<exists>n. add_srv_loop answers = Some n \<and> 1 \<le> n \<and> n \<le> length answers"
  by (induction answers) (auto split: if_splits)

lemma wait_initialized_Some: "True \<in> set answers \<Longrightarrow> wait_initialized answers \<noteq> None"
  by (induction answers) auto

lemma raft_endpoint_in_range:
  "i < length SRV_CONFIG \<Longrightarrow> raft_endpoint (of_nat i) = Inr (fst (SRV_CONFIG ! i) @ '':'' @ to_string (snd (SRV_CONFIG ! i)))"
  by (simp add: raft_endpoint_def vec_at_def sint_of_nat32 split_def)

definition requested :: "(i32 \<times> string) list result option \<Rightarrow> i32 set" where
  "requested r = (case r of Some (Inr requests) \<Rightarrow> fst ` set requests | _ \<Rightarrow> {})"

lemma join_loop_total:
  assumes "\<forall>i \<in> set is. i \<noteq> node_id \<longrightarrow> True \<in> set (known i)" and "\<forall>i \<in> set is. \<exists>p. raft_endpoint i = Inr p"
  shows "\<exists>requests. join_loop is node_id known = Some (Inr requests) \<and>
    fst ` set requests = set is - {node_id} \<and> (\<forall>(i, p) \<in> set requests. raft_endpoint i = Inr p)"
  using assms
proof (induction "is" node_id known rule: join_loop.induct)
  case (2 i "is" node_id known)
  show ?case
  proof (cases "i = node_id")
    case True
    then show ?thesis using 2 by auto
  next
    case False
    obtain p where p: "raft_endpoint i = Inr p" using 2(4) by auto
    obtain n where n: "add_srv_loop (known i) = Some n" "1 \<le> n" using add_srv_loop_Some 2(3) False by fastforce
    obtain requests where r: "join_loop is node_id known = Some (Inr requests)"
        "fst ` set requests = set is - {node_id}" "\<forall>(i, p) \<in> set requests. raft_endpoint i = Inr p"
      using 2(2) [OF False p] 2(3,4) by auto
    then show ?thesis using False p n by (auto simp: image_Un)
  qed
qed simp

text \<open>
  C38: a server starts when its peers can be added. If the library gets ready, and for every other server of the
  list the configuration eventually contains it, \<open>main\<close> gets past the loop that adds them: it has asked for exactly
  the other servers, and goes on to serve the store with the root directory. The replication library listens at the address
  the other servers add for this one, calls of its \<open>append_entries\<close> block, and the services are offered at the port
  that clients, the diagnostic client too, connect to for this server.
\<close>

theorem startup_terminates:
  assumes "i < length SRV_CONFIG" and "True \<in> set ready"
    and "\<forall>j < length SRV_CONFIG. j \<noteq> i \<longrightarrow> True \<in> set (known (of_nat j))"
    and "length argv \<ge> 2" and "argv ! 1 = to_string (of_nat i)"
  shows "\<exists>launcher requests server. main argv ready known = Some (Inr (launcher, requests, server, init_state)) \<and>
    fst ` set requests = of_nat ` {j. j < length SRV_CONFIG \<and> j \<noteq> i} \<and>
    raft_endpoint (of_nat i) = Inr (own_endpoint launcher) \<and> raft_port launcher = snd (SRV_CONFIG ! i) \<and> blocking launcher \<and>
    listening_address server = ''0.0.0.0:'' @ to_string (snd (SRV_CONFIG ! i) + 1) \<and>
    set (services server) = UNIV \<and>
    (\<forall>c c'. change_server (of_nat i) c = Inr c' \<longrightarrow>
       channel c' = fst (SRV_CONFIG ! i) @ '':'' @ to_string (snd (SRV_CONFIG ! i) + 1) \<and> diagnostic_stubs ! i = channel c')"
proof -
  let ?is = "map of_nat [0..<length SRV_CONFIG] :: i32 list"
  let ?launcher = "\<lparr>srv_id = of_nat i, own_endpoint = fst (SRV_CONFIG ! i) @ '':'' @ to_string (snd (SRV_CONFIG ! i)),
    raft_port = snd (SRV_CONFIG ! i), blocking = True, client_req_timeout = INT_MAX\<rparr>"
  let ?server = "\<lparr>listening_address = ''0.0.0.0:'' @ to_string (snd (SRV_CONFIG ! i) + 1), max_send_size = INT_MAX,
    max_receive_size = INT_MAX, services = [Skinny_service, SkinnyCb_service, Diagnostic_service]\<rparr>"
  have inj: "of_nat j = (of_nat i :: i32) \<longleftrightarrow> j = i" if "j < 5" for j
    using of_nat32_inj [of j i] that assms(1) by simp
  have "\<exists>requests. join_loop ?is (of_nat i) known = Some (Inr requests) \<and>
      fst ` set requests = set ?is - {of_nat i} \<and> (\<forall>(k, p) \<in> set requests. raft_endpoint k = Inr p)"
    by (rule join_loop_total) (use assms(3) inj raft_endpoint_in_range in fastforce)+
  moreover have "set ?is - {of_nat i} = of_nat ` {j. j < length SRV_CONFIG \<and> j \<noteq> i}" using inj by auto
  ultimately obtain requests where r: "join_loop ?is (of_nat i) known = Some (Inr requests)"
      "fst ` set requests = of_nat ` {j. j < length SRV_CONFIG \<and> j \<noteq> i}" by auto
  have a: "atoi (argv ! 1) = of_nat i" unfolding atoi_def assms(5) stoi_to_string by simp
  have s: "sint (of_nat i :: i32) = int i" using assms(1) by (intro sint_of_nat32) simp
  have "init_grpc (of_nat i) = Inr ?server" and "raft_setup_of (of_nat i) = Inr ?launcher"
    using assms(1) s by (simp_all add: init_grpc_def server_address_def raft_setup_of_def vec_at_def split_def)
  then have "main argv ready known = Some (Inr (?launcher, requests, ?server, init_state))"
    using assms(4) r(1) a wait_initialized_Some [OF assms(2)] by (auto simp: main_def main_init init_raft_def)
  moreover have "channel c' = fst (SRV_CONFIG ! i) @ '':'' @ to_string (snd (SRV_CONFIG ! i) + 1)"
    if "change_server (of_nat i) c = Inr c'" for c c'
    using that s assms(1) by (auto simp: change_server_def assertE_def Let_def split_def)
  moreover have "diagnostic_stubs ! i = fst (SRV_CONFIG ! i) @ '':'' @ to_string (snd (SRV_CONFIG ! i) + 1)"
    using assms(1) by (simp add: diagnostic_stubs_def split_def)
  moreover have "set (services ?server) = UNIV" using service.exhaust by auto
  ultimately show ?thesis using r(2) raft_endpoint_in_range [OF assms(1)]
    by (intro exI [of _ ?launcher] exI [of _ requests] exI [of _ ?server]) simp
qed

theorem startup_terminates_witness:
  "\<exists>launcher requests server. main [''server'', ''1''] [False, True] (\<lambda>_. [False, True]) =
      Some (Inr (launcher, requests, server, init_state)) \<and> listening_address server = ''0.0.0.0:12011'' \<and>
    fst ` set requests = of_nat ` {j. j < 5 \<and> j \<noteq> 1}"
proof -
  have t: "to_string (of_nat 1) = ''1''" "to_string (snd (SRV_CONFIG ! 1) + 1) = ''12011''"
    by (simp_all add: to_string_def SRV_CONFIG_def digits.simps char_of_def bit_0)
  have len: "1 < length SRV_CONFIG" by simp
  from startup_terminates [OF len, of "[False, True]" "\<lambda>_. [False, True]" "[''server'', ''1'']"] t(1)
  obtain launcher requests server where "main [''server'', ''1''] [False, True] (\<lambda>_. [False, True]) =
      Some (Inr (launcher, requests, server, init_state))"
    "fst ` set requests = of_nat ` {j. j < length SRV_CONFIG \<and> j \<noteq> 1}"
    "listening_address server = ''0.0.0.0:'' @ to_string (snd (SRV_CONFIG ! 1) + 1)" by auto
  then show ?thesis unfolding t(2) by auto
qed

end
