(* ===== verification/Client_Api.thy ===== *)
theory Client_Api
  imports Startup Coherence
begin

text \<open>
  The client library against the leader: the methods of \<open>SkinnyClient::impl\<close> as the request they send and
  what they do with the answer, the class \<open>SkinnyClient\<close> that forwards to them, the Python module
  (\<open>pyclientlib.cpp\<close>), and \<open>InvokeRpc\<close> as the attempts of one call at the leader, whose answers may be lost
  after the handler has run. Requests and responses are the messages of the service; gRPC itself is the
  call of the handler.
\<close>

section \<open>Requests and the handlers that serve them\<close>

datatype rpc =
    OpenReq i64 string bool bool
  | CloseReq i64 i32
  | GetContentReq i64 i32
  | SetContentReq i64 i32 string
  | StartSessionReq
  | EndSessionReq i64
  | TryAcquireReq i64 i32 bool
  | AcquireReq i64 i32 bool
  | ReleaseReq i64 i32
  | DeleteReq i64 i32

datatype rpc_res =
    Handle i32
  | Empty
  | Content string
  | SessionId i64
  | LockResponse "(i32 \<times> string) option"
  | DeleteResponse i32

definition map_handler :: "('a \<Rightarrow> 'b) \<Rightarrow> 'a handler \<Rightarrow> 'b handler" where
  "map_handler f h s = map_sum id (\<lambda>(p, s'). (map_proc f p, s')) (h s)"

fun serve :: "raft_api \<Rightarrow> buf_api \<Rightarrow> (i32 \<Rightarrow> i32) \<Rightarrow> rpc \<Rightarrow> (status \<times> rpc_res) handler" where
  "serve R B e0 (OpenReq sid path d e) = map_handler (map_prod id Handle) (Open R B sid path d e)"
| "serve R B e0 (CloseReq sid fh) = map_handler (map_prod id (\<lambda>_. Empty)) (Close R B sid fh)"
| "serve R B e0 (GetContentReq sid fh) = map_handler (map_prod id Content) (GetContent R sid fh)"
| "serve R B e0 (SetContentReq sid fh c) = map_handler (map_prod id (\<lambda>_. Empty)) (SetContent R B sid fh c)"
| "serve R B e0 StartSessionReq = map_handler (map_prod id SessionId) (StartSession R B e0)"
| "serve R B e0 (EndSessionReq sid) = map_handler (map_prod id (\<lambda>_. Empty)) (EndSession R B sid)"
| "serve R B e0 (TryAcquireReq sid fh ex) = map_handler (map_prod id LockResponse) (TryAcquire R B sid fh ex)"
| "serve R B e0 (AcquireReq sid fh ex) = map_handler (map_prod id LockResponse) (Acquire R B sid fh ex)"
| "serve R B e0 (ReleaseReq sid fh) = map_handler (map_prod id (\<lambda>_. Empty)) (Release R B sid fh)"
| "serve R B e0 (DeleteReq sid fh) = map_handler (map_prod id DeleteResponse) (Delete R B sid fh)"

section \<open>The methods of the client\<close>

text \<open>
  A method answers from the client's own state, or makes a call and goes on with the final answer. A field
  of a response that the handler did not set has its default.
\<close>

datatype 'a meth = Local 'a | Call rpc "status \<times> rpc_res \<Rightarrow> client \<Rightarrow> ('a \<times> client) result"

definition sid_of :: "client \<Rightarrow> i64" where
  "sid_of c = int64_of_int (client_session_id c)"

fun res_fh :: "rpc_res \<Rightarrow> i32" where
  "res_fh (Handle fh) = fh" | "res_fh _ = 0"

fun res_content :: "rpc_res \<Rightarrow> string" where
  "res_content (Content s) = s" | "res_content _ = []"

fun res_lock :: "rpc_res \<Rightarrow> (i32 \<times> string) option" where
  "res_lock (LockResponse r) = r" | "res_lock _ = None"

definition impl_Open :: "string \<Rightarrow> nat option \<Rightarrow> bool \<Rightarrow> bool \<Rightarrow> client \<Rightarrow> i32 meth" where
  "impl_Open path cb a_is_directory a_is_ephemeral c =
     Call (OpenReq (sid_of c) path a_is_directory a_is_ephemeral) (\<lambda>(st, res) c'. client_open (st, res_fh res) cb c')"

definition impl_Close :: "i32 \<Rightarrow> client \<Rightarrow> unit meth" where
  "impl_Close fh c = Call (CloseReq (sid_of c) fh) (\<lambda>_ c'. Inr ((), client_close fh c'))"

definition impl_GetContent :: "i32 \<Rightarrow> client \<Rightarrow> string meth" where
  "impl_GetContent fh c =
     (case cached_content fh c of
        Some content \<Rightarrow> Local content
      | None \<Rightarrow> Call (GetContentReq (sid_of c) fh) (\<lambda>(st, res) c'. client_get_content fh (st, res_content res) c'))"

definition done_or_die :: "status \<times> rpc_res \<Rightarrow> client \<Rightarrow> (unit \<times> client) result" where
  "done_or_die answer c = bindE (client_done (fst answer, ())) (\<lambda>_. Inr ((), c))"

definition impl_SetContent :: "i32 \<Rightarrow> string \<Rightarrow> client \<Rightarrow> unit meth" where
  "impl_SetContent fh content c = Call (SetContentReq (sid_of c) fh content) done_or_die"

definition acquired :: "status \<times> rpc_res \<Rightarrow> client \<Rightarrow> (bool \<times> client) result" where
  "acquired answer c = bindE (client_acquire (fst answer, res_lock (snd answer))) (\<lambda>b. Inr (b, c))"

definition impl_TryAcquire :: "i32 \<Rightarrow> bool \<Rightarrow> client \<Rightarrow> bool meth" where
  "impl_TryAcquire fh ex c = Call (TryAcquireReq (sid_of c) fh ex) acquired"

definition impl_Acquire :: "i32 \<Rightarrow> bool \<Rightarrow> client \<Rightarrow> bool meth" where
  "impl_Acquire fh ex c = Call (AcquireReq (sid_of c) fh ex) acquired"

definition impl_Release :: "i32 \<Rightarrow> client \<Rightarrow> unit meth" where
  "impl_Release fh c = Call (ReleaseReq (sid_of c) fh) done_or_die"

definition impl_Delete :: "i32 \<Rightarrow> client \<Rightarrow> unit meth" where
  "impl_Delete fh c = Call (DeleteReq (sid_of c) fh) done_or_die"

text \<open>
  The destructor ends the session if the client is connected, once and whatever the answer, and stops the keep-alive
  thread.
\<close>

definition impl_destroy :: "client \<Rightarrow> rpc option \<times> client" where
  "impl_destroy c = (if has_conn c then Some (EndSessionReq (sid_of c)) else None, c\<lparr>client_cancelled := True\<rparr>)"

section \<open>The class and the Python module\<close>

text \<open>The arguments of \<open>Open\<close> and \<open>OpenDir\<close> that a caller need not give (src/clientlib.h).\<close>

definition default_cb :: "nat option" where
  "default_cb = None"

definition default_is_ephemeral :: bool where
  "default_is_ephemeral = False"

definition SkinnyClient_Open :: "string \<Rightarrow> nat option \<Rightarrow> bool \<Rightarrow> client \<Rightarrow> i32 meth" where
  "SkinnyClient_Open path cb a_is_ephemeral = impl_Open path cb False a_is_ephemeral"

definition SkinnyClient_OpenDir :: "string \<Rightarrow> nat option \<Rightarrow> bool \<Rightarrow> client \<Rightarrow> i32 meth" where
  "SkinnyClient_OpenDir path cb a_is_ephemeral = impl_Open path cb True a_is_ephemeral"

definition SkinnyClient_GetContent :: "i32 \<Rightarrow> client \<Rightarrow> string meth" where
  "SkinnyClient_GetContent = impl_GetContent"

definition SkinnyClient_SetContent :: "i32 \<Rightarrow> string \<Rightarrow> client \<Rightarrow> unit meth" where
  "SkinnyClient_SetContent = impl_SetContent"

definition SkinnyClient_TryAcquire :: "i32 \<Rightarrow> bool \<Rightarrow> client \<Rightarrow> bool meth" where
  "SkinnyClient_TryAcquire = impl_TryAcquire"

definition SkinnyClient_Acquire :: "i32 \<Rightarrow> bool \<Rightarrow> client \<Rightarrow> bool meth" where
  "SkinnyClient_Acquire = impl_Acquire"

definition SkinnyClient_Release :: "i32 \<Rightarrow> client \<Rightarrow> unit meth" where
  "SkinnyClient_Release = impl_Release"

definition SkinnyClient_Close :: "i32 \<Rightarrow> client \<Rightarrow> unit meth" where
  "SkinnyClient_Close = impl_Close"

definition SkinnyClient_Delete :: "i32 \<Rightarrow> client \<Rightarrow> unit meth" where
  "SkinnyClient_Delete = impl_Delete"

text \<open>
  The Python module: a callback is wrapped so that it runs with the interpreter's lock (\<open>gil\<close>, the number
  of the wrapper of a callback), and contents become byte strings; the other methods are the class's own.
\<close>

definition py_Open :: "(nat \<Rightarrow> nat) \<Rightarrow> string \<Rightarrow> nat option \<Rightarrow> bool \<Rightarrow> client \<Rightarrow> i32 meth" where
  "py_Open gil path cb a_is_ephemeral =
     (case cb of
        Some f \<Rightarrow> SkinnyClient_Open path (Some (gil f)) a_is_ephemeral
      | None \<Rightarrow> SkinnyClient_Open path None a_is_ephemeral)"

definition py_OpenDir :: "(nat \<Rightarrow> nat) \<Rightarrow> string \<Rightarrow> nat option \<Rightarrow> bool \<Rightarrow> client \<Rightarrow> i32 meth" where
  "py_OpenDir gil path cb a_is_ephemeral =
     (case cb of
        Some f \<Rightarrow> SkinnyClient_OpenDir path (Some (gil f)) a_is_ephemeral
      | None \<Rightarrow> SkinnyClient_OpenDir path None a_is_ephemeral)"

definition py_bytes :: "string \<Rightarrow> byte list" where
  "py_bytes = map of_char"

definition py_GetContent :: "i32 \<Rightarrow> client \<Rightarrow> byte list meth" where
  "py_GetContent fh c =
     (case SkinnyClient_GetContent fh c of
        Local result \<Rightarrow> Local (py_bytes result)
      | Call req k \<Rightarrow> Call req (\<lambda>answer c'. map_sum id (map_prod py_bytes id) (k answer c')))"

definition py_Close :: "i32 \<Rightarrow> client \<Rightarrow> unit meth" where
  "py_Close = SkinnyClient_Close"

definition py_SetContent :: "i32 \<Rightarrow> string \<Rightarrow> client \<Rightarrow> unit meth" where
  "py_SetContent = SkinnyClient_SetContent"

definition py_TryAcquire :: "i32 \<Rightarrow> bool \<Rightarrow> client \<Rightarrow> bool meth" where
  "py_TryAcquire = SkinnyClient_TryAcquire"

definition py_Acquire :: "i32 \<Rightarrow> bool \<Rightarrow> client \<Rightarrow> bool meth" where
  "py_Acquire = SkinnyClient_Acquire"

definition py_Release :: "i32 \<Rightarrow> client \<Rightarrow> unit meth" where
  "py_Release = SkinnyClient_Release"

definition py_Delete :: "i32 \<Rightarrow> client \<Rightarrow> unit meth" where
  "py_Delete = SkinnyClient_Delete"

definition py_GetLeader :: "nat \<Rightarrow> (nat \<Rightarrow> (status \<times> i32)) list \<Rightarrow> i32 option" where
  "py_GetLeader = diagnostic_get_leader"

section \<open>Calls to the leader\<close>

text \<open>
  \<open>InvokeRpc\<close> with its attempts at one leader, in order: of each, whether its answer is lost, which the
  client sees as UNAVAILABLE, after the handler has run. The result is an exception or the final answer, and
  the leader's state; \<open>None\<close> when the handler waits or crashes the server, or the attempts given do not
  end the call.
\<close>

definition unavailable :: status where
  "unavailable = \<lparr>error_code = UNAVAILABLE, error_message = []\<rparr>"

fun invoke_at :: "buf_api \<Rightarrow> (i32 \<Rightarrow> i32) \<Rightarrow> bool list \<Rightarrow> rpc \<Rightarrow> sm_state \<Rightarrow>
    ((status \<times> rpc_res) result \<times> sm_state) option" where
  "invoke_at B e0 [] req s = None"
| "invoke_at B e0 (lost # attempts) req s =
     (case serve (leader_raft B) B e0 req s of
        Inr (Return (st, x), s1) \<Rightarrow>
          (case rpc_outcome (if lost then unavailable else st) of
             Throw \<Rightarrow> Some (Inl Terminated, s1)
           | Give st' \<Rightarrow> Some (Inr (st', x), s1)
           | Retry \<Rightarrow> invoke_at B e0 attempts req s1)
      | _ \<Rightarrow> None)"

text \<open>A method call of a connected client. (One that is not connected waits until it is.)\<close>

definition call_at :: "buf_api \<Rightarrow> (i32 \<Rightarrow> i32) \<Rightarrow> bool list \<Rightarrow> (client \<Rightarrow> 'a meth) \<Rightarrow> client \<Rightarrow> sm_state \<Rightarrow>
    (('a \<times> client) result \<times> sm_state) option" where
  "call_at B e0 attempts m c s =
     (case m c of
        Local a \<Rightarrow> Some (Inr (a, c), s)
      | Call req k \<Rightarrow>
          if has_conn c
          then map_option (\<lambda>(answer, s1). (bindE answer (\<lambda>a. k a c), s1)) (invoke_at B e0 attempts req s)
          else None)"

text \<open>The attempts of a call are those of \<open>InvokeRpc\<close> on the answers the client sees.\<close>

lemma rpc_outcome_lost [simp]: "rpc_outcome unavailable = Retry"
  by (simp add: unavailable_def rpc_outcome_def is_ok_def status_codes session_not_found_str_def)

fun answers_at :: "buf_api \<Rightarrow> (i32 \<Rightarrow> i32) \<Rightarrow> bool list \<Rightarrow> rpc \<Rightarrow> sm_state \<Rightarrow> (status \<times> rpc_res) list" where
  "answers_at B e0 [] req s = []"
| "answers_at B e0 (lost # attempts) req s =
     (case serve (leader_raft B) B e0 req s of
        Inr (Return (st, x), s1) \<Rightarrow> (if lost then unavailable else st, x) # answers_at B e0 attempts req s1
      | _ \<Rightarrow> [])"

lemma invoke_at_InvokeRpc:
  "invoke_at B e0 attempts req s = Some (r, s') \<Longrightarrow> InvokeRpc (answers_at B e0 attempts req s) = Some r"
  by (induction attempts arbitrary: s) (auto split: sum.splits prod.splits proc.splits rpc_outcome.splits if_splits)

section \<open>Electing a primary\<close>

lemma try_acquire_cases:
  assumes B: "buffer_api B" and inv: "sm_inv n s"
    and ta: "TryAcquire (leader_raft B) B x fh True s = Inr (Return (st, res), s1)"
  shows "sm_inv n s1" and "sdb s1 = sdb s"
    and "is_ok st \<Longrightarrow> \<exists>p k msg. key_of s (int_of_int64 x) fh = Some p \<and> res = Some (k, msg) \<and>
      (if k = 0 then lock_state s p = Some Free \<and> lock_state s1 = (lock_state s)(p \<mapsto> Exclusive (int_of_int64 x))
       else lock_state s1 = lock_state s)"
    and "\<not> is_ok st \<Longrightarrow> s1 = s"
proof -
  show "sm_inv n s1" "sdb s1 = sdb s" using lock_effect [OF B inv ta] by simp_all
  have "(is_ok st \<longrightarrow> (\<exists>p k msg. key_of s (int_of_int64 x) fh = Some p \<and> res = Some (k, msg) \<and>
      (if k = 0 then lock_state s p = Some Free \<and> lock_state s1 = (lock_state s)(p \<mapsto> Exclusive (int_of_int64 x))
       else lock_state s1 = lock_state s))) \<and> (\<not> is_ok st \<longrightarrow> s1 = s)"
  proof (cases "session_of s x")
    case None
    then show ?thesis using ta
      by (auto simp: TryAcquire_def session_of_def reply_def is_ok_def session_not_found_status_def status_codes)
  next
    case (Some e)
    then have e: "find_session (int_of_int64 x) (sdb s) = Some e" by (simp add: session_of_def)
    have "in_range (entry_v e) fh"
      using ta e fh_to_key_out [of e fh] by (cases "in_range (entry_v e) fh") (auto simp: TryAcquire_def)
    then obtain p m c where p: "fh_to_key fh e = Inr p" and m: "ds s p = Some (m, c)" using key_file [OF inv e] by blast
    obtain k where k: "handle_inum fh e = Inr k"
      using handle_inum_in_range [OF sm_inv_entry [OF inv e] \<open>in_range (entry_v e) fh\<close>] by blast
    have key: "key_of s (int_of_int64 x) fh = Some p" using e p by (simp add: key_of_def)
    have l: "lock_state s p = Some (abs_lock m)" using m by (simp add: lock_state_def)
    have re: "resolves s x fh p" using e p by (simp add: resolves_def)
    obtain granted l' where g: "rw_acquire True (int_of_int64 x) (abs_lock m) = (granted, l')" by fastforce
    then have g': "if granted then abs_lock m = Free \<and> l' = Exclusive (int_of_int64 x) else l' = abs_lock m"
      by (cases "abs_lock m") auto
    then have same: "\<not> granted \<Longrightarrow> (lock_state s)(p \<mapsto> l') = lock_state s" using l by (simp add: fun_upd_idem)
    from leader_acquire [OF B inv re l g] show ?thesis
      using ta e p m k key g' l same
      by (auto simp: TryAcquire_def check_handle_def reply_def is_ok_def status_ok_def split: if_splits)
  qed
  then show "is_ok st \<Longrightarrow> \<exists>p k msg. key_of s (int_of_int64 x) fh = Some p \<and> res = Some (k, msg) \<and>
      (if k = 0 then lock_state s p = Some Free \<and> lock_state s1 = (lock_state s)(p \<mapsto> Exclusive (int_of_int64 x))
       else lock_state s1 = lock_state s)" and "\<not> is_ok st \<Longrightarrow> s1 = s" by blast+
qed

lemma serve_try_acquire:
  "serve R B e0 (TryAcquireReq x fh ex) s = Inr (Return (st, y), s1) \<longleftrightarrow>
   (\<exists>res. y = LockResponse res \<and> TryAcquire R B x fh ex s = Inr (Return (st, res), s1))"
proof (cases "TryAcquire R B x fh ex s")
  case (Inr r)
  then show ?thesis by (cases r; cases "fst r") (auto simp: map_handler_def)
qed (simp add: map_handler_def)

text \<open>What a \<open>TryAcquire\<close> call of the client, however often it is repeated, means for the lock.\<close>

lemma invoke_try_acquire:
  assumes B: "buffer_api B" and "sm_inv n s" and "key_of s (int_of_int64 x) fh = Some p"
    and "invoke_at B e0 attempts (TryAcquireReq x fh True) s = Some (r, s')"
  shows "sm_inv n s' \<and> key_of s' = key_of s \<and>
    (\<forall>j. lock_state s p = Some (Exclusive j) \<longrightarrow> lock_state s' p = Some (Exclusive j)) \<and>
    (\<forall>st y. r = Inr (st, y) \<longrightarrow> is_ok st \<longrightarrow> (\<exists>k msg. y = LockResponse (Some (k, msg)) \<and>
       (k = 0 \<longrightarrow> lock_state s' p = Some (Exclusive (int_of_int64 x)) \<and> (\<forall>j. lock_state s p \<noteq> Some (Exclusive j)))))"
  using assms(2-4)
proof (induction attempts arbitrary: s)
  case (Cons lost attempts)
  obtain st y s1 where serve: "serve (leader_raft B) B e0 (TryAcquireReq x fh True) s = Inr (Return (st, y), s1)"
    using Cons.prems(3) by (auto split: sum.splits proc.splits)
  then obtain res where res: "y = LockResponse res" "TryAcquire (leader_raft B) B x fh True s = Inr (Return (st, res), s1)"
    unfolding serve_try_acquire by blast
  note ta = try_acquire_cases [OF B Cons.prems(1) res(2)]
  have key: "key_of s1 = key_of s" by (intro ext) (simp add: key_of_def ta(2))
  have kept: "lock_state s1 p = Some (Exclusive j)" if "lock_state s p = Some (Exclusive j)" for j
    using ta(3,4) that by (cases "is_ok st") (auto split: if_splits)
  have granted: "\<exists>k msg. y = LockResponse (Some (k, msg)) \<and>
      (k = 0 \<longrightarrow> lock_state s1 p = Some (Exclusive (int_of_int64 x)) \<and> (\<forall>j. lock_state s p \<noteq> Some (Exclusive j)))"
    if "is_ok st"
  proof -
    obtain q k msg where q: "key_of s (int_of_int64 x) fh = Some q" "res = Some (k, msg)"
        "if k = 0 then lock_state s q = Some Free \<and> lock_state s1 = (lock_state s)(q \<mapsto> Exclusive (int_of_int64 x))
         else lock_state s1 = lock_state s" using ta(3) [OF \<open>is_ok st\<close>] by blast
    then have "q = p" using Cons.prems(2) by simp
    then show ?thesis using q(2,3) res(1) by (intro exI [of _ k] exI [of _ msg]) (cases "k = 0"; simp)
  qed
  show ?case
  proof (cases "rpc_outcome (if lost then unavailable else st)")
    case Retry
    then have "invoke_at B e0 attempts (TryAcquireReq x fh True) s1 = Some (r, s')" using Cons.prems(3) serve by simp
    from Cons.IH [OF ta(1) _ this] show ?thesis using key kept Cons.prems(2) by metis
  next
    case Throw
    then show ?thesis using Cons.prems(3) serve ta(1) key kept by auto
  next
    case (Give st')
    then have "\<not> lost" by (cases lost) simp_all
    moreover from this have "st' = st" using Give by (auto simp: rpc_outcome_def split: if_splits)
    ultimately show ?thesis using Cons.prems(3) serve Give ta(1) key kept granted by auto
  qed
qed simp

lemma call_try_acquire:
  assumes "call_at B e0 attempts (SkinnyClient_TryAcquire fh True) c s = Some (Inr (True, c'), s')"
  obtains st y msg where "invoke_at B e0 attempts (TryAcquireReq (sid_of c) fh True) s = Some (Inr (st, y), s')" "is_ok st"
    "y = LockResponse (Some (0, msg)) \<or> res_lock y = None"
proof -
  obtain st y where inv: "invoke_at B e0 attempts (TryAcquireReq (sid_of c) fh True) s = Some (Inr (st, y), s')"
    and k: "acquired (st, y) c = Inr (True, c')"
    using assms
    by (auto simp: call_at_def SkinnyClient_TryAcquire_def impl_TryAcquire_def result_simps split: if_splits)
  have "is_ok st \<and> (case res_lock y of Some (r, _) \<Rightarrow> r = 0 | None \<Rightarrow> True)"
    using k by (auto simp: acquired_def client_acquire_def result_simps)
  then show thesis using inv that by (cases y) (auto split: option.splits)
qed



text \<open>
  A retried call can lose a lock. The exclusive lock is free and the client calls \<open>TryAcquire\<close>; the first
  attempt is granted, its answer is lost, and the attempt \<open>InvokeRpc\<close> makes instead is refused because the
  lock is taken: the call returns false although its own session owns the lock exclusively.
\<close>

theorem retried_acquire_reports_failure:
  "case call_at le_buf (\<lambda>_. 5) [True, False] (SkinnyClient_TryAcquire 0 True) (demo_client 0) (new_leader 5 two_sessions) of
     Some (Inr (b, _), s') \<Rightarrow> \<not> b \<and> lock_state s' ''/f'' = Some (Exclusive 0)
   | _ \<Rightarrow> False"
  by code_simp

end
