(* ===== verification/Service_Calls.thy ===== *)
theory Service_Calls
  imports Service SM_Replies Client_Api
begin

text \<open>
  The calls of the RPC service as calls of the abstract service (\<open>Service\<close>). Each handler on the leader does to the store what
  the abstract operation does, and answers as it does, whatever the keep-alive threads do meanwhile and however long it
  waits for acknowledgements; an \<open>Acquire\<close> call that waits for its lock has its place where it resumes; a leader that takes over goes on with the service where the log has left it.
\<close>

section \<open>The calls of the abstract service\<close>

text \<open>
  \<open>None\<close> is an answer with a status other than OK. An \<open>Acquire\<close> call, which may wait before it does anything, is carried out
  at a moment when the lock is free for it (\<open>lock_grantable\<close>), which may be after the end of its session.
\<close>

fun svc_call :: "rpc \<Rightarrow> svc \<Rightarrow> rpc_res option \<times> svc" where
  "svc_call (OpenReq x p d e) v =
     (case handles v (int_of_int64 x) of
        None \<Rightarrow> (None, v)
      | Some hs \<Rightarrow> (Some (Handle (of_nat (length hs))), snd (svc_step (OpenAction x p (int_of_bool d) (int_of_bool e)) v)))"
| "svc_call (CloseReq x fh) v = (None, v)"
| "svc_call (GetContentReq x fh) v =
     (case svc_handle v x fh of None \<Rightarrow> (None, v) | Some (p, _) \<Rightarrow> (Some (Content (data v p)), v))"
| "svc_call (SetContentReq x fh c) v =
     (let (k, v') = svc_step (SetContentAction x fh c) v in (if k = 0 then Some Empty else None, v'))"
| "svc_call StartSessionReq v = (Some (SessionId (int64_of_int (next_session v))), snd (svc_step StartSessionAction v))"
| "svc_call (EndSessionReq x) v =
     (let (k, v') = svc_step (EndSessionAction x) v in (if k = 0 then Some Empty else None, v'))"
| "svc_call (TryAcquireReq x fh ex) v =
     (case svc_handle v x fh of
        None \<Rightarrow> (None, v)
      | Some (p, current) \<Rightarrow>
          if \<not> current then (Some (LockResponse (Some (-1, ''Instance num mismatch''))), v)
          else if \<not> present v p then (Some (LockResponse (Some (-2, ''File does not exist''))), v)
          else (let (k, v') = svc_step (AcqAction x fh (int_of_bool ex)) v
                in (Some (LockResponse (Some (k, if k = 0 then [] else ''fail to acquire''))), v')))"
| "svc_call (AcquireReq x fh ex) v =
     (case svc_handle v x fh of
        None \<Rightarrow> (Some (LockResponse (Some (-1, ''Instance num mismatch''))), v)
      | Some (p, current) \<Rightarrow>
          if \<not> current then (Some (LockResponse (Some (-1, ''Instance num mismatch''))), v)
          else if \<not> present v p then (Some (LockResponse (Some (-2, ''File does not exist''))), v)
          else (let (k, v') = svc_step (AcqAction x fh (int_of_bool ex)) v in (Some (LockResponse (Some (k, []))), v')))"
| "svc_call (ReleaseReq x fh) v =
     (let (k, v') = svc_step (RelAction x fh) v in (if k = 0 then Some Empty else None, v'))"
| "svc_call (DeleteReq x fh) v =
     (let (k, v') = svc_step (DeleteAction x fh) v in (if k = 0 then Some (DeleteResponse 0) else None, v'))"

text \<open>What a client sees of an answer, and whether it is the service's; of directories the service has no contents.\<close>

definition outcome :: "status \<times> rpc_res \<Rightarrow> rpc_res option" where
  "outcome r = (if is_ok (fst r) then Some (snd r) else None)"

definition reads_directory :: "string set \<Rightarrow> svc \<Rightarrow> rpc \<Rightarrow> bool" where
  "reads_directory P v q =
     (case q of
        GetContentReq x fh \<Rightarrow> (case svc_handle v x fh of Some (p, _) \<Rightarrow> p \<in> parent_path ` P | None \<Rightarrow> False)
      | _ \<Rightarrow> False)"

text \<open>
  An \<open>Acquire\<close> call is answered when its lock can be granted, or refused at once if its session is not known.
\<close>

fun lock_grantable :: "rpc \<Rightarrow> svc \<Rightarrow> bool" where
  "lock_grantable (AcquireReq x fh ex) v =
     (case svc_handle v x fh of None \<Rightarrow> True | Some (p, _) \<Rightarrow> fst (rw_acquire ex (int_of_int64 x) (locks v p)))"
| "lock_grantable _ v = True"

fun refused :: "rpc \<Rightarrow> rpc_res option \<Rightarrow> svc \<Rightarrow> bool" where
  "refused (AcquireReq x fh ex) res v = (res = None \<and> handles v (int_of_int64 x) = None)"
| "refused _ res v = False"

definition answers_rightly :: "string set \<Rightarrow> svc \<Rightarrow> rpc \<Rightarrow> status \<times> rpc_res \<Rightarrow> bool" where
  "answers_rightly P v q r \<longleftrightarrow>
     reads_directory P v q \<or> refused q (outcome r) v \<or> outcome r = fst (svc_call q v) \<and> lock_grantable q v"

fun allowed :: "string set \<Rightarrow> svc \<Rightarrow> (rpc \<times> status \<times> rpc_res) list \<Rightarrow> bool" where
  "allowed P v [] = True"
| "allowed P v ((q, r) # calls) = (answers_rightly P v q r \<and> allowed P (snd (svc_call q v)) calls)"

fun lasting_call :: "string set \<Rightarrow> rpc \<Rightarrow> bool" where
  "lasting_call P (OpenReq x p d e) = (p \<in> P \<and> \<not> e \<and> length p < 2 ^ 32)"
| "lasting_call P (SetContentReq x fh c) = (length c < 2 ^ 32)"
| "lasting_call P _ = True"

section \<open>What the threads do\<close>

definition same_files :: "sm_state \<Rightarrow> sm_state \<Rightarrow> bool" where
  "same_files s s' \<longleftrightarrow> ds s' = ds s \<and> same_handles (sdb s) (sdb s')"

lemma same_files_refl: "same_files s s"
  by (simp add: same_files_def same_handles_def)

lemma same_files_trans: "same_files s s1 \<Longrightarrow> same_files s1 s2 \<Longrightarrow> same_files s s2"
  by (auto simp: same_files_def same_handles_def)

lemma same_files_inv: "sm_inv n s \<Longrightarrow> same_files s s' \<Longrightarrow> sm_inv n s'"
  using sm_inv_same by (simp add: same_files_def)

lemma same_handles_entry:
  assumes "same_handles d d'" and "find_session sid d' = Some e'"
  shows "\<exists>e. find_session sid d = Some e \<and> entry_v e = entry_v e' \<and> entry_inum e = entry_inum e'"
proof -
  have "map_option (\<lambda>e. (entry_id e, entry_v e, entry_inum e)) (find_session sid d') =
      map_option (\<lambda>e. (entry_id e, entry_v e, entry_inum e)) (find_session sid d)"
    using assms(1) by (simp add: same_handles_def)
  then show ?thesis using assms(2) by (cases "find_session sid d") auto
qed

lemma handles_of_same:
  assumes "same_handles d d'"
  shows "handles_of g d' = handles_of g d"
proof
  fix sid
  have "map_option (\<lambda>e. (entry_id e, entry_v e, entry_inum e)) (find_session sid d') =
      map_option (\<lambda>e. (entry_id e, entry_v e, entry_inum e)) (find_session sid d)"
    using assms by (simp add: same_handles_def)
  then show "handles_of g d' sid = handles_of g d sid"
    by (cases "find_session sid d"; cases "find_session sid d'") (auto simp: handles_of_def entry_handles_def)
qed

lemma simulates_same:
  assumes "simulates P v s" and "same_files s s'"
  shows "simulates P v s'"
proof -
  have d: "ds s' = ds s" and h: "same_handles (sdb s) (sdb s')" using assms(2) by (simp_all add: same_files_def)
  note vw = view_cong [OF d]
  have "plain P s'"
    using assms(1) same_handles_entry [OF h] handles_in_same [OF _ h] unfolding simulates_def plain_def d vw by metis
  moreover have "svc_of f s' = svc_of f s" for f
    using h by (simp add: svc_of_def vw handles_of_same [OF h] same_handles_def)
  ultimately show ?thesis using assms(1) unfolding simulates_def vw by metis
qed

lemma same_files_last [simp]: "same_files s (s\<lparr>last_committed_idx := i\<rparr>)"
  by (simp add: same_files_def same_handles_def)

lemma notified_files: "notified_db subs (sdb s) d \<Longrightarrow> same_files s (s\<lparr>sdb := d\<rparr>)"
  using notified_same_handles by (simp add: same_files_def)

text \<open>A handler that notifies and then answers: the store stays, and the answer does not depend on the wait.\<close>

lemma notify_reply:
  assumes inv: "sm_inv n s" and h: "notify_events key (reply r) s = Inr (pr, s1)"
  shows "same_files s s1" and "finishes env pr s1 r' s3 \<Longrightarrow> r' = r"
proof -
  obtain m c where m: "ds s key = Some (m, c)" using h by (auto simp: notify_events_def result_simps)
  from notify_events_live [OF inv m, of "reply r"] obtain d where
      d: "notified_db (subscribers m) (sdb s) d"
    and e: "notify_events key (reply r) s =
      (let s1 = s\<lparr>sdb := d\<rparr>; waits = event_waits (subscribers m) (sdb s) in
       if waits = [] then reply r s1
       else Inr (Await (all_acked waits) (\<lambda>s2. reply r (s2\<lparr>sdb := block_returns waits (sdb s2)\<rparr>)), s1))" by blast
  show "same_files s s1" using h notified_files [OF d] unfolding e by (auto simp: Let_def reply_def split: if_splits)
  show "finishes env pr s1 r' s3 \<Longrightarrow> r' = r"
    using h unfolding e by (auto simp: Let_def reply_def finishes_Return finishes_Await split: if_splits)
qed

section \<open>Entries\<close>

text \<open>The handlers whose entry is not the end of a session, in one step.\<close>

lemma append_refines:
  assumes B: "buffer_api B" and inv: "sm_inv n s" and n: "n < 2 ^ 31 - 1" and si: "simulates P v s"
    and P: "\<forall>p \<in> P. parent_path p \<noteq> p" and la: "lasting_action P a" and fits: "action_fits a"
    and ne: "\<forall>x. a \<noteq> EndSessionAction x" and h: "append_action (leader_raft B) B a (none :: 'a) k s = Inr (pr, s1)"
  obtains (failed) r v' where "sint (ret_res r) < 0" "svc_step a v = (ret_res r, v')" "simulates P v' s1" "sm_inv (Suc n) s1"
      "pr = Return (\<lparr>error_code = ABORTED, error_message = ret_msg r\<rparr>, none)"
  | (committed) r s0 s2 v' buf where "0 \<le> sint (ret_res r)" "svc_step a v = (ret_res r, v')" "simulates P v' s2" "sm_inv (Suc n) s2"
      "apply_action a s = Inr (r, s0)" "reply_of_kind a r" "serialize_ret B r = Inr buf"
      "read_response B buf = Inr (ret_res r, ret_msg r)" "k buf s2 = Inr (pr, s1)"
proof -
  obtain r s2 where ap: "apply_action a s = Inr (r, s2)"
  proof (cases "apply_action a s")
    case (Inl c)
    then show thesis using leader_crash [OF B fits Inl, of none k] h by simp
  qed auto
  obtain v' where v': "svc_step a v = (ret_res r, v')" "simulates P v' s2"
    using action_refines [OF inv n si ap P la] by blast
  have kind: "reply_of_kind a r" using reply_kind [OF ap] by simp
  then have "\<not> is_end_session r" using ne by (cases a; cases r) (auto simp: is_end_session_def)
  note app = leader_append [where 'a = 'a, OF B fits ap this]
  obtain buf where buf: "serialize_ret B r = Inr buf" "read_response B buf = Inr (ret_res r, ret_msg r)"
      "append_action (leader_raft B) B a none k s =
        (if 0 \<le> sint (ret_res r) then k buf (s2\<lparr>last_committed_idx := 0\<rparr>)
         else reply (\<lparr>error_code = ABORTED, error_message = ret_msg r\<rparr>, none) (s2\<lparr>last_committed_idx := 0\<rparr>))"
    using app by (elim exE conjE) simp
  have s2: "simulates P v' (s2\<lparr>last_committed_idx := 0\<rparr>)" "sm_inv (Suc n) (s2\<lparr>last_committed_idx := 0\<rparr>)"
    using simulates_same [OF v'(2)] apply_action_inv [OF inv n ap] by simp_all
  show thesis
  proof (cases "0 \<le> sint (ret_res r)")
    case True
    then show thesis using that(2) [OF True v'(1) s2 ap kind buf(1,2)] h buf(3) by simp
  next
    case False
    then show thesis using that(1) [OF _ v'(1)] s2 h buf(3) by (auto simp: reply_def)
  qed
qed

section \<open>The calls\<close>

definition serves :: "string set \<Rightarrow> nat \<Rightarrow> svc \<Rightarrow> rpc \<Rightarrow> ('a \<Rightarrow> rpc_res) \<Rightarrow> (status \<times> 'a) proc \<Rightarrow> sm_state \<Rightarrow> bool" where
  "serves P n v q f pr s1 \<longleftrightarrow> simulates P (snd (svc_call q v)) s1 \<and> sm_inv (Suc n) s1 \<and>
     (reads_directory P v q \<or>
      (\<forall>env r s3. finishes env pr s1 r s3 \<longrightarrow> outcome (map_prod id f r) = fst (svc_call q v)))"

lemma serves_return:
  "simulates P (snd (svc_call q v)) s1 \<Longrightarrow> sm_inv (Suc n) s1 \<Longrightarrow>
   reads_directory P v q \<or> outcome (map_prod id f r) = fst (svc_call q v) \<Longrightarrow> serves P n v q f (Return r) s1"
  by (auto simp: serves_def finishes_Return)

lemma serves_notify:
  assumes "notify_events key (reply r) s = Inr (pr, s1)" and "sm_inv (Suc n) s" and "simulates P (snd (svc_call q v)) s"
    and "outcome (map_prod id f r) = fst (svc_call q v)"
  shows "serves P n v q f pr s1"
proof -
  note fr = notify_reply [OF assms(2,1)]
  have "sm_inv (Suc n) s1" "simulates P (snd (svc_call q v)) s1"
    using same_files_inv [OF assms(2) fr(1)] simulates_same [OF assms(3) fr(1)] by simp_all
  then show ?thesis using fr(2) assms(4) unfolding serves_def by blast
qed

lemma outcome_aborted [simp]: "outcome (\<lparr>error_code = ABORTED, error_message = m\<rparr>, x) = None"
  by (simp add: outcome_def is_ok_def ABORTED_def)

lemma outcome_not_found [simp]: "outcome (session_not_found_status, x) = None"
  by (simp add: outcome_def is_ok_def session_not_found_status_def CANCELLED_def)

lemma outcome_ok [simp]: "outcome (status_ok, x) = Some x"
  by (simp add: outcome_def is_ok_def status_ok_def)

lemma simulates_handles:
  "simulates P v s \<Longrightarrow> handles v sid = None \<longleftrightarrow> find_session sid (sdb s) = None"
  by (auto simp: simulates_def handles_of_def)

lemma simulates_no_session:
  "simulates P v s \<Longrightarrow> find_session (int_of_int64 x) (sdb s) = None \<Longrightarrow> svc_handle v x fh = None"
  using simulates_handles [of P v s "int_of_int64 x"] by (simp add: svc_handle_def)

lemma simulates_handle:
  assumes si: "simulates P v s" and inv: "sm_inv n s" and e: "find_session (int_of_int64 x) (sdb s) = Some e"
    and p: "fh_to_key fh e = Inr p"
  obtains k where "handle_inum fh e = Inr k" "svc_handle v x fh = Some (p, instance_of s p = Some k)"
proof -
  obtain f where v: "v = svc_of f s" using si by (auto simp: simulates_def)
  show thesis using svc_handle_of [OF e sm_inv_entry [OF inv e] p, of f] that unfolding v by blast
qed

lemma simulates_views: "simulates P v s \<Longrightarrow> present v = exists_file s \<and> locks v = lock_of s \<and> next_session v = next_id (sdb s)"
  by (auto simp: simulates_def)

lemma minus_one_fails: "-1 = k \<Longrightarrow> 0 \<le> sint (k :: i32) \<Longrightarrow> R"
  by auto

lemma start_session_serves:
  assumes B: "buffer_api B" and inv: "sm_inv n s" and n: "n < 2 ^ 31 - 1" and si: "simulates P v s"
    and P: "\<forall>p \<in> P. parent_path p \<noteq> p" and h: "StartSession (leader_raft B) B e0 s = Inr (pr, s1)"
  shows "serves P n v StartSessionReq SessionId pr s1"
proof (rule append_refines [OF B inv n si P _ _ _ h [unfolded StartSession_def]])
  fix r :: sm_ret and v'
  assume "sint (ret_res r) < 0" "svc_step StartSessionAction v = (ret_res r, v')"
  then show ?thesis by simp
next
  fix r s0 s2 v' buf
  assume a: "svc_step StartSessionAction v = (ret_res r, v')" "simulates P v' s2" "sm_inv (Suc n) s2"
      "apply_action StartSessionAction s = Inr (r, s0)" "serialize_ret B r = Inr buf"
    and c: "bindE (read_start_session_return B buf) (\<lambda>(_, _, session_id).
          let sid = int_of_int64 session_id in
          if is_leader (leader_raft B) then
            (case find_session sid (sdb s2) of
               None \<Rightarrow> Inl Terminated
             | Some session \<Rightarrow> reply (status_ok, session_id) (set_session sid (entry_start_kathread (e0 sid) session) s2))
          else reply (status_ok, session_id) s2) = Inr (pr, s1)"
  let ?id = "next_id (sdb s)"
  have r: "r = StartSessionReturn 0 ''OK'' (int64_of_int ?id)"
    using a(4) by (auto simp: apply_start_session_def create_session_def new_entry_def Let_def)
  then have "read_start_session_return B buf = Inr (0, ''OK'', int64_of_int ?id)"
    using buffer_api.read_start_session_put [OF B] a(5) by simp
  then obtain e where e: "find_session ?id (sdb s2) = Some e" and pr: "pr = Return (status_ok, int64_of_int ?id)"
      "s1 = set_session ?id (entry_start_kathread (e0 ?id) e) s2"
    using c r by (auto simp: leader_raft_def reply_def Let_def split: option.splits)
  have "same_handles (sdb s2) (sdb s1)"
    unfolding pr(2) set_session_simps by (rule same_handles_put [OF e]) (simp_all add: entry_start_kathread_def)
  then have "same_files s2 s1" by (simp add: same_files_def pr(2))
  then show ?thesis using simulates_same [OF a(2)] same_files_inv [OF a(3)] a(1) simulates_views [OF si] unfolding pr(1)
    by (intro serves_return) simp_all
qed (simp_all add: action_fits_def)

lemma open_serves:
  assumes B: "buffer_api B" and inv: "sm_inv n s" and n: "n < 2 ^ 31 - 1" and si: "simulates P v s"
    and P: "\<forall>p \<in> P. parent_path p \<noteq> p" and la: "lasting_call P (OpenReq x p d e)"
    and h: "Open (leader_raft B) B x p d e s = Inr (pr, s1)"
  shows "serves P n v (OpenReq x p d e) Handle pr s1"
proof (rule append_refines [OF B inv n si P _ _ _ h [unfolded Open_def]])
  let ?a = "OpenAction x p (int_of_bool d) (int_of_bool e)"
  show "lasting_action P ?a" "action_fits ?a" using la by (simp_all add: action_fits_def)
next
  let ?a = "OpenAction x p (int_of_bool d) (int_of_bool e)"
  fix r :: sm_ret and v'
  assume a: "sint (ret_res r) < 0" "svc_step ?a v = (ret_res r, v')" "simulates P v' s1" "sm_inv (Suc n) s1"
    "pr = Return (\<lparr>error_code = ABORTED, error_message = ret_msg r\<rparr>, 0)"
  show ?thesis unfolding a(5)
    by (rule serves_return) (use a in \<open>auto split: option.splits\<close>)
next
  let ?a = "OpenAction x p (int_of_bool d) (int_of_bool e)"
  fix r s0 s2 v' buf
  assume a: "0 \<le> sint (ret_res r)" "svc_step ?a v = (ret_res r, v')" "simulates P v' s2" "sm_inv (Suc n) s2"
      "apply_action ?a s = Inr (r, s0)" "serialize_ret B r = Inr buf"
    and c: "bindE (read_open_return B buf) (\<lambda>(_, _, fh). notify_events (parent_path p) (reply (status_ok, fh)) s2) = Inr (pr, s1)"
  obtain hs where hs: "handles v (int_of_int64 x) = Some hs"
    using a(1,2) by (auto elim: minus_one_fails split: option.splits)
  then obtain session where e: "find_session (int_of_int64 x) (sdb s) = Some session"
    using simulates_handles [OF si, of "int_of_int64 x"] by auto
  have np: "parent_path p \<noteq> p" using P la by simp
  have ap: "apply_open x p (int_of_bool d) (int_of_bool e) s = Inr (r, s0)" using a(5) by simp
  obtain fh session' and m :: file_meta where r: "r = OpenReturn 0 ''OK'' fh" and add: "add_new_handle p (instance_num m) session = (fh, session')"
    by (rule open_shape [OF ap e np]) (rule that, assumption, assumption)
  have "length hs = length (entry_v session)"
    using hs e si sm_inv_entry [OF inv e] by (auto simp: simulates_def handles_of_def entry_handles_def entry_ok_def)
  then have "fh = of_nat (length hs)" using add by (auto simp: add_new_handle_def Let_def)
  moreover have "read_open_return B buf = Inr (0, ''OK'', fh)" using buffer_api.read_open_put [OF B] a(6) r by simp
  ultimately show ?thesis using serves_notify [OF _ a(4), of _ "(status_ok, fh)" pr s1 P] c a(2,3) hs
    by simp
qed (simp_all add: action_fits_def)

lemma close_serves:
  assumes B: "buffer_api B" and inv: "sm_inv n s" and n: "n < 2 ^ 31 - 1" and si: "simulates P v s"
    and P: "\<forall>p \<in> P. parent_path p \<noteq> p" and h: "Close (leader_raft B) B x fh s = Inr (pr, s1)"
  shows "serves P n v (CloseReq x fh) (\<lambda>_. Empty) pr s1"
proof (rule append_refines [OF B inv n si P _ _ _ h [unfolded Close_def]])
  fix r :: sm_ret and v'
  assume a: "svc_step (CloseAction x fh) v = (ret_res r, v')" "simulates P v' s1" "sm_inv (Suc n) s1"
    "pr = Return (\<lparr>error_code = ABORTED, error_message = ret_msg r\<rparr>, ())"
  show ?thesis unfolding a(4) by (rule serves_return) (use a in auto)
next
  fix r :: sm_ret and v'
  assume "0 \<le> sint (ret_res r)" "svc_step (CloseAction x fh) v = (ret_res r, v')"
  then show ?thesis by (auto elim: minus_one_fails)
qed (simp_all add: action_fits_def)

lemma set_content_serves:
  assumes B: "buffer_api B" and inv: "sm_inv n s" and n: "n < 2 ^ 31 - 1" and si: "simulates P v s"
    and P: "\<forall>p \<in> P. parent_path p \<noteq> p" and la: "lasting_call P (SetContentReq x fh c)"
    and h: "SetContent (leader_raft B) B x fh c s = Inr (pr, s1)"
  shows "serves P n v (SetContentReq x fh c) (\<lambda>_. Empty) pr s1"
proof (rule append_refines [OF B inv n si P _ _ _ h [unfolded SetContent_def]])
  fix r :: sm_ret and v'
  assume a: "sint (ret_res r) < 0" "svc_step (SetContentAction x fh c) v = (ret_res r, v')" "simulates P v' s1" "sm_inv (Suc n) s1"
    "pr = Return (\<lparr>error_code = ABORTED, error_message = ret_msg r\<rparr>, ())"
  show ?thesis unfolding a(5) by (rule serves_return) (use a in auto)
next
  fix r s0 s2 v' buf
  assume a: "0 \<le> sint (ret_res r)" "svc_step (SetContentAction x fh c) v = (ret_res r, v')" "simulates P v' s2" "sm_inv (Suc n) s2"
      "reply_of_kind (SetContentAction x fh c) r"
    and c: "(case find_session (int_of_int64 x) (sdb s2) of
          None \<Rightarrow> reply (session_not_found_status, ()) s2
        | Some session \<Rightarrow> bindE (fh_to_key fh session) (\<lambda>key. notify_events key (reply (status_ok, ())) s2)) = Inr (pr, s1)"
  have r: "ret_res r = 0" using a(1,5) by (cases r) auto
  then have "handles v' (int_of_int64 x) \<noteq> None"
    using a(2) by (auto simp: svc_handle_def split: option.splits prod.splits if_splits)
  then obtain session key where "notify_events key (reply (status_ok, ())) s2 = Inr (pr, s1)"
    using c simulates_handles [OF a(3), of "int_of_int64 x"] by (auto simp: bindE_Inr_iff)
  then show ?thesis using serves_notify [OF _ a(4), of key "(status_ok, ())" pr s1 P] a(2,3) r by simp
qed (use la in \<open>simp_all add: action_fits_def\<close>)

lemma release_serves:
  assumes B: "buffer_api B" and inv: "sm_inv n s" and n: "n < 2 ^ 31 - 1" and si: "simulates P v s"
    and P: "\<forall>p \<in> P. parent_path p \<noteq> p" and h: "Release (leader_raft B) B x fh s = Inr (pr, s1)"
  shows "serves P n v (ReleaseReq x fh) (\<lambda>_. Empty) pr s1"
proof (cases "find_session (int_of_int64 x) (sdb s)")
  case None
  then have "svc_handle v x fh = None" using simulates_no_session [OF si] by simp
  then show ?thesis using h None si sm_inv_mono [OF inv, of "Suc n"]
    by (auto simp: Release_def reply_def intro!: serves_return)
next
  case (Some e)
  have app: "append_action (leader_raft B) B (RelAction x fh) () (\<lambda>buf s1. bindE (read_response B buf) (\<lambda>(res, msg).
       if sint res < 0 then reply (\<lparr>error_code = code_of LOCK_RELATED, error_message = msg\<rparr>, ()) s1
       else reply (status_ok, ()) s1)) s = Inr (pr, s1)"
    using h Some by (auto simp: Release_def bindE_Inr_iff)
  show ?thesis
  proof (rule append_refines [OF B inv n si P _ _ _ app])
    fix r :: sm_ret and v'
    assume a: "sint (ret_res r) < 0" "svc_step (RelAction x fh) v = (ret_res r, v')" "simulates P v' s1" "sm_inv (Suc n) s1"
      "pr = Return (\<lparr>error_code = ABORTED, error_message = ret_msg r\<rparr>, ())"
    show ?thesis unfolding a(5) by (rule serves_return) (use a in auto)
  next
    fix r s0 s2 v' buf
    assume a: "0 \<le> sint (ret_res r)" "svc_step (RelAction x fh) v = (ret_res r, v')" "simulates P v' s2" "sm_inv (Suc n) s2"
        "reply_of_kind (RelAction x fh) r" "read_response B buf = Inr (ret_res r, ret_msg r)"
      and c: "bindE (read_response B buf) (\<lambda>(res, msg).
         if sint res < 0 then reply (\<lparr>error_code = code_of LOCK_RELATED, error_message = msg\<rparr>, ()) s2
         else reply (status_ok, ()) s2) = Inr (pr, s1)"
    have r: "ret_res r = 0" using a(1,5) by (cases r) auto
    then have "pr = Return (status_ok, ())" "s1 = s2" using c a(6) by (simp_all add: reply_def)
    then show ?thesis using a r by (auto intro!: serves_return)
  qed (simp_all add: action_fits_def)
qed

lemma delete_serves:
  assumes B: "buffer_api B" and inv: "sm_inv n s" and n: "n < 2 ^ 31 - 1" and si: "simulates P v s"
    and P: "\<forall>p \<in> P. parent_path p \<noteq> p" and h: "Delete (leader_raft B) B x fh s = Inr (pr, s1)"
  shows "serves P n v (DeleteReq x fh) DeleteResponse pr s1"
proof (rule append_refines [OF B inv n si P _ _ _ h [unfolded Delete_def]])
  fix r :: sm_ret and v'
  assume a: "sint (ret_res r) < 0" "svc_step (DeleteAction x fh) v = (ret_res r, v')" "simulates P v' s1" "sm_inv (Suc n) s1"
    "pr = Return (\<lparr>error_code = ABORTED, error_message = ret_msg r\<rparr>, 0)"
  show ?thesis unfolding a(5) by (rule serves_return) (use a in auto)
next
  fix r s0 s2 v' buf
  assume a: "0 \<le> sint (ret_res r)" "svc_step (DeleteAction x fh) v = (ret_res r, v')" "simulates P v' s2" "sm_inv (Suc n) s2"
      "reply_of_kind (DeleteAction x fh) r" "read_response B buf = Inr (ret_res r, ret_msg r)"
    and c: "bindE (read_response B buf) (\<lambda>(res, msg).
        case find_session (int_of_int64 x) (sdb s2) of
          None \<Rightarrow> reply (session_not_found_status, res) s2
        | Some session \<Rightarrow> bindE (fh_to_key fh session) (\<lambda>key. notify_events (parent_path key) (reply (status_ok, res)) s2))
      = Inr (pr, s1)"
  have r: "ret_res r = 0" using a(1,5) by (cases r) auto
  then have "handles v' (int_of_int64 x) \<noteq> None"
    using a(2) by (auto simp: svc_handle_def split: option.splits prod.splits if_splits)
  then obtain session key where "notify_events (parent_path key) (reply (status_ok, 0)) s2 = Inr (pr, s1)"
    using c a(6) r simulates_handles [OF a(3), of "int_of_int64 x"] by (auto simp: bindE_Inr_iff)
  then show ?thesis using serves_notify [OF _ a(4), of "parent_path key" "(status_ok, 0)" pr s1 P] a(2,3) r by simp
qed (simp_all add: action_fits_def)

lemma get_content_serves:
  assumes inv: "sm_inv n s" and si: "simulates P v s" and h: "GetContent (leader_raft B) x fh s = Inr (pr, s1)"
  shows "serves P n v (GetContentReq x fh) Content pr s1"
proof (cases "find_session (int_of_int64 x) (sdb s)")
  case None
  then have "svc_handle v x fh = None" using simulates_no_session [OF si] by simp
  then show ?thesis using h None si sm_inv_mono [OF inv, of "Suc n"]
    by (auto simp: GetContent_def leader_raft_def reply_def intro!: serves_return)
next
  case (Some e)
  then obtain p m c where p: "fh_to_key fh e = Inr p" and m: "ds s p = Some (m, c)"
    and pr: "pr = Return (status_ok, c)" "s1 = s"
    using h by (auto simp: GetContent_def leader_raft_def reply_def result_simps)
  obtain k where k: "svc_handle v x fh = Some (p, k)" using simulates_handle [OF si inv Some p] by metis
  have "p \<in> parent_path ` P \<or> data v p = c" using si file_views(2) [OF m] by (auto simp: simulates_def)
  then have "reads_directory P v (GetContentReq x fh) \<or> data v p = c" using k by (simp add: reads_directory_def)
  then show ?thesis unfolding pr using k si sm_inv_mono [OF inv, of "Suc n"] by (intro serves_return) auto
qed

text \<open>The entry of a lock request through a current handle.\<close>

lemma acquire_append:
  assumes B: "buffer_api B" and inv: "sm_inv n s" and n: "n < 2 ^ 31 - 1" and si: "simulates P v s"
    and P: "\<forall>p \<in> P. parent_path p \<noteq> p" and v: "svc_handle v x fh = Some (p, cur)" and e: "find_session (int_of_int64 x) (sdb s) \<noteq> None"
    and app: "append_action (leader_raft B) B (AcqAction x fh (int_of_bool ex)) (none :: 'a) k s = Inr (pr, s1)"
  obtains buf s2 v' c where "svc_step (AcqAction x fh (int_of_bool ex)) v = (c, v')" "c = 0 \<or> c = 1"
    "simulates P v' s2" "sm_inv (Suc n) s2" "read_response B buf = Inr (c, if c = 0 then [] else ''fail to acquire'')"
    "k buf s2 = Inr (pr, s1)"
proof (rule append_refines [OF B inv n si P _ _ _ app])
  fix r :: sm_ret and v'
  assume "sint (ret_res r) < 0" "svc_step (AcqAction x fh (int_of_bool ex)) v = (ret_res r, v')"
  then show thesis using v by (cases "ret_res r = 0 \<or> ret_res r = 1") (auto simp: Let_def split: prod.splits if_splits)
next
  fix r s0 s2 v' buf
  assume a: "svc_step (AcqAction x fh (int_of_bool ex)) v = (ret_res r, v')" "simulates P v' s2" "sm_inv (Suc n) s2"
      "apply_action (AcqAction x fh (int_of_bool ex)) s = Inr (r, s0)" "read_response B buf = Inr (ret_res r, ret_msg r)"
      "k buf s2 = Inr (pr, s1)"
  have "r = Response 0 [] \<or> r = Response 1 ''fail to acquire''"
    using a(4) e by (auto simp: apply_acq_def Let_def result_simps split: if_splits)
  then show thesis using that [OF a(1) _ a(2,3) _ a(6)] a(5) by auto
qed (simp_all add: action_fits_def)

lemma try_acquire_serves:
  assumes B: "buffer_api B" and inv: "sm_inv n s" and n: "n < 2 ^ 31 - 1" and si: "simulates P v s"
    and P: "\<forall>p \<in> P. parent_path p \<noteq> p" and h: "TryAcquire (leader_raft B) B x fh ex s = Inr (pr, s1)"
  shows "serves P n v (TryAcquireReq x fh ex) LockResponse pr s1"
proof (cases "find_session (int_of_int64 x) (sdb s)")
  case None
  then have "svc_handle v x fh = None" using simulates_no_session [OF si] by simp
  then show ?thesis using h None si sm_inv_mono [OF inv, of "Suc n"]
    by (auto simp: TryAcquire_def reply_def intro!: serves_return)
next
  case (Some e)
  define k1 where "k1 = (\<lambda>buf s1. bindE (read_response B buf) (\<lambda>(res, msg).
      if res = -1 then reply (\<lparr>error_code = code_of LOCK_RELATED, error_message = msg\<rparr>, None) s1
      else reply (status_ok, Some (res, msg)) s1) :: ((status \<times> (i32 \<times> string) option) proc \<times> sm_state) result)"
  obtain p m c bad where p: "fh_to_key fh e = Inr p" and m: "ds s p = Some (m, c)" and bad: "check_handle fh e m = Inr bad"
    and go: "(case bad of Some res \<Rightarrow> reply (status_ok, Some res) s
      | None \<Rightarrow> append_action (leader_raft B) B (AcqAction x fh (int_of_bool ex)) None k1 s) = Inr (pr, s1)"
    using h [unfolded TryAcquire_def, folded k1_def] Some by (auto simp: result_simps)
  obtain k where k: "handle_inum fh e = Inr k" "svc_handle v x fh = Some (p, instance_num m = k)"
    using simulates_handle [OF si inv Some p] file_views(4) [OF m] by auto
  have ex: "present v p = file_exists m" using simulates_views [OF si] file_views(1) [OF m] by simp
  show ?thesis
  proof (cases bad)
    case (Some res)
    then have "pr = Return (status_ok, Some res)" "s1 = s" using go by (simp_all add: reply_def)
    then show ?thesis using Some bad k ex si sm_inv_mono [OF inv, of "Suc n"]
      by (auto simp: check_handle_def split: if_splits intro!: serves_return)
  next
    case None
    then have cur: "instance_num m = k" "file_exists m" using bad k(1) by (auto simp: check_handle_def split: if_splits)
    have app: "append_action (leader_raft B) B (AcqAction x fh (int_of_bool ex)) None k1 s = Inr (pr, s1)"
      using go None by simp
    have "find_session (int_of_int64 x) (sdb s) \<noteq> None" using \<open>find_session (int_of_int64 x) (sdb s) = Some e\<close> by simp
    from acquire_append [OF B inv n si P k(2) this app] show ?thesis
    proof cases
      case (1 buf s2 v' c)
      then have "pr = Return (status_ok, Some (c, if c = 0 then [] else ''fail to acquire''))" "s1 = s2"
        by (auto simp: k1_def reply_def)
      then show ?thesis using 1(1-4) k(2) cur ex by (auto simp: Let_def intro!: serves_return)
    qed
  qed
qed

text \<open>Without ephemeral files the end of a session has nobody to notify.\<close>

lemma release_keeps_lasting: "lasting s \<Longrightarrow> release_lock sid fh s = Inr (rc, s') \<Longrightarrow> lasting s'"
  by (auto simp: release_lock_def meta_release_def result_simps lasting_def split: option.splits if_splits) blast+

lemma end_session_loop_none:
  "lasting s \<Longrightarrow> end_session_loop sid is e ps sz s = Inr (ps', sz', s') \<Longrightarrow> ps' = ps"
proof (induction "is" arbitrary: e ps sz s)
  case (Cons i "is")
  obtain ret e1 s1 rc s2 where
      cl: "close_file_delete_ephermeral sid e (of_nat i) s = Inr (ret, e1, s1)"
    and rl: "release_lock sid (of_nat i) s1 = Inr (rc, s2)"
    using Cons.prems(2) by (auto simp: result_simps Let_def)
  have "ret = None" using close_file_none [OF Cons.prems(1) cl] .
  then have "end_session_loop sid is e1 ps sz s2 = Inr (ps', sz', s')" using Cons.prems(2) cl rl by simp
  moreover have "lasting s2" using release_keeps_lasting [OF _ rl] close_file_lasting [OF Cons.prems(1) cl] by simp
  ultimately show ?case using Cons.IH by blast
qed simp

lemma end_session_serves:
  assumes B: "buffer_api B" and inv: "sm_inv n s" and n: "n < 2 ^ 31 - 1" and si: "simulates P v s"
    and P: "\<forall>p \<in> P. parent_path p \<noteq> p" and h: "EndSession (leader_raft B) B x s = Inr (pr, s1)"
  shows "serves P n v (EndSessionReq x) (\<lambda>_. Empty) pr s1"
proof -
  let ?a = "EndSessionAction x" and ?k = "\<lambda>buf s. bindE (read_end_session_return B buf) (\<lambda>parents.
          notify_all parents (reply (status_ok, ())) s)"
  have fits: "action_fits ?a" by (simp add: action_fits_def)
  have app: "append_action (leader_raft B) B ?a () ?k s = Inr (pr, s1)" using h by (simp add: EndSession_def)
  obtain r s0 where ap: "apply_action ?a s = Inr (r, s0)"
  proof (cases "apply_action ?a s")
    case (Inl c)
    then show thesis using leader_crash [OF B fits Inl, of "()" ?k] app by simp
  qed auto
  obtain v' where v': "svc_step ?a v = (ret_res r, v')" "simulates P v' s0"
    using action_refines [OF inv n si ap P] by auto
  let ?s0 = "s0\<lparr>last_committed_idx := 0\<rparr>"
  have s0: "simulates P v' ?s0" "sm_inv (Suc n) ?s0"
    using simulates_same [OF v'(2)] apply_action_inv [OF inv n ap] by simp_all
  show ?thesis
  proof (cases "is_end_session r")
    case False
    then have r: "ret_res r = -1" using reply_kind [OF ap] by (cases r) (auto simp: is_end_session_def)
    then have "append_action (leader_raft B) B ?a () ?k s = reply (\<lparr>error_code = ABORTED, error_message = ret_msg r\<rparr>, ()) ?s0"
      using leader_append [where 'a = unit, OF B fits ap False] by auto
    then have "pr = Return (\<lparr>error_code = ABORTED, error_message = ret_msg r\<rparr>, ())" "s1 = ?s0"
      using app by (simp_all add: reply_def)
    then show ?thesis using v' s0 r by (auto intro!: serves_return)
  next
    case True
    then obtain sz parents where r: "r = EndSessionReturn sz parents" by (cases r) (auto simp: is_end_session_def)
    have "lasting s" using si by (auto simp: simulates_def plain_def lasting_def)
    then have parents: "parents = []"
      using ap r end_session_loop_none by (fastforce simp: apply_end_session_def Let_def result_simps split: option.splits)
    then have sz: "needed_size [] \<le> sz" using ap r end_session_reply [of x s sz "[]" s0] by (simp add: needed_size_def computed_size_def)
    obtain bs where bs: "serialize_action B ?a = Inr bs"
      using buffer_api.serialize_struct_total [OF B] unfolding serialize_action_def by blast
    obtain buf where buf: "serialize_ret B r = Inr buf" using buffer_api.end_session_fits [OF B sz] r parents by blast
    have com: "commit B 0 bs s = Inr (buf, ?s0)" using commit_serialized [OF B fits bs] ap buf by simp
    have rd: "read_response B buf = Inr (0, ret_msg r)" "read_end_session_return B buf = Inr []"
      using buffer_api.read_response_any [OF B buf ret_msg_short [OF ap]] buffer_api.read_end_session_put [OF B] buf r parents by simp_all
    have "append_action (leader_raft B) B ?a () ?k s = reply (status_ok, ()) ?s0"
      using bs com rd by (simp add: append_action_def leader_raft_def parse_raft_result_def is_ok_def status_ok_def)
    then have "pr = Return (status_ok, ())" "s1 = ?s0" using app by (simp_all add: reply_def)
    then show ?thesis using v' s0 r by (auto intro!: serves_return)
  qed
qed

section \<open>Calls that wait for a lock\<close>

text \<open>What an \<open>Acquire\<close> call does when the lock is free for it.\<close>

definition acquire_resume ::
    "buf_api \<Rightarrow> i64 \<Rightarrow> i32 \<Rightarrow> bool \<Rightarrow> entry \<Rightarrow> string \<Rightarrow> (status \<times> (i32 \<times> string) option) handler" where
  "acquire_resume B x fh ex e p = (\<lambda>s1.
     bindE (map_at (ds s1) p) (\<lambda>(meta, content).
     bindE (check_handle fh (session_object e (sdb s1)) meta) (\<lambda>bad.
     case bad of
       Some res \<Rightarrow> reply (status_ok, Some res) s1
     | None \<Rightarrow>
         append_action (leader_raft B) B (AcqAction x fh (int_of_bool ex)) None
           (\<lambda>buf s2. bindE (read_response B buf) (\<lambda>(res, msg).
              bindE (assertE (res = 0)) (\<lambda>_.
              reply (status_ok, Some (res, msg)) s2))) s1)))"

lemma Acquire_cases:
  "Acquire (leader_raft B) B x fh ex s =
     (case find_session (int_of_int64 x) (sdb s) of
        None \<Rightarrow> reply (session_not_found_status, None) s
      | Some e \<Rightarrow>
          bindE (fh_to_key fh e) (\<lambda>p. bindE (map_at (ds s) p) (\<lambda>_. Inr (Await (lock_free_for ex p) (acquire_resume B x fh ex e p), s))))"
  by (simp add: Acquire_def acquire_resume_def split: option.split)

text \<open>The handle of a waiting call goes on pointing to its file as long as the session lives; the session does not come again.\<close>

definition pends :: "svc \<Rightarrow> i32 \<Rightarrow> i32 \<Rightarrow> string \<Rightarrow> bool" where
  "pends v sid fh p \<longleftrightarrow> unat sid < unat (next_session v) \<and>
     (\<forall>hs. handles v sid = Some hs \<longrightarrow> in_range hs fh \<and> fst (hs ! nat (sint fh)) = p)"

lemma svc_step_pends:
  assumes "pends v sid fh p" and "unat (next_session v) < 2 ^ 31"
  shows "pends (snd (svc_step a v)) sid fh p"
proof (cases a)
  case StartSessionAction
  have "unat (next_session v + 1) = unat (next_session v) + 1" using assms(2) by (intro unat_inc) simp
  then show ?thesis using assms StartSessionAction by (auto simp: pends_def)
next
  case (OpenAction x q d e)
  then show ?thesis using assms(1)
    by (auto simp: pends_def in_range_append in_range_def nth_append split: option.splits)
next
  case (DeleteAction x g)
  then show ?thesis using assms(1)
    by (auto simp: pends_def in_range_def split: option.splits prod.splits)
qed (use assms(1) in \<open>auto simp: pends_def Let_def split: option.splits prod.splits\<close>)

lemma svc_call_step: "\<exists>a. snd (svc_call q v) = v \<or> snd (svc_call q v) = snd (svc_step a v)"
proof (cases q)
  case (OpenReq x p d e)
  then show ?thesis by (auto simp del: svc_step.simps split: option.split)
next
  case StartSessionReq
  then show ?thesis by (auto simp del: svc_step.simps)
qed (auto simp: case_prod_beta Let_def simp del: svc_step.simps split: option.split)

lemma svc_call_pends:
  "pends v sid fh p \<Longrightarrow> unat (next_session v) < 2 ^ 31 \<Longrightarrow> pends (snd (svc_call q v)) sid fh p"
  using svc_call_step [of q v] svc_step_pends by metis

lemma rw_acquire_granted:
  "svc_handle v x fh = Some (p, cur) \<Longrightarrow> fst (rw_acquire ex (int_of_int64 x) (locks v p)) \<Longrightarrow>
   \<exists>v'. svc_step (AcqAction x fh (int_of_bool ex)) v = (0, v')"
  by (auto simp: Let_def split: prod.split)

lemma acquire_resume_serves:
  assumes B: "buffer_api B" and inv: "sm_inv n s" and n: "n < 2 ^ 31 - 1" and si: "simulates P v s"
    and P: "\<forall>p \<in> P. parent_path p \<noteq> p" and id: "entry_id e = int_of_int64 x" and r: "in_range (entry_v e) fh"
    and len: "length (entry_inum e) = length (entry_v e)" and pe: "pends v (int_of_int64 x) fh p"
    and free: "lock_free_for ex p s" and h: "acquire_resume B x fh ex e p s = Inr (pr, s1)"
  shows "serves P n v (AcquireReq x fh ex) LockResponse pr s1 \<and> lock_grantable (AcquireReq x fh ex) v"
proof -
  obtain m c where m: "ds s p = Some (m, c)" using free by (auto simp: lock_free_for_def split: option.splits)
  have mok: "meta_ok n m" using sm_inv_meta [OF inv m] .
  then have "fst (rw_acquire ex (int_of_int64 x) (abs_lock m))" using lock_free_grants [OF _ m free] by (simp add: meta_ok_def)
  then have grant: "fst (rw_acquire ex (int_of_int64 x) (locks v p))"
    using simulates_views [OF si] file_views(3) [OF m] by simp
  define k1 where "k1 = (\<lambda>buf s2. bindE (read_response B buf) (\<lambda>(res, msg).
      bindE (assertE (res = 0)) (\<lambda>_. reply (status_ok, Some (res, msg)) s2)) :: ((status \<times> (i32 \<times> string) option) proc \<times> sm_state) result)"
  obtain bad where bad: "check_handle fh (session_object e (sdb s)) m = Inr bad"
    and go: "(case bad of Some res \<Rightarrow> reply (status_ok, Some res) s
      | None \<Rightarrow> append_action (leader_raft B) B (AcqAction x fh (int_of_bool ex)) None k1 s) = Inr (pr, s1)"
    using h [unfolded acquire_resume_def, folded k1_def] m by (auto simp: result_simps)
  show ?thesis
  proof (cases "find_session (int_of_int64 x) (sdb s)")
    case None
    then have gone: "handle_inum fh (session_object e (sdb s)) = Inr (-1)" using session_object_gone [OF _ r len] id by simp
    have "svc_handle v x fh = None" using simulates_no_session [OF si None] .
    moreover have "instance_num m \<noteq> -1" using mok by (auto simp: meta_ok_def)
    then have "pr = Return (status_ok, Some (-1, ''Instance num mismatch''))" "s1 = s"
      using go bad gone by (auto simp: check_handle_def reply_def)
    ultimately show ?thesis using si sm_inv_mono [OF inv, of "Suc n"] by (auto intro!: serves_return)
  next
    case (Some e1)
    have so: "session_object e (sdb s) = e1" using Some id by (simp add: session_object_def)
    obtain f where v: "v = svc_of f s" using si by (auto simp: simulates_def)
    have ok: "entry_ok n (int_of_int64 x) e1" using sm_inv_entry [OF inv Some] .
    then have "length (entry_handles (instance_of s) e1) = length (entry_v e1)" by (simp add: entry_handles_def entry_ok_def)
    then have r1: "in_range (entry_v e1) fh" and "entry_v e1 ! nat (sint fh) = p"
      using pe Some ok unfolding v by (auto simp: pends_def handles_of_def entry_handles_def in_range_def entry_ok_def)
    then have p: "fh_to_key fh e1 = Inr p" by (simp add: fh_to_key_def vec_at_Inr_iff)
    obtain k where k: "handle_inum fh e1 = Inr k" "svc_handle v x fh = Some (p, instance_num m = k)"
      using simulates_handle [OF si inv Some p] file_views(4) [OF m] by auto
    have ex: "present v p = file_exists m" using simulates_views [OF si] file_views(1) [OF m] by simp
    have g: "lock_grantable (AcquireReq x fh ex) v" using k(2) grant by simp
    show ?thesis
    proof (cases bad)
      case (Some res)
      then have "pr = Return (status_ok, Some res)" "s1 = s" using go by (simp_all add: reply_def)
      then show ?thesis using Some bad k ex si g sm_inv_mono [OF inv, of "Suc n"]
        by (auto simp: so check_handle_def split: if_splits intro!: serves_return)
    next
      case None
      then have cur: "instance_num m = k" "file_exists m" using bad k(1) by (auto simp: so check_handle_def split: if_splits)
      have app: "append_action (leader_raft B) B (AcqAction x fh (int_of_bool ex)) None k1 s = Inr (pr, s1)" using go None by simp
      obtain v0 where v0: "svc_step (AcqAction x fh (int_of_bool ex)) v = (0, v0)" using rw_acquire_granted [OF k(2) grant] by blast
      have "find_session (int_of_int64 x) (sdb s) \<noteq> None" using Some by simp
      from acquire_append [OF B inv n si P k(2) this app] show ?thesis
      proof cases
        case (1 buf s2 v' c)
        then have "c = 0" "v' = v0" using v0 by simp_all
        then have "pr = Return (status_ok, Some (0, []))" "s1 = s2" using 1(5,6) by (auto simp: k1_def reply_def assertE_def)
        then show ?thesis using 1(3,4) v0 \<open>v' = v0\<close> k(2) cur ex g
          by (auto simp: Let_def simp del: svc_step.simps intro!: serves_return)
      qed
    qed
  qed
qed

section \<open>Every call\<close>

lemma finishes_mapD: "finishes env q s r s3 \<Longrightarrow> q = map_proc f pr \<Longrightarrow> \<exists>r0. finishes env pr s r0 s3 \<and> r = f r0"
proof (induction arbitrary: pr rule: finishes.induct)
  case (returned r s)
  then show ?case by (cases pr) (auto intro: finishes.returned)
next
  case (resumed s s1 c k q' s2 r s3)
  then obtain k0 where pr: "pr = Await c k0" and k: "k = (\<lambda>s. map_sum id (map_prod (map_proc f) id) (k0 s))"
    by (cases pr) (auto simp: comp_def)
  obtain pr' where pr': "k0 s1 = Inr (pr', s2)" "q' = map_proc f pr'"
    using resumed.hyps(3) k by (cases "k0 s1") auto
  then show ?case using resumed.IH [OF pr'(2)] resumed.hyps(1,2) pr by (auto intro: finishes.resumed)
qed

lemma finishes_mapI: "finishes env pr s r s3 \<Longrightarrow> finishes env (map_proc f pr) s (f r) s3"
proof (induction rule: finishes.induct)
  case (resumed s s1 c k q' s2 r s3)
  then show ?case by (auto simp: comp_def intro!: finishes.resumed [of env s s1])
qed (simp add: finishes.returned)

lemma serves_mapped:
  assumes "map_handler (map_prod id f) h s = Inr (pr, s1)" and "\<And>pr0. h s = Inr (pr0, s1) \<Longrightarrow> serves P n v q f pr0 s1"
  shows "serves P n v q id pr s1"
proof -
  obtain pr0 where pr0: "h s = Inr (pr0, s1)" "pr = map_proc (map_prod id f) pr0"
    using assms(1) by (cases "h s") (auto simp: map_handler_def)
  have "outcome (map_prod id id r) = fst (svc_call q v)"
    if all: "\<forall>env r s3. finishes env pr0 s1 r s3 \<longrightarrow> outcome (map_prod id f r) = fst (svc_call q v)"
    and fin: "finishes env pr s1 r s3" for env r s3
  proof -
    obtain r0 where r0: "finishes env pr0 s1 r0 s3" "r = map_prod id f r0" using finishes_mapD [OF fin pr0(2)] by blast
    then have "map_prod id id r = map_prod id f r0" by (simp add: prod.map_id0)
    then show ?thesis using all r0(1) by metis
  qed
  then show ?thesis using assms(2) [OF pr0(1)] unfolding serves_def by blast
qed

fun is_acquire :: "rpc \<Rightarrow> bool" where
  "is_acquire (AcquireReq x fh ex) = True"
| "is_acquire _ = False"

lemma serve_serves:
  assumes na: "\<not> is_acquire q" and B: "buffer_api B" and inv: "sm_inv n s" and n: "n < 2 ^ 31 - 1" and si: "simulates P v s"
    and P: "\<forall>p \<in> P. parent_path p \<noteq> p" and la: "lasting_call P q" and h: "serve (leader_raft B) B e0 q s = Inr (pr, s1)"
  shows "serves P n v q id pr s1"
proof (cases q)
  case (OpenReq x p d e)
  show ?thesis unfolding OpenReq
    by (rule serves_mapped [OF h [unfolded OpenReq serve.simps]]) (rule open_serves [OF B inv n si P la [unfolded OpenReq]])
next
  case (CloseReq x fh)
  show ?thesis unfolding CloseReq
    by (rule serves_mapped [OF h [unfolded CloseReq serve.simps]]) (rule close_serves [OF B inv n si P])
next
  case (GetContentReq x fh)
  show ?thesis unfolding GetContentReq
    by (rule serves_mapped [OF h [unfolded GetContentReq serve.simps]]) (rule get_content_serves [OF inv si])
next
  case (SetContentReq x fh c)
  show ?thesis unfolding SetContentReq
    by (rule serves_mapped [OF h [unfolded SetContentReq serve.simps]]) (rule set_content_serves [OF B inv n si P la [unfolded SetContentReq]])
next
  case StartSessionReq
  show ?thesis unfolding StartSessionReq
    by (rule serves_mapped [OF h [unfolded StartSessionReq serve.simps]]) (rule start_session_serves [OF B inv n si P])
next
  case (EndSessionReq x)
  show ?thesis unfolding EndSessionReq
    by (rule serves_mapped [OF h [unfolded EndSessionReq serve.simps]]) (rule end_session_serves [OF B inv n si P])
next
  case (TryAcquireReq x fh ex)
  show ?thesis unfolding TryAcquireReq
    by (rule serves_mapped [OF h [unfolded TryAcquireReq serve.simps]]) (rule try_acquire_serves [OF B inv n si P])
next
  case (ReleaseReq x fh)
  show ?thesis unfolding ReleaseReq
    by (rule serves_mapped [OF h [unfolded ReleaseReq serve.simps]]) (rule release_serves [OF B inv n si P])
next
  case (DeleteReq x fh)
  show ?thesis unfolding DeleteReq
    by (rule serves_mapped [OF h [unfolded DeleteReq serve.simps]]) (rule delete_serves [OF B inv n si P])
qed (use na in simp)

section \<open>A leader's calls\<close>

text \<open>
  The calls a leader has served, in the order of their entries in the log, each with an answer it may give: when the wait of a handler
  for acknowledgements is over depends on its surroundings. In between, the keep-alive threads and the waiting handlers move.
  The calls of \<open>Acquire\<close> that wait for a lock are kept apart until they resume, in any order, at a moment when their
  condition holds.
\<close>

definition waits_first :: "rpc \<Rightarrow> (status \<times> rpc_res) proc \<Rightarrow> bool" where
  "waits_first q pr \<longleftrightarrow> is_acquire q \<and> (case pr of Await c f \<Rightarrow> True | Return r \<Rightarrow> False)"

inductive served :: "buf_api \<Rightarrow> sm_state \<Rightarrow> (rpc \<times> status \<times> rpc_res) list \<Rightarrow> (rpc \<times> (status \<times> rpc_res) proc) list \<Rightarrow>
    sm_state \<Rightarrow> bool" for B s0 where
  served_start: "served B s0 [] [] s0"
| served_call: "served B s0 calls ws s \<Longrightarrow> serve (leader_raft B) B e0 q s = Inr (pr, s1) \<Longrightarrow> \<not> waits_first q pr \<Longrightarrow>
    finishes env pr s1 r s3 \<Longrightarrow> served B s0 (calls @ [(q, r)]) ws s1"
| served_waits: "served B s0 calls ws s \<Longrightarrow> serve (leader_raft B) B e0 q s = Inr (pr, s1) \<Longrightarrow> waits_first q pr \<Longrightarrow>
    served B s0 calls (ws @ [(q, pr)]) s1"
| served_resumes: "served B s0 calls (ws1 @ (q, Await c f) # ws2) s \<Longrightarrow> c s \<Longrightarrow> f s = Inr (pr, s1) \<Longrightarrow>
    finishes env pr s1 r s3 \<Longrightarrow> served B s0 (calls @ [(q, r)]) (ws1 @ ws2) s1"
| served_threads: "served B s0 calls ws s \<Longrightarrow> same_files s s' \<Longrightarrow> served B s0 calls ws s'"

definition after_calls :: "(rpc \<times> status \<times> rpc_res) list \<Rightarrow> svc \<Rightarrow> svc" where
  "after_calls calls v = fold (\<lambda>(q, r) v. snd (svc_call q v)) calls v"

lemma allowed_append:
  "allowed P v (calls @ [(q, r)]) \<longleftrightarrow> allowed P v calls \<and> answers_rightly P (after_calls calls v) q r"
proof (induction calls arbitrary: v)
  case (Cons c calls)
  then show ?case by (cases c) (simp add: after_calls_def conj_assoc)
qed (simp add: after_calls_def)

lemma after_calls_snoc [simp]: "after_calls (calls @ [(q, r)]) v = snd (svc_call q (after_calls calls v))"
  by (simp add: after_calls_def)

text \<open>What is known of a waiting call.\<close>

definition waits_ok :: "buf_api \<Rightarrow> svc \<Rightarrow> rpc \<times> (status \<times> rpc_res) proc \<Rightarrow> bool" where
  "waits_ok B v w \<longleftrightarrow> (\<exists>x fh ex e p.
     w = (AcquireReq x fh ex, map_proc (map_prod id LockResponse) (Await (lock_free_for ex p) (acquire_resume B x fh ex e p))) \<and>
     entry_id e = int_of_int64 x \<and> in_range (entry_v e) fh \<and> length (entry_inum e) = length (entry_v e) \<and>
     pends v (int_of_int64 x) fh p)"

lemma waits_ok_call: "waits_ok B v w \<Longrightarrow> unat (next_session v) < 2 ^ 31 \<Longrightarrow> waits_ok B (snd (svc_call q v)) w"
  unfolding waits_ok_def using svc_call_pends by metis

lemma map_sum_Inr_iff: "map_sum f g m = Inr y \<longleftrightarrow> (\<exists>x. m = Inr x \<and> y = g x)"
  by (cases m) auto

lemma acquire_arrives:
  assumes inv: "sm_inv n s" and si: "simulates P v s" and h: "serve (leader_raft B) B e0 q s = Inr (pr, s1)" and q: "is_acquire q"
  shows "s1 = s \<and> (waits_first q pr \<longrightarrow> waits_ok B v (q, pr)) \<and>
    (\<not> waits_first q pr \<longrightarrow> (\<forall>env r s3. finishes env pr s1 r s3 \<longrightarrow> refused q (outcome r) v) \<and> snd (svc_call q v) = v)"
proof -
  obtain x fh ex where q: "q = AcquireReq x fh ex" using q by (cases q) simp_all
  show ?thesis
  proof (cases "find_session (int_of_int64 x) (sdb s)")
    case None
    then have "pr = Return (session_not_found_status, LockResponse None)" "s1 = s"
      using h by (auto simp: q Acquire_cases map_handler_def reply_def)
    moreover have "handles v (int_of_int64 x) = None" "svc_handle v x fh = None"
      using simulates_handles [OF si] simulates_no_session [OF si] None by simp_all
    ultimately show ?thesis by (auto simp: q waits_first_def finishes_Return)
  next
    case (Some e)
    then obtain p where p: "fh_to_key fh e = Inr p" and s1: "s1 = s"
        and pr: "pr = map_proc (map_prod id LockResponse) (Await (lock_free_for ex p) (acquire_resume B x fh ex e p))"
      using h by (auto simp: q Acquire_cases map_handler_def result_simps map_sum_Inr_iff)
    have ok: "entry_ok n (int_of_int64 x) e" using sm_inv_entry [OF inv Some] .
    have r: "in_range (entry_v e) fh" "entry_v e ! nat (sint fh) = p" using p by (auto simp: fh_to_key_def vec_at_Inr_iff)
    obtain f where v: "v = svc_of f s" using si by (auto simp: simulates_def)
    have "pends v (int_of_int64 x) fh p" using Some r ok sm_inv_fresh [OF inv Some]
      by (auto simp: pends_def v handles_of_def entry_handles_def entry_ok_def in_range_def)
    then have "waits_ok B v (q, pr)" using ok r(1) unfolding waits_ok_def q pr by (auto simp: entry_ok_def)
    then show ?thesis using s1 by (simp add: q pr waits_first_def)
  qed
qed

lemma serves_answers:
  "serves P n v q id pr s1 \<Longrightarrow> finishes env pr s1 r s3 \<Longrightarrow> lock_grantable q v \<Longrightarrow> answers_rightly P v q r"
  unfolding serves_def answers_rightly_def by (metis prod.map_id0 id_apply)

lemma grantable_others: "\<not> is_acquire q \<Longrightarrow> lock_grantable q v"
  by (cases q) simp_all

lemma waiting_resumes:
  assumes B: "buffer_api B" and inv: "sm_inv n s" and n: "n < 2 ^ 31 - 1" and si: "simulates P v s"
    and P: "\<forall>p \<in> P. parent_path p \<noteq> p" and w: "waits_ok B v (q, Await c f)" and "c s" and f: "f s = Inr (pr, s1)"
  shows "serves P n v q id pr s1 \<and> lock_grantable q v"
proof -
  obtain x fh ex e p where q: "q = AcquireReq x fh ex" and c: "c = lock_free_for ex p"
    and fd: "f = (\<lambda>s. map_sum id (map_prod (map_proc (map_prod id LockResponse)) id) (acquire_resume B x fh ex e p s))"
    and e: "entry_id e = int_of_int64 x" "in_range (entry_v e) fh" "length (entry_inum e) = length (entry_v e)"
      "pends v (int_of_int64 x) fh p"
    using w by (auto simp: waits_ok_def comp_def)
  have free: "lock_free_for ex p s" using \<open>c s\<close> c by simp
  note res = acquire_resume_serves [OF B inv n si P e free]
  have "map_handler (map_prod id LockResponse) (acquire_resume B x fh ex e p) s = Inr (pr, s1)"
    using f by (simp add: fd map_handler_def map_prod_def)
  from serves_mapped [OF this] have "serves P n v q id pr s1" using res unfolding q by blast
  moreover obtain pr0 where "acquire_resume B x fh ex e p s = Inr (pr0, s1)"
    using f fd by (cases "acquire_resume B x fh ex e p s") auto
  ultimately show ?thesis using res unfolding q by blast
qed

lemma served_refines:
  assumes B: "buffer_api B" and P: "\<forall>p \<in> P. parent_path p \<noteq> p" and run: "served B s0 calls ws s"
    and inv: "sm_inv n s0" and si: "simulates P v s0" and len: "n + length calls < 2 ^ 31"
    and la: "list_all (\<lambda>(q, r). lasting_call P q) calls"
  shows "allowed P v calls \<and> simulates P (after_calls calls v) s \<and> sm_inv (n + length calls) s \<and>
    list_all (waits_ok B (after_calls calls v)) ws"
  using run len la
proof (induction rule: served.induct)
  case served_start
  then show ?case using inv si by (simp add: after_calls_def)
next
  case (served_call calls ws s e0 q pr s1 env r s3)
  let ?v = "after_calls calls v"
  have ih: "allowed P v calls" "simulates P ?v s" "sm_inv (n + length calls) s" "list_all (waits_ok B ?v) ws"
    using served_call.IH served_call.prems by simp_all
  have next_id: "unat (next_session ?v) < 2 ^ 31"
    using simulates_views [OF ih(2)] sm_inv_next [OF ih(3)] served_call.prems(1) by simp
  have ws: "list_all (waits_ok B (snd (svc_call q ?v))) ws" using ih(4) waits_ok_call [OF _ next_id] by (auto simp: list_all_iff)
  show ?case
  proof (cases "is_acquire q")
    case True
    note ar = acquire_arrives [OF ih(3,2) served_call.hyps(2) True]
    then have "refused q (outcome r) ?v" using served_call.hyps(3,4) by blast
    then have "answers_rightly P ?v q r" by (simp add: answers_rightly_def)
    then show ?thesis using ih ws ar served_call.hyps(3) sm_inv_mono [OF ih(3)] by (simp add: allowed_append)
  next
    case False
    have se: "serves P (n + length calls) ?v q id pr s1"
      by (rule serve_serves [OF False B ih(3) _ ih(2) P _ served_call.hyps(2)]) (use served_call.prems in simp_all)
    then have "answers_rightly P ?v q r" using serves_answers [OF _ served_call.hyps(4)] grantable_others [OF False] by blast
    then show ?thesis using ih(1) ws se by (simp add: serves_def allowed_append)
  qed
next
  case (served_waits calls ws s e0 q pr s1)
  have ih: "allowed P v calls" "simulates P (after_calls calls v) s" "sm_inv (n + length calls) s"
      "list_all (waits_ok B (after_calls calls v)) ws"
    using served_waits.IH served_waits.prems by simp_all
  have "is_acquire q" using served_waits.hyps(3) by (simp add: waits_first_def)
  then show ?case using acquire_arrives [OF ih(3,2) served_waits.hyps(2)] served_waits.hyps(3) ih by simp
next
  case (served_resumes calls ws1 q c f ws2 s pr s1 env r s3)
  let ?v = "after_calls calls v"
  have ih: "allowed P v calls" "simulates P ?v s" "sm_inv (n + length calls) s" "list_all (waits_ok B ?v) (ws1 @ (q, Await c f) # ws2)"
    using served_resumes.IH served_resumes.prems by simp_all
  have next_id: "unat (next_session ?v) < 2 ^ 31"
    using simulates_views [OF ih(2)] sm_inv_next [OF ih(3)] served_resumes.prems(1) by simp
  have ws: "list_all (waits_ok B (snd (svc_call q ?v))) (ws1 @ ws2)"
    using ih(4) waits_ok_call [OF _ next_id] by (auto simp: list_all_iff)
  have w: "waits_ok B ?v (q, Await c f)" using ih(4) by simp
  have "n + length calls < 2 ^ 31 - 1" using served_resumes.prems(1) by simp
  note se = waiting_resumes [OF B ih(3) this ih(2) P w served_resumes.hyps(2,3)]
  then have "answers_rightly P ?v q r" using serves_answers [OF _ served_resumes.hyps(4)] by blast
  then show ?case using ih(1) ws se by (simp add: serves_def allowed_append)
next
  case (served_threads calls ws s s')
  then show ?case using simulates_same same_files_inv by blast
qed


text \<open>
  Calls as a function, for concrete runs: a call that arrives, or the number of the waiting call that resumes. A handler that waits for
  acknowledgements is answered when all sessions have ended.
\<close>

definition answered_by :: "(status \<times> rpc_res) proc \<Rightarrow> (status \<times> rpc_res) option" where
  "answered_by pr =
     (case pr of
        Return r \<Rightarrow> Some r
      | Await ret k \<Rightarrow>
          if ret init_state then (case k init_state of Inr (Return r, _) \<Rightarrow> Some r | _ \<Rightarrow> None) else None)"

fun serve_all :: "buf_api \<Rightarrow> (rpc + nat) list \<Rightarrow> (rpc \<times> (status \<times> rpc_res) proc) list \<Rightarrow> sm_state \<Rightarrow>
    ((rpc \<times> status \<times> rpc_res) list \<times> (rpc \<times> (status \<times> rpc_res) proc) list \<times> sm_state) option" where
  "serve_all B [] ws s = Some ([], ws, s)"
| "serve_all B (Inl q # es) ws s =
     (case serve (leader_raft B) B (\<lambda>_. 0) q s of
        Inl _ \<Rightarrow> None
      | Inr (pr, s1) \<Rightarrow>
          if waits_first q pr then serve_all B es (ws @ [(q, pr)]) s1
          else (case answered_by pr of
             None \<Rightarrow> None
           | Some r \<Rightarrow> map_option (\<lambda>(calls, t). ((q, r) # calls, t)) (serve_all B es ws s1)))"
| "serve_all B (Inr i # es) ws s =
     (case drop i ws of
        (q, Await c f) # ws2 \<Rightarrow>
          if c s then
            (case f s of
               Inl _ \<Rightarrow> None
             | Inr (pr, s1) \<Rightarrow>
                 (case answered_by pr of
                    None \<Rightarrow> None
                  | Some r \<Rightarrow> map_option (\<lambda>(calls, t). ((q, r) # calls, t)) (serve_all B es (take i ws @ ws2) s1)))
          else None
      | _ \<Rightarrow> None)"

lemma answered_by_finishes: "answered_by pr = Some r \<Longrightarrow> \<exists>s3. finishes (\<lambda>_ _. True) pr s r s3"
  by (auto simp: answered_by_def intro!: finishes.intros split: proc.splits sum.splits prod.splits if_splits)

lemma serve_all_served:
  "serve_all B es ws s = Some (calls, ws', s') \<Longrightarrow> served B s0 calls0 ws s \<Longrightarrow> served B s0 (calls0 @ calls) ws' s'"
proof (induction B es ws s arbitrary: calls0 calls rule: serve_all.induct)
  case (2 B q es ws s)
  obtain pr s1 where h: "serve (leader_raft B) B (\<lambda>_. 0) q s = Inr (pr, s1)"
    using 2(3) by (auto simp del: serve.simps split: sum.split_asm)
  show ?case
  proof (cases "waits_first q pr")
    case True
    then have "serve_all B es (ws @ [(q, pr)]) s1 = Some (calls, ws', s')" using 2(3) h by (simp del: serve.simps)
    from 2(1) [OF h refl True this served_waits [OF 2(4) h True]] show ?thesis .
  next
    case False
    then obtain r calls1 where c: "answered_by pr = Some r" "serve_all B es ws s1 = Some (calls1, ws', s')" "calls = (q, r) # calls1"
      using 2(3) h by (auto simp del: serve.simps split: option.split_asm)
    obtain s3 where "finishes (\<lambda>_ _. True) pr s1 r s3" using answered_by_finishes [OF c(1)] by blast
    from 2(2) [OF h refl False c(1,2) served_call [OF 2(4) h False this]] show ?thesis using c(3) by simp
  qed
next
  case (3 B i es ws s)
  obtain q c f ws2 pr s1 r calls1 where c: "drop i ws = (q, Await c f) # ws2" "c s" "f s = Inr (pr, s1)"
      "answered_by pr = Some r" "serve_all B es (take i ws @ ws2) s1 = Some (calls1, ws', s')" "calls = (q, r) # calls1"
    using 3(2) by (auto split: list.split_asm prod.split_asm proc.split_asm if_split_asm sum.split_asm option.split_asm)
  obtain s3 where f: "finishes (\<lambda>_ _. True) pr s1 r s3" using answered_by_finishes [OF c(4)] by blast
  have "served B s0 calls0 (take i ws @ (q, Await c f) # ws2) s" using 3(3) c(1) append_take_drop_id [of i ws] by metis
  then have "served B s0 (calls0 @ [(q, r)]) (take i ws @ ws2) s1" using c(2,3) f by (rule served_resumes)
  then show ?case using 3(1) [OF c(1) refl refl c(2,3) refl c(4,5)] c(6) by fastforce
qed simp

text \<open>
  Session 0 takes the lock and writes, session 1 waits for the lock, reads what was written, and has the lock when session 0 has
  released it.
\<close>

definition demo_calls :: "(rpc \<times> status \<times> rpc_res) list" where
  "demo_calls = [(TryAcquireReq 0 0 True, status_ok, LockResponse (Some (0, []))), (SetContentReq 0 0 ''x'', status_ok, Empty),
     (GetContentReq 1 0, status_ok, Content ''x''), (ReleaseReq 0 0, status_ok, Empty),
     (AcquireReq 1 0 True, status_ok, LockResponse (Some (0, [])))]"

lemma demo_calls_served: "\<exists>s. served le_buf (new_leader 5 two_sessions) demo_calls [] s"
proof -
  let ?es = "[Inl (TryAcquireReq 0 0 True), Inl (AcquireReq 1 0 True), Inl (SetContentReq 0 0 ''x''), Inl (GetContentReq 1 0),
    Inl (ReleaseReq 0 0), Inr 0]"
  have "map_option (\<lambda>(calls, ws, s). (calls, length ws)) (serve_all le_buf ?es [] (new_leader 5 two_sessions)) = Some (demo_calls, 0)"
    by code_simp
  then obtain s where "serve_all le_buf ?es [] (new_leader 5 two_sessions) = Some (demo_calls, [], s)" by auto
  from serve_all_served [OF this served_start] show ?thesis by auto
qed


text \<open>
  A read, unlike a write, does not look at the handle's instance number. Session 1 reads through a handle from before the
  delete what session 0 has written to the file created again, to which it cannot write with this handle.
\<close>

lemma stale_handle_reads_recreated_file:
  "map_option (map (outcome \<circ> snd) \<circ> fst) (serve_all le_buf
     (map Inl [DeleteReq 0 0, OpenReq 0 ''/f'' False False, SetContentReq 0 1 ''y'', GetContentReq 1 0, SetContentReq 1 0 ''z'']) []
     (new_leader 5 two_sessions)) =
   Some [Some (DeleteResponse 0), Some (Handle 1), Some Empty, Some (Content ''y''), None]"
  by code_simp

end
