(* ===== verification/Demos.thy ===== *)
theory Demos
  imports Directories Client_Api
begin

text \<open>
  The example programs over the client library: membership (src/demo/demo2.cpp), the election of a primary
  (src/demo/demo3.cpp), and the calls of the performance client (src/perf/perf_client.cpp), whose threads are in \<open>Perf_Client\<close>. Each is the calls it makes and
  what it does with their answers. The callback of an open is number 0. What two of them rely on is that a directory
  lists its members.
\<close>

section \<open>Membership\<close>

definition newline :: char where
  "newline = char_of (10 :: nat)"

definition demo2_main :: "string \<Rightarrow> (client \<Rightarrow> i32 meth) list" where
  "demo2_main hostname =
     [SkinnyClient_OpenDir ''/service'' (Some 0) default_is_ephemeral, SkinnyClient_Open (''/service/'' @ hostname) None True]"

definition demo2_callback :: "string \<Rightarrow> string" where
  "demo2_callback content =
     ''New membership status'' @ map (\<lambda>c. if c = CHR 0x00 then newline else c) content
       @ [newline] @ ''========='' @ [newline]"

section \<open>Election\<close>

text \<open>What the program does next, given the content it read, and given the answer of \<open>TryAcquire\<close>.\<close>

definition demo3_open :: "client \<Rightarrow> i32 meth" where
  "demo3_open = SkinnyClient_Open ''/primary'' (Some 0) default_is_ephemeral"

definition demo3_print :: "string \<Rightarrow> string" where
  "demo3_print content = ''The primary server is '' @ content @ [newline]"

definition demo3_read :: "i32 \<Rightarrow> string \<Rightarrow> string + (client \<Rightarrow> bool meth)" where
  "demo3_read fh primary =
     (if primary = [] then Inr (SkinnyClient_TryAcquire fh True) else Inl (demo3_print primary))"

definition demo3_tried :: "string \<Rightarrow> i32 \<Rightarrow> bool \<Rightarrow> (client \<Rightarrow> unit meth) option" where
  "demo3_tried hostname fh acq_success =
     (if acq_success then Some (SkinnyClient_SetContent fh hostname) else None)"

section \<open>The performance client\<close>

definition num_file :: i32 where
  "num_file = 10"

definition dirname :: string where
  "dirname = ''/perf''"

definition clientdir :: string where
  "clientdir = dirname @ ''/client''"

definition filename_prefix :: string where
  "filename_prefix = ''/file''"

text \<open>The files each thread opens.\<close>

definition thread_opens :: "(client \<Rightarrow> i32 meth) list" where
  "thread_opens = map (\<lambda>i. SkinnyClient_Open (dirname @ filename_prefix @ to_string (of_nat i)) default_cb default_is_ephemeral)
     [0..<nat (sint num_file)]"

definition node_path :: "i32 \<Rightarrow> string" where
  "node_path node_num = clientdir @ ''/node'' @ to_string node_num"

definition file_count :: "string \<Rightarrow> i32" where
  "file_count content = foldl (\<lambda>cnt c. cnt + (if c = CHR 0x00 then 1 else 0)) 0 content"

text \<open>
  The command line: a wrong number of arguments ends the program (\<open>None\<close>), one that is not a number throws. \<open>stof\<close> reads
  the ratio, a number of the type that is drawn from.
\<close>

record 'd perf_args =
  node_num :: i32
  node_cnt :: i32
  thd_cnt :: i32
  duration :: i32
  write_ratio :: 'd

definition stoi_arg :: "string \<Rightarrow> i32 result" where
  "stoi_arg x = (case stoi x of Some n \<Rightarrow> Inr n | None \<Rightarrow> Inl Terminated)"

definition parse_args :: "(string \<Rightarrow> 'd option) \<Rightarrow> string list \<Rightarrow> 'd perf_args result option" where
  "parse_args stof argv =
     (if length argv \<noteq> 6 then None
      else Some
        (bindE (stoi_arg (argv ! 1)) (\<lambda>num. bindE (stoi_arg (argv ! 2)) (\<lambda>cnt.
         bindE (stoi_arg (argv ! 3)) (\<lambda>thds. bindE (stoi_arg (argv ! 4)) (\<lambda>secs.
         case stof (argv ! 5) of
           None \<Rightarrow> Inl Terminated
         | Some w \<Rightarrow> Inr \<lparr>node_num = num, node_cnt = cnt, thd_cnt = thds, duration = secs, write_ratio = w\<rparr>))))))"

text \<open>What the main thread opens, and what it deletes in the end; the callback of the second directory is number 0.\<close>

definition main_opens :: "i32 \<Rightarrow> (client \<Rightarrow> i32 meth) list" where
  "main_opens num = [SkinnyClient_OpenDir dirname default_cb default_is_ephemeral,
     SkinnyClient_OpenDir clientdir (Some 0) default_is_ephemeral,
     SkinnyClient_Open (node_path num) default_cb default_is_ephemeral]"

definition main_deletes :: "i32 \<Rightarrow> client \<Rightarrow> unit meth" where
  "main_deletes mynodefh = SkinnyClient_Delete mynodefh"

text \<open>
  The barrier, given the contents of the directory that \<open>finished_node_cnt\<close> was last set from, at each test of the
  loop's condition; \<open>None\<close> if it was not passed with the last of them.
\<close>

fun barrier :: "i32 \<Rightarrow> string list \<Rightarrow> nat option" where
  "barrier cnt [] = None"
| "barrier cnt (content # contents) =
     (if file_count content \<noteq> cnt then map_option Suc (barrier cnt contents) else Some 0)"

text \<open>
  A round of a thread: a number drawn for the choice between a write and a read, and a file. The numbers are of an ordered
  type, with their printed form as a parameter; the clock decides how many rounds there are.
\<close>

definition thread_op :: "'d::linorder \<Rightarrow> ('d \<Rightarrow> string) \<Rightarrow> (nat \<Rightarrow> i32) \<Rightarrow> 'd \<times> nat \<Rightarrow>
    (client \<Rightarrow> unit meth) + (client \<Rightarrow> string meth)" where
  "thread_op ratio shown fh draw =
     (let (res, i) = draw in
      if res < ratio then Inl (SkinnyClient_SetContent (fh i) (''garbage'' @ shown res))
      else Inr (SkinnyClient_GetContent (fh i)))"

text \<open>The numbers of writes and reads of a thread, and the sums that are printed.\<close>

fun thread_counts :: "'d::linorder \<Rightarrow> ('d \<times> nat) list \<Rightarrow> nat \<times> nat" where
  "thread_counts ratio [] = (0, 0)"
| "thread_counts ratio ((res, i) # draws) =
     (let (w, r) = thread_counts ratio draws in if res < ratio then (w + 1, r) else (w, r + 1))"

definition perf_sums :: "'d::linorder \<Rightarrow> ('d \<times> nat) list list \<Rightarrow> nat \<times> nat" where
  "perf_sums ratio threads =
     (sum_list (map (fst \<circ> thread_counts ratio) threads), sum_list (map (snd \<circ> thread_counts ratio) threads))"

section \<open>Properties\<close>

lemma thread_counts_ops:
  "fst (thread_counts ratio draws) = length (filter (isl \<circ> thread_op ratio shown fh) draws)"
  "fst (thread_counts ratio draws) + snd (thread_counts ratio draws) = length draws"
  by (induction draws) (auto simp: thread_op_def Let_def split: prod.splits)

lemma perf_sums_ops: "fst (perf_sums ratio threads) + snd (perf_sums ratio threads) = length (concat threads)"
proof (induction threads)
  case (Cons draws threads)
  then show ?case using thread_counts_ops(2) [of ratio draws] by (simp add: perf_sums_def)
qed (simp add: perf_sums_def)

lemma foldl_count: "foldl (\<lambda>cnt c. cnt + (if c = z then 1 else 0)) (k :: i32) xs = k + of_nat (count_list xs z)"
  by (induction xs arbitrary: k) (simp_all add: algebra_simps)

lemma count_listing: "\<forall>n \<in> set names. nul_free n \<Longrightarrow> count_list (listing names) (CHR 0x00) = length names"
  by (induction names) (simp_all add: nul_free_def)

lemma file_count_listing: "\<forall>n \<in> set names. nul_free n \<Longrightarrow> file_count (listing names) = of_nat (length names)"
  by (simp add: file_count_def foldl_count count_listing)

lemma shown_listing:
  "\<forall>n \<in> set names. nul_free n \<Longrightarrow>
   map (\<lambda>c. if c = CHR 0x00 then newline else c) (listing names) = concat (map ((#) newline) names)"
proof (induction names)
  case (Cons n names)
  have "map (\<lambda>c. if c = CHR 0x00 then newline else c) n = n" using Cons.prems by (induction n) (auto simp: nul_free_def)
  then show ?case using Cons by simp
qed simp

lemma barrier_Some: "barrier k contents = Some i \<Longrightarrow> i < length contents \<and> file_count (contents ! i) = k"
  by (induction contents arbitrary: i) (auto split: if_splits)

text \<open>
  The programs see the members of a directory. Whatever was created and deleted below it (under the conditions
  of \<open>directory_lists_children\<close>), membership prints each existing member of the directory once, on a
  line of its own, and the count of the performance client is the number of the members: its barrier
  opens at the first test at which as many nodes as it waits for have their file.
\<close>

theorem members_are_seen:
  assumes "reaches as s" and "length as < 2 ^ 31" and "paths_ok P" and "tidy P as init_state"
    and "d \<in> parent_path ` P" and "ds s d = Some (m, c)"
  shows "(\<exists>names. distinct names \<and> set names = filename ` {p \<in> P. parent_path p = d \<and> exists_file s p} \<and>
      demo2_callback c = ''New membership status'' @ concat (map ((#) newline) names) @ newline # ''========='' @ [newline]) \<and>
    file_count c = of_nat (card {p \<in> P. parent_path p = d \<and> exists_file s p}) \<and>
    (barrier n (c # cs) = Some 0 \<longleftrightarrow> n = of_nat (card {p \<in> P. parent_path p = d \<and> exists_file s p}))"
proof -
  let ?members = "{p \<in> P. parent_path p = d \<and> exists_file s p}"
  have "dirs_ok P (ds s)" using reaches_dirs [OF assms(1-4)] by (simp add: dirs_inv_def)
  then obtain names where n: "c = listing names" "distinct names" "set names = filename ` ?members"
    using dirs_ok_listing [OF _ assms(5,6)] by blast
  have free: "\<forall>z \<in> set names. nul_free z" using n(3) assms(3) by (auto simp: paths_ok_def)
  have "inj_on filename ?members" using filename_inj [OF assms(3)] by (auto intro!: inj_onI)
  then have "card ?members = length names" using n(2,3) by (metis card_image distinct_card)
  then have "file_count c = of_nat (card ?members)" using n(1) free file_count_listing by simp
  then show ?thesis using n free shown_listing by (auto simp: demo2_callback_def)
qed

text \<open>Two nodes of the performance client are there; a third one has come and gone.\<close>

definition perf_paths :: "string set" where
  "perf_paths = {dirname, clientdir, node_path 0, node_path 1, node_path 2}"

definition perf_log :: "action list" where
  "perf_log = [StartSessionAction, OpenAction 0 dirname 1 0, OpenAction 0 clientdir 1 0, OpenAction 0 (node_path 2) 0 0,
     OpenAction 0 (node_path 0) 0 0, DeleteAction 0 2, OpenAction 0 (node_path 1) 0 0]"

theorem members_are_seen_witness:
  "file_count (snd (the (ds (after_log perf_log) clientdir))) =
     of_nat (card {p \<in> perf_paths. parent_path p = clientdir \<and> exists_file (after_log perf_log) p}) \<and>
   barrier 2 [snd (the (ds (after_log perf_log) clientdir))] = Some 0"
proof (rule conjI)
  have 1: "reaches perf_log (after_log perf_log)" by (rule reaches_after) code_simp
  have 2: "length perf_log < 2 ^ 31" by (simp add: perf_log_def)
  have 3: "paths_ok perf_paths" by code_simp
  have 4: "tidy perf_paths perf_log init_state" by code_simp
  have 5: "clientdir \<in> parent_path ` perf_paths" by code_simp
  have "ds (after_log perf_log) clientdir \<noteq> None" by code_simp
  then have 6: "ds (after_log perf_log) clientdir = Some (fst (the (ds (after_log perf_log) clientdir)),
      snd (the (ds (after_log perf_log) clientdir)))" by simp
  show "file_count (snd (the (ds (after_log perf_log) clientdir))) =
     of_nat (card {p \<in> perf_paths. parent_path p = clientdir \<and> exists_file (after_log perf_log) p})"
    using members_are_seen [OF 1 2 3 4 5 6] by blast
  show "barrier 2 [snd (the (ds (after_log perf_log) clientdir))] = Some 0" by code_simp
qed

end
