(* ===== verification/Perf_Client.thy ===== *)
theory Perf_Client
  imports Demos
begin

text \<open>
  The main function of the performance client (src/perf/perf_client.cpp) with its threads: the main thread, the threads that
  measure, and the callback of the directory of nodes, which runs on a thread of its own for every event. They meet at two
  latches and at the condition variable of the barrier. A step is an event with what it brings in (the answer of a call, a
  reading of the clock, a drawn number) and what it does: the calls, each on its thread's own client, and the line that is printed.
  A section under the mutex \<open>m\<close> is one step; \<open>wait_for\<close> lets go of the mutex and wakes in its own time.
\<close>

section \<open>The threads\<close>

datatype worker =
    Opening "i32 list"
  | Ready "i32 list"
  | Measuring "i32 list" int
  | Finished

datatype main_phase =
    OpensDirname | Spawns | AwaitsThreads | OpensClientdir | OpensNode | Counts | Sleeps | Releases | Joins | Deletes | Reports | Exits

record perf_node =
  main_at :: main_phase
  workers :: "worker list"
  all_thd_ready :: int
  all_node_ready :: int
  clientdirfh :: i32
  mynodefh :: i32
  finished_node_cnt :: "i32 option"
  callbacks_running :: nat
  read_ops :: "i32 list"
  write_ops :: "i32 list"

datatype 'd worker_event = FileOpened i32 | CountsDown | Starts int | Round int 'd nat | Ends int

datatype 'd perf_event =
    MainOpened i32
  | MainGoes
  | MainCounted string
  | MainWakes
  | EventArrives
  | CallbackCounted string
  | Worker nat "'d worker_event"

datatype perf_call =
    Opens "client \<Rightarrow> i32 meth"
  | Reads "client \<Rightarrow> string meth"
  | Writes "client \<Rightarrow> unit meth"
  | Deletes_file "client \<Rightarrow> unit meth"
  | Prints string

text \<open>
  The measuring threads: they open the files, count down the first latch, wait for the second, and read and write
  until the clock (in nanoseconds) has passed the deadline.
\<close>

definition second :: int where
  "second = 1000000000"

definition op_call :: "(client \<Rightarrow> unit meth) + (client \<Rightarrow> string meth) \<Rightarrow> perf_call" where
  "op_call x = case_sum Writes Reads x"

fun worker_step :: "'d::linorder perf_args \<Rightarrow> ('d \<Rightarrow> string) \<Rightarrow> nat \<Rightarrow> worker \<Rightarrow> 'd worker_event \<Rightarrow> perf_node \<Rightarrow>
    (perf_call list \<times> perf_node) option" where
  "worker_step args shown i (Opening fhs) (FileOpened fh) n =
     (if length fhs < length thread_opens
      then Some ([Opens (thread_opens ! length fhs)], n\<lparr>workers := (workers n)[i := Opening (fhs @ [fh])]\<rparr>) else None)"
| "worker_step args shown i (Opening fhs) CountsDown n =
     (if length fhs = length thread_opens
      then Some ([], n\<lparr>workers := (workers n)[i := Ready fhs], all_thd_ready := all_thd_ready n - 1\<rparr>) else None)"
| "worker_step args shown i (Ready fhs) (Starts now) n =
     (if all_node_ready n = 0
      then Some ([], n\<lparr>workers := (workers n)[i := Measuring fhs (now + sint (duration args) * second)]\<rparr>) else None)"
| "worker_step args shown i (Measuring fhs deadline) (Round now res k) n =
     (if now \<le> deadline \<and> int k \<le> sint num_file - 1
      then Some ([op_call (thread_op (write_ratio args) shown ((!) fhs) (res, k))],
        if res < write_ratio args then n\<lparr>write_ops := (write_ops n)[i := write_ops n ! i + 1]\<rparr>
        else n\<lparr>read_ops := (read_ops n)[i := read_ops n ! i + 1]\<rparr>) else None)"
| "worker_step args shown i (Measuring fhs deadline) (Ends now) n =
     (if now \<le> deadline then None else Some ([], n\<lparr>workers := (workers n)[i := Finished]\<rparr>))"
| "worker_step args shown i _ _ n = None"

section \<open>The main thread and the callback\<close>

definition sum_read_ops :: "perf_node \<Rightarrow> i32" where
  "sum_read_ops n = foldl (+) 0 (read_ops n)"

definition sum_write_ops :: "perf_node \<Rightarrow> i32" where
  "sum_write_ops n = foldl (+) 0 (write_ops n)"

definition perf_report :: "perf_node \<Rightarrow> string" where
  "perf_report n =
     ''sum_read_ops='' @ to_string (sum_read_ops n) @ '', sum_write_ops='' @ to_string (sum_write_ops n) @ [newline]"

fun main_opened :: "'d perf_args \<Rightarrow> main_phase \<Rightarrow> i32 \<Rightarrow> perf_node \<Rightarrow> (perf_call list \<times> perf_node) option" where
  "main_opened args OpensDirname fh n = Some ([Opens (main_opens (node_num args) ! 0)], n\<lparr>main_at := Spawns\<rparr>)"
| "main_opened args OpensClientdir fh n =
     Some ([Opens (main_opens (node_num args) ! 1)], n\<lparr>main_at := OpensNode, clientdirfh := fh\<rparr>)"
| "main_opened args OpensNode fh n =
     Some ([Opens (main_opens (node_num args) ! 2)], n\<lparr>main_at := Counts, mynodefh := fh\<rparr>)"
| "main_opened args _ fh n = None"

text \<open>The loop of line 74, one thread a step, the latches, the joins, the deletion of the node's file, and the sums with their report.\<close>

fun main_goes :: "'d perf_args \<Rightarrow> main_phase \<Rightarrow> perf_node \<Rightarrow> (perf_call list \<times> perf_node) option" where
  "main_goes args Spawns n =
     (if int (length (workers n)) < sint (thd_cnt args) then Some ([], n\<lparr>workers := workers n @ [Opening []]\<rparr>)
      else Some ([], n\<lparr>main_at := AwaitsThreads\<rparr>))"
| "main_goes args AwaitsThreads n = (if all_thd_ready n = 0 then Some ([], n\<lparr>main_at := OpensClientdir\<rparr>) else None)"
| "main_goes args Releases n = Some ([], n\<lparr>main_at := Joins, all_node_ready := all_node_ready n - 1\<rparr>)"
| "main_goes args Joins n = (if list_all ((=) Finished) (workers n) then Some ([], n\<lparr>main_at := Deletes\<rparr>) else None)"
| "main_goes args Deletes n =
     Some ([Deletes_file (main_deletes (mynodefh n))], n\<lparr>main_at := Reports\<rparr>)"
| "main_goes args Reports n = Some ([Prints (perf_report n)], n\<lparr>main_at := Exits\<rparr>)"
| "main_goes args _ n = None"

text \<open>The test of the loop at the barrier.\<close>

definition barrier_test :: "'d perf_args \<Rightarrow> perf_node \<Rightarrow> perf_node" where
  "barrier_test args n = n\<lparr>main_at := if finished_node_cnt n \<noteq> Some (node_cnt args) then Sleeps else Releases\<rparr>"

definition perf_callback :: "string \<Rightarrow> perf_node \<Rightarrow> perf_node" where
  "perf_callback content n = n\<lparr>finished_node_cnt := Some (file_count content), callbacks_running := callbacks_running n - 1\<rparr>"

text \<open>
  An event of the directory starts a thread with the callback, once the main thread has opened the directory. After the main
  function has returned, a callback that is still running has nothing left to run on.
\<close>

fun perf_step :: "'d::linorder perf_args \<Rightarrow> ('d \<Rightarrow> string) \<Rightarrow> 'd perf_event \<Rightarrow> perf_node \<Rightarrow> (perf_call list \<times> perf_node) option" where
  "perf_step args shown (MainOpened fh) n = main_opened args (main_at n) fh n"
| "perf_step args shown MainGoes n = main_goes args (main_at n) n"
| "perf_step args shown (MainCounted content) n =
     (if main_at n = Counts
      then Some ([Reads (SkinnyClient_GetContent (clientdirfh n))],
        barrier_test args (n\<lparr>finished_node_cnt := Some (file_count content)\<rparr>)) else None)"
| "perf_step args shown MainWakes n = (if main_at n = Sleeps then Some ([], barrier_test args n) else None)"
| "perf_step args shown EventArrives n =
     (if main_at n \<in> {OpensDirname, Spawns, AwaitsThreads, OpensClientdir, Exits} then None
      else Some ([], n\<lparr>callbacks_running := callbacks_running n + 1\<rparr>))"
| "perf_step args shown (CallbackCounted content) n =
     (if callbacks_running n = 0 \<or> main_at n = Exits then None
      else Some ([Reads (SkinnyClient_GetContent (clientdirfh n))], perf_callback content n))"
| "perf_step args shown (Worker i ev) n =
     (if i < length (workers n) then worker_step args shown i (workers n ! i) ev n else None)"

definition perf_start :: "'d perf_args \<Rightarrow> perf_node" where
  "perf_start args = \<lparr>main_at = OpensDirname, workers = [], all_thd_ready = sint (thd_cnt args), all_node_ready = 1,
     clientdirfh = 0, mynodefh = 0, finished_node_cnt = None, callbacks_running = 0,
     read_ops = replicate (nat (sint (thd_cnt args))) 0, write_ops = replicate (nat (sint (thd_cnt args))) 0\<rparr>"

abbreviation perf_run :: "'d::linorder perf_args \<Rightarrow> ('d \<Rightarrow> string) \<Rightarrow> perf_node \<Rightarrow> ('d perf_event \<times> perf_call list) list \<Rightarrow>
    perf_node \<Rightarrow> bool" where
  "perf_run args shown \<equiv> steps (\<lambda>n (ev, out) n'. perf_step args shown ev n = Some (out, n'))"

section \<open>The invariant\<close>

primrec rank :: "main_phase \<Rightarrow> nat" where
  "rank OpensDirname = 0" | "rank Spawns = 1" | "rank AwaitsThreads = 2" | "rank OpensClientdir = 3" | "rank OpensNode = 4"
| "rank Counts = 5" | "rank Sleeps = 6" | "rank Releases = 7" | "rank Joins = 8" | "rank Deletes = 9" | "rank Reports = 10"
| "rank Exits = 11"

fun arrived :: "worker \<Rightarrow> bool" where
  "arrived (Opening fhs) = False"
| "arrived _ = True"

fun begun :: "worker \<Rightarrow> bool" where
  "begun (Measuring fhs deadline) = True"
| "begun Finished = True"
| "begun _ = False"

fun handles_ok :: "worker \<Rightarrow> bool" where
  "handles_ok (Opening fhs) = (length fhs \<le> length thread_opens)"
| "handles_ok (Ready fhs) = (length fhs = length thread_opens)"
| "handles_ok (Measuring fhs deadline) = (length fhs = length thread_opens)"
| "handles_ok Finished = True"

lemma sum_list_at:
  "i < length xs \<Longrightarrow> sum_list (xs[i := x]) = sum_list xs + x - (xs ! i :: 'a :: ab_group_add)"
  by (induction xs arbitrary: i) (auto simp: algebra_simps split: nat.split)

definition arrivals :: "worker list \<Rightarrow> int" where
  "arrivals ws = sum_list (map (\<lambda>w. if arrived w then 1 else 0) ws)"

lemma arrivals_update [simp]:
  "i < length ws \<Longrightarrow> arrivals (ws[i := w]) =
     arrivals ws + (if arrived w then 1 else 0) - (if arrived (ws ! i) then 1 else 0)"
  by (simp add: arrivals_def map_update sum_list_at)

lemma arrivals_append [simp]: "arrivals (ws @ vs) = arrivals ws + arrivals vs"
  by (simp add: arrivals_def)

lemma arrivals_opening [simp]: "arrivals [] = 0" "arrivals [Opening fhs] = 0"
  by (simp_all add: arrivals_def)

lemma arrivals_le: "arrivals ws \<le> int (length ws)"
  by (induction ws) (auto simp: arrivals_def)

lemma all_arrived: "arrivals ws = int (length ws) \<longleftrightarrow> list_all arrived ws"
proof (induction ws)
  case (Cons w ws)
  then show ?case using arrivals_le [of ws] by (auto simp: arrivals_def)
qed simp

definition perf_inv :: "'d perf_args \<Rightarrow> perf_node \<Rightarrow> bool" where
  "perf_inv args n \<longleftrightarrow>
     all_thd_ready n = sint (thd_cnt args) - arrivals (workers n) \<and>
     all_node_ready n = (if 8 \<le> rank (main_at n) then 0 else 1) \<and>
     int (length (workers n)) \<le> sint (thd_cnt args) \<and>
     (2 \<le> rank (main_at n) \<longrightarrow> int (length (workers n)) = sint (thd_cnt args)) \<and>
     (3 \<le> rank (main_at n) \<longrightarrow> list_all arrived (workers n)) \<and>
     (all_node_ready n \<noteq> 0 \<longrightarrow> list_all (Not \<circ> begun) (workers n)) \<and>
     (9 \<le> rank (main_at n) \<longrightarrow> list_all ((=) Finished) (workers n)) \<and>
     list_all handles_ok (workers n) \<and>
     length (read_ops n) = nat (sint (thd_cnt args)) \<and> length (write_ops n) = nat (sint (thd_cnt args))"

lemma perf_inv_start: "0 \<le> sint (thd_cnt args) \<Longrightarrow> perf_inv args (perf_start args)"
  by (simp add: perf_inv_def perf_start_def)

lemma list_all_update: "list_all P xs \<Longrightarrow> P x \<Longrightarrow> list_all P (xs[i := x])"
  by (auto simp: list_all_iff dest: set_update_subset_insert [THEN subsetD])

lemma list_all_at: "list_all P xs \<Longrightarrow> i < length xs \<Longrightarrow> P (xs ! i)"
  by (simp add: list_all_length)

lemma worker_moves_inv:
  assumes inv: "perf_inv args n" and i: "i < length (workers n)" and "handles_ok w" and "arrived (workers n ! i) \<Longrightarrow> arrived w"
    and "begun w \<Longrightarrow> all_node_ready n = 0" and "9 \<le> rank (main_at n) \<Longrightarrow> w = Finished"
  shows "perf_inv args (n\<lparr>workers := (workers n)[i := w],
      all_thd_ready := all_thd_ready n - (if arrived w \<and> \<not> arrived (workers n ! i) then 1 else 0)\<rparr>)"
proof -
  have a: "3 \<le> rank (main_at n) \<Longrightarrow> list_all arrived (workers n)"
    using inv by (simp add: perf_inv_def)
  then have "3 \<le> rank (main_at n) \<Longrightarrow> arrived w" using i assms(4) list_all_at by blast
  then have "3 \<le> rank (main_at n) \<Longrightarrow> list_all arrived ((workers n)[i := w])"
    using a by (simp add: list_all_update)
  moreover have "all_node_ready n \<noteq> 0 \<Longrightarrow> list_all (Not \<circ> begun) ((workers n)[i := w])"
    using inv assms(5) by (intro list_all_update) (auto simp: perf_inv_def)
  moreover have "9 \<le> rank (main_at n) \<Longrightarrow> list_all ((=) Finished) ((workers n)[i := w])"
    using inv assms(6) by (intro list_all_update) (auto simp: perf_inv_def)
  moreover have "list_all handles_ok ((workers n)[i := w])"
    using inv assms(3) by (intro list_all_update) (auto simp: perf_inv_def)
  ultimately show ?thesis using inv i assms(4) by (auto simp: perf_inv_def)
qed

lemma ops_inv:
  assumes "perf_inv args n"
  shows "perf_inv args (n\<lparr>read_ops := (read_ops n)[i := x]\<rparr>)" "perf_inv args (n\<lparr>write_ops := (write_ops n)[i := x]\<rparr>)"
  using assms by (simp_all add: perf_inv_def)

lemma worker_inv_step:
  assumes st: "worker_step args shown i (workers n ! i) ev n = Some (out, n')" and i: "i < length (workers n)"
    and inv: "perf_inv args n"
  shows "perf_inv args n'"
proof -
  note moves = worker_moves_inv [OF inv i]
  have h: "handles_ok (workers n ! i)" and f: "9 \<le> rank (main_at n) \<Longrightarrow> workers n ! i = Finished"
    and g: "begun (workers n ! i) \<Longrightarrow> all_node_ready n = 0"
    using inv i by (auto simp: perf_inv_def list_all_length)
  show ?thesis
  proof (cases "workers n ! i")
    case (Opening fhs)
    then show ?thesis using st h f moves [of "Opening (fhs @ [fh])" for fh] moves [of "Ready fhs"]
      by (cases ev) (auto split: if_splits)
  next
    case (Ready fhs)
    then show ?thesis using st h f moves [of "Measuring fhs d" for d] by (cases ev) (auto split: if_splits)
  next
    case (Measuring fhs deadline)
    then show ?thesis using st g moves [of Finished] ops_inv [OF inv] by (cases ev) (auto split: if_splits)
  next
    case Finished
    then show ?thesis using st by simp
  qed
qed

lemma main_opened_inv: "main_opened args (main_at n) fh n = Some (out, n') \<Longrightarrow> perf_inv args n \<Longrightarrow> perf_inv args n'"
  by (cases "main_at n") (auto simp: perf_inv_def)

lemma main_goes_inv:
  assumes "main_goes args (main_at n) n = Some (out, n')" and inv: "perf_inv args n"
  shows "perf_inv args n'"
proof (cases "main_at n")
  case AwaitsThreads
  then have "list_all arrived (workers n)" "all_thd_ready n = 0" using assms
    by (auto simp: perf_inv_def all_arrived [symmetric] split: if_splits)
  then show ?thesis using assms AwaitsThreads by (auto simp: perf_inv_def)
next
  case Joins
  then show ?thesis using assms by (auto simp: perf_inv_def split: if_splits)
qed (use assms in \<open>auto simp: perf_inv_def split: if_splits\<close>)

lemma barrier_test_inv: "perf_inv args n \<Longrightarrow> rank (main_at n) \<in> {5, 6} \<Longrightarrow> perf_inv args (barrier_test args n)"
  by (auto simp: perf_inv_def barrier_test_def)

lemma perf_inv_other:
  "perf_inv args (n\<lparr>finished_node_cnt := k, callbacks_running := c\<rparr>) = perf_inv args n"
  "perf_inv args (n\<lparr>finished_node_cnt := k\<rparr>) = perf_inv args n"
  "perf_inv args (n\<lparr>callbacks_running := c\<rparr>) = perf_inv args n"
  by (simp_all add: perf_inv_def)

lemma perf_inv_step: "perf_step args shown ev n = Some (out, n') \<Longrightarrow> perf_inv args n \<Longrightarrow> perf_inv args n'"
proof (cases ev)
  case (MainCounted c)
  assume "perf_step args shown ev n = Some (out, n')" "perf_inv args n"
  then show ?thesis using MainCounted barrier_test_inv [of args "n\<lparr>finished_node_cnt := Some (file_count c)\<rparr>"]
    by (auto simp: perf_inv_other split: if_splits)
next
  case MainWakes
  assume "perf_step args shown ev n = Some (out, n')" "perf_inv args n"
  then show ?thesis using MainWakes barrier_test_inv [of args n] by (auto split: if_splits)
qed (auto simp: perf_inv_other perf_callback_def main_opened_inv main_goes_inv worker_inv_step split: if_splits)

interpretation perf: step_invariant "\<lambda>n (ev, out) n'. perf_step args shown ev n = Some (out, n')" "perf_inv args" for args shown
  by unfold_locales (auto intro: perf_inv_step)

section \<open>The barrier\<close>

text \<open>The contents that were counted, by the main thread or by a callback.\<close>

fun counted :: "('d perf_event \<times> perf_call list) list \<Rightarrow> string list" where
  "counted [] = []"
| "counted ((MainCounted c, out) # tr) = c # counted tr"
| "counted ((CallbackCounted c, out) # tr) = c # counted tr"
| "counted (_ # tr) = counted tr"

lemma counted_append [simp]: "counted (tr @ tr') = counted tr @ counted tr'"
  by (induction tr rule: counted.induct) simp_all

definition has_counted :: "'d perf_args \<Rightarrow> ('d perf_event \<times> perf_call list) list \<Rightarrow> perf_node \<Rightarrow> bool" where
  "has_counted args tr n \<longleftrightarrow> (\<forall>k. finished_node_cnt n = Some k \<longrightarrow> k \<in> file_count ` set (counted tr)) \<and>
     (7 \<le> rank (main_at n) \<longrightarrow> node_cnt args \<in> file_count ` set (counted tr))"

lemma worker_step_frame:
  "worker_step args shown i w ev n = Some (out, n') \<Longrightarrow>
   main_at n' = main_at n \<and> finished_node_cnt n' = finished_node_cnt n \<and> all_node_ready n' = all_node_ready n \<and>
   callbacks_running n' = callbacks_running n"
  by (cases "(args, shown, i, w, ev, n)" rule: worker_step.cases) (auto split: if_splits)

lemma main_opened_frame:
  "main_opened args m fh n = Some (out, n') \<Longrightarrow> finished_node_cnt n' = finished_node_cnt n \<and> rank (main_at n') < 7"
  by (cases m) auto

lemma main_goes_frame:
  "main_goes args m n = Some (out, n') \<Longrightarrow> main_at n = m \<Longrightarrow> finished_node_cnt n' = finished_node_cnt n \<and>
   (7 \<le> rank (main_at n') \<longrightarrow> 7 \<le> rank m)"
  by (cases m) (auto split: if_splits)

lemma has_counted_step:
  assumes "perf_step args shown ev n = Some (out, n')" and "has_counted args tr n"
  shows "has_counted args (tr @ [(ev, out)]) n'"
proof (cases ev)
  case (MainOpened fh)
  then show ?thesis using assms main_opened_frame [of args "main_at n" fh n] by (auto simp: has_counted_def)
next
  case MainGoes
  then show ?thesis using assms main_goes_frame [of args "main_at n" n] by (auto simp: has_counted_def)
next
  case (Worker i wev)
  then show ?thesis using assms worker_step_frame [of args shown i "workers n ! i" wev n]
    by (auto simp: has_counted_def split: if_splits)
qed (use assms in \<open>auto simp: has_counted_def barrier_test_def perf_callback_def split: if_splits intro: rev_image_eqI\<close>)

lemma has_counted_run: "perf_run args shown (perf_start args) tr n \<Longrightarrow> has_counted args tr n"
proof (induction rule: steps.induct)
  case (steps_more tr n l n')
  then show ?case using has_counted_step by (cases l) auto
qed (simp add: has_counted_def perf_start_def)

section \<open>Progress\<close>

lemma thread_opens_length: "length thread_opens = 10"
  by (simp add: thread_opens_def num_file_def)

fun worker_work :: "worker \<Rightarrow> nat" where
  "worker_work (Opening fhs) = 14 - length fhs"
| "worker_work (Ready fhs) = 3"
| "worker_work (Measuring fhs deadline) = 2"
| "worker_work Finished = 0"

definition barrier_work :: "'d perf_args \<Rightarrow> perf_node \<Rightarrow> nat" where
  "barrier_work args n = (if main_at n = Sleeps
     then (if finished_node_cnt n = Some (node_cnt args) then 0 else if callbacks_running n \<noteq> 0 then 1 else 2)
     else if rank (main_at n) < 6 then 3 else 0)"

definition workers_work :: "worker list \<Rightarrow> int" where
  "workers_work ws = sum_list (map (int \<circ> worker_work) ws)"

definition perf_work :: "'d perf_args \<Rightarrow> perf_node \<Rightarrow> int" where
  "perf_work args n = int (11 - rank (main_at n)) + int (barrier_work args n) +
     (sint (thd_cnt args) - int (length (workers n))) * 20 + workers_work (workers n)"

lemma workers_work_simps [simp]:
  "workers_work (ws @ [w]) = workers_work ws + int (worker_work w)"
  "i < length ws \<Longrightarrow> workers_work (ws[i := w]) = workers_work ws + int (worker_work w) - int (worker_work (ws ! i))"
  by (simp_all add: workers_work_def map_update sum_list_at)

lemma workers_work_nonneg: "0 \<le> workers_work ws"
  by (induction ws) (simp_all add: workers_work_def)

lemma perf_work_nonneg: "perf_inv args n \<Longrightarrow> 0 \<le> perf_work args n"
  using workers_work_nonneg [of "workers n"] by (simp add: perf_work_def perf_inv_def)

definition advances :: "'d::linorder perf_args \<Rightarrow> ('d \<Rightarrow> string) \<Rightarrow> string \<Rightarrow> perf_node \<Rightarrow> bool" where
  "advances args shown c n \<longleftrightarrow> (\<exists>ev out n'. perf_step args shown ev n = Some (out, n') \<and> perf_work args n' < perf_work args n \<and>
     set (counted [(ev, out)]) \<subseteq> {c} \<and> (rank (main_at n) < 5 \<longrightarrow> counted [(ev, out)] = [] \<and> rank (main_at n') \<le> 5))"

lemma advancesI:
  "perf_step args shown ev n = Some (out, n') \<Longrightarrow> perf_work args n' < perf_work args n \<Longrightarrow> set (counted [(ev, out)]) \<subseteq> {c} \<Longrightarrow>
   (rank (main_at n) < 5 \<Longrightarrow> counted [(ev, out)] = [] \<and> rank (main_at n') \<le> 5) \<Longrightarrow> advances args shown c n"
  unfolding advances_def by blast

lemma worker_advances:
  assumes "perf_inv args n" and "w \<in> set (workers n)" and "\<not> arrived w \<or> 8 \<le> rank (main_at n) \<and> w \<noteq> Finished"
    and "8 \<le> rank (main_at n) \<Longrightarrow> arrived w"
  shows "advances args shown c n"
proof -
  obtain i where i: "i < length (workers n)" "workers n ! i = w" using assms(2) by (auto simp: in_set_conv_nth)
  have h: "handles_ok w" using assms(1,2) by (auto simp: perf_inv_def list_all_iff)
  have b: "8 \<le> rank (main_at n) \<Longrightarrow> all_node_ready n = 0" using assms(1) by (simp add: perf_inv_def)
  note work = perf_work_def barrier_work_def i thread_opens_length
  show ?thesis
  proof (cases w)
    case (Opening fhs)
    then show ?thesis
    proof (cases "length fhs < length thread_opens")
      case True
      then show ?thesis using Opening i
        by (intro advancesI [of _ _ "Worker i (FileOpened 0)"]) (auto simp: work)
    next
      case False
      then show ?thesis using Opening i h
        by (intro advancesI [of _ _ "Worker i CountsDown"]) (auto simp: work)
    qed
  next
    case (Ready fhs)
    then show ?thesis using i assms(3) b
      by (intro advancesI [of _ _ "Worker i (Starts 0)"]) (auto simp: work)
  next
    case (Measuring fhs deadline)
    then show ?thesis using i
      by (intro advancesI [of _ _ "Worker i (Ends (deadline + 1))"]) (auto simp: work)
  qed (use assms(3) in simp)
qed

lemma main_advances:
  assumes inv: "perf_inv args n" and "main_at n \<noteq> Exits" and c: "file_count c = node_cnt args"
  shows "advances args shown c n"
proof (cases "main_at n")
  case Spawns
  then show ?thesis by (cases "int (length (workers n)) < sint (thd_cnt args)")
    (auto intro!: advancesI [of _ _ MainGoes] simp: perf_work_def barrier_work_def)
next
  case AwaitsThreads
  then have len: "int (length (workers n)) = sint (thd_cnt args)" using inv by (simp add: perf_inv_def)
  show ?thesis
  proof (cases "list_all arrived (workers n)")
    case True
    then have "all_thd_ready n = 0" using inv len by (simp add: perf_inv_def all_arrived [symmetric])
    then show ?thesis using AwaitsThreads by (auto intro!: advancesI [of _ _ MainGoes] simp: perf_work_def barrier_work_def)
  next
    case False
    then obtain w where "w \<in> set (workers n)" "\<not> arrived w" by (auto simp: list_all_iff)
    then show ?thesis using worker_advances [OF inv] AwaitsThreads by auto
  qed
next
  case Counts
  then show ?thesis using c
    by (intro advancesI [of _ _ "MainCounted c"]) (auto simp: perf_work_def barrier_work_def barrier_test_def)
next
  case Sleeps
  consider "finished_node_cnt n = Some (node_cnt args)" | "finished_node_cnt n \<noteq> Some (node_cnt args)" "callbacks_running n \<noteq> 0"
    | "finished_node_cnt n \<noteq> Some (node_cnt args)" "callbacks_running n = 0" by blast
  then show ?thesis
  proof cases
    case 1
    then show ?thesis using Sleeps
      by (intro advancesI [of _ _ MainWakes]) (auto simp: perf_work_def barrier_work_def barrier_test_def)
  next
    case 2
    then show ?thesis using Sleeps c
      by (intro advancesI [of _ _ "CallbackCounted c"]) (auto simp: perf_work_def barrier_work_def perf_callback_def)
  next
    case 3
    then show ?thesis using Sleeps
      by (intro advancesI [of _ _ EventArrives]) (auto simp: perf_work_def barrier_work_def)
  qed
next
  case Joins
  show ?thesis
  proof (cases "list_all ((=) Finished) (workers n)")
    case True
    then show ?thesis using Joins by (intro advancesI [of _ _ MainGoes]) (auto simp: perf_work_def barrier_work_def)
  next
    case False
    then obtain w where "w \<in> set (workers n)" "w \<noteq> Finished" by (auto simp: list_all_iff)
    moreover have "list_all arrived (workers n)" using inv Joins by (simp add: perf_inv_def)
    ultimately show ?thesis using worker_advances [OF inv] Joins by (auto simp: list_all_iff)
  qed
qed (use assms(2) in \<open>auto intro: advancesI [of _ _ "MainOpened 0"] advancesI [of _ _ MainGoes] simp: perf_work_def barrier_work_def\<close>)

lemma perf_can_exit:
  assumes "perf_inv args n" and "file_count c = node_cnt args"
  shows "\<exists>tr n'. perf_run args shown n tr n' \<and> main_at n' = Exits \<and> set (counted tr) \<subseteq> {c}"
  using assms(1)
proof (induction "nat (perf_work args n)" arbitrary: n rule: less_induct)
  case less
  show ?case
  proof (cases "main_at n = Exits")
    case True
    then show ?thesis by (intro exI [of _ "[]"]) simp
  next
    case False
    obtain ev out n1 where s: "perf_step args shown ev n = Some (out, n1)" "perf_work args n1 < perf_work args n"
        "set (counted [(ev, out)]) \<subseteq> {c}"
      using main_advances [OF less.prems False assms(2)] unfolding advances_def by blast
    have inv1: "perf_inv args n1" using perf_inv_step [OF s(1) less.prems] .
    then obtain tr n' where t: "perf_run args shown n1 tr n'" "main_at n' = Exits" "set (counted tr) \<subseteq> {c}"
      using less.hyps [OF _ inv1] s(2) perf_work_nonneg [OF inv1] by auto
    have "perf_run args shown n ([(ev, out)] @ tr) n'" by (rule steps_append [OF t(1) steps_single]) (simp add: s(1))
    then show ?thesis using t(2,3) s(3) counted_append [of "[(ev, out)]" tr] by (intro exI [of _ "[(ev, out)] @ tr"] exI [of _ n']) auto
  qed
qed

lemma perf_can_count:
  assumes "perf_inv args n" and "rank (main_at n) \<le> 5" and "file_count c = node_cnt args"
  shows "\<exists>tr n'. perf_run args shown n tr n' \<and> main_at n' = Counts \<and> counted tr = []"
  using assms(1,2)
proof (induction "nat (perf_work args n)" arbitrary: n rule: less_induct)
  case less
  show ?case
  proof (cases "rank (main_at n) = 5")
    case True
    then have "main_at n = Counts" by (cases "main_at n") simp_all
    then show ?thesis by (intro exI [of _ "[]"]) simp
  next
    case False
    then have r: "rank (main_at n) < 5" "main_at n \<noteq> Exits" using less.prems(2) by auto
    obtain ev out n1 where s: "perf_step args shown ev n = Some (out, n1)" "perf_work args n1 < perf_work args n"
        "counted [(ev, out)] = []" "rank (main_at n1) \<le> 5"
      using main_advances [OF less.prems(1) r(2) assms(3)] r(1) unfolding advances_def by blast
    have inv1: "perf_inv args n1" using perf_inv_step [OF s(1) less.prems(1)] .
    then obtain tr n' where t: "perf_run args shown n1 tr n'" "main_at n' = Counts" "counted tr = []"
      using less.hyps [OF _ inv1 s(4)] s(2) perf_work_nonneg [OF inv1] by auto
    have "perf_run args shown n ([(ev, out)] @ tr) n'" by (rule steps_append [OF t(1) steps_single]) (simp add: s(1))
    then show ?thesis using t(2,3) s(3) counted_append [of "[(ev, out)]" tr] by (intro exI [of _ "[(ev, out)] @ tr"] exI [of _ n']) auto
  qed
qed

section \<open>The report\<close>

fun made_read :: "'d perf_event \<times> perf_call list \<Rightarrow> bool" where
  "made_read (Worker i ev, [Reads m]) = True"
| "made_read _ = False"

fun made_write :: "'d perf_event \<times> perf_call list \<Rightarrow> bool" where
  "made_write (Worker i ev, [Writes m]) = True"
| "made_write _ = False"

lemma foldl_sum_list: "foldl (+) k xs = k + sum_list (xs :: i32 list)"
  by (induction xs arbitrary: k) (simp_all add: algebra_simps)

definition ops_counted :: "('d perf_event \<times> perf_call list) list \<Rightarrow> perf_node \<Rightarrow> bool" where
  "ops_counted tr n \<longleftrightarrow> sum_read_ops n = of_nat (length (filter made_read tr)) \<and>
     sum_write_ops n = of_nat (length (filter made_write tr))"

lemma worker_counts:
  assumes "worker_step args shown i w ev n = Some (out, n')" and "i < length (read_ops n)" and "i < length (write_ops n)"
  shows "sum_read_ops n' = sum_read_ops n + (if made_read (Worker i ev, out) then 1 else 0) \<and>
    sum_write_ops n' = sum_write_ops n + (if made_write (Worker i ev, out) then 1 else 0)"
  using assms
  by (cases "(args, shown, i, w, ev, n)" rule: worker_step.cases)
    (auto simp: sum_read_ops_def sum_write_ops_def foldl_sum_list sum_list_at op_call_def thread_op_def split: if_splits)

lemma other_counts:
  "main_opened args m fh n = Some (out, n') \<Longrightarrow> read_ops n' = read_ops n \<and> write_ops n' = write_ops n"
  "main_goes args m n = Some (out, n') \<Longrightarrow> read_ops n' = read_ops n \<and> write_ops n' = write_ops n"
  by (cases m; auto split: if_splits)+

lemma ops_counted_step:
  assumes st: "perf_step args shown ev n = Some (out, n')" and inv: "perf_inv args n" and "ops_counted tr n"
  shows "ops_counted (tr @ [(ev, out)]) n'"
proof (cases ev)
  case (Worker i wev)
  then have i: "i < length (workers n)" and w: "worker_step args shown i (workers n ! i) wev n = Some (out, n')"
    using st by (auto split: if_splits)
  have "i < length (read_ops n)" "i < length (write_ops n)" using inv i by (auto simp: perf_inv_def)
  then show ?thesis using worker_counts [OF w] assms(3) Worker by (simp add: ops_counted_def)
next
  case (MainOpened fh)
  then show ?thesis using other_counts(1) [of args "main_at n" fh n] st assms(3)
    by (auto simp: ops_counted_def sum_read_ops_def sum_write_ops_def)
next
  case MainGoes
  then show ?thesis using other_counts(2) [of args "main_at n" n] st assms(3)
    by (auto simp: ops_counted_def sum_read_ops_def sum_write_ops_def)
qed (use assms in \<open>auto simp: ops_counted_def sum_read_ops_def sum_write_ops_def barrier_test_def perf_callback_def split: if_splits\<close>)

lemma ops_counted_run:
  assumes "0 \<le> sint (thd_cnt args)" and "perf_run args shown (perf_start args) tr n"
  shows "perf_inv args n \<and> ops_counted tr n"
  using assms(2)
proof (induction rule: steps.induct)
  case steps_start
  have "sum_list (replicate k 0) = (0 :: i32)" for k by (induction k) simp_all
  then show ?case using perf_inv_start [OF assms(1)]
    by (simp add: ops_counted_def sum_read_ops_def sum_write_ops_def perf_start_def foldl_sum_list)
next
  case (steps_more tr n l n')
  then show ?case using ops_counted_step perf_inv_step by (cases l) auto
qed

section \<open>Properties\<close>

text \<open>
  C16: the performance client measures together. When a thread of a node makes its first read or write, all
  threads of the node are there with all their files open, and as many nodes as it waits for have been counted in the directory;
  the thread itself uses one of the handles it has opened.
\<close>

theorem measures_together:
  assumes "0 \<le> sint (thd_cnt args)" and "perf_run args shown (perf_start args) tr n"
    and "perf_step args shown (Worker i (Round now res k)) n = Some (out, n')"
  shows "int (length (workers n)) = sint (thd_cnt args) \<and> list_all arrived (workers n) \<and>
    list_all handles_ok (workers n) \<and> node_cnt args \<in> file_count ` set (counted tr) \<and>
    (\<exists>fhs deadline. workers n ! i = Measuring fhs deadline \<and> k < length fhs \<and>
       out = [op_call (thread_op (write_ratio args) shown ((!) fhs) (res, k))])"
proof -
  have inv: "perf_inv args n" using ops_counted_run [OF assms(1,2)] by simp
  obtain fhs deadline where w: "i < length (workers n)" "workers n ! i = Measuring fhs deadline"
      "int k \<le> sint num_file - 1" "out = [op_call (thread_op (write_ratio args) shown ((!) fhs) (res, k))]"
    using assms(3) by (auto split: if_splits elim: worker_step.elims)
  have "handles_ok (workers n ! i)" using inv w(1) by (simp add: perf_inv_def list_all_length)
  then have "k < length fhs" using w(2,3) by (simp add: thread_opens_length num_file_def)
  moreover have "all_node_ready n = 0"
  proof (rule ccontr)
    assume "all_node_ready n \<noteq> 0"
    then have "(Not \<circ> begun) (workers n ! i)" using inv w(1) by (auto simp: perf_inv_def list_all_length)
    then show False using w(2) by simp
  qed
  then have "8 \<le> rank (main_at n)" using inv by (auto simp: perf_inv_def split: if_splits)
  ultimately show ?thesis using inv w has_counted_run [OF assms(2)] by (auto simp: perf_inv_def has_counted_def)
qed


text \<open>The sums that are printed are the numbers of the reads and writes that the threads have made.\<close>

lemma report_counts_calls:
  assumes "0 \<le> sint (thd_cnt args)" and "perf_run args shown (perf_start args) tr n" and "main_at n = Reports"
  shows "perf_step args shown MainGoes n = Some ([Prints (''sum_read_ops='' @ to_string (of_nat (length (filter made_read tr))) @
    '', sum_write_ops='' @ to_string (of_nat (length (filter made_write tr))) @ [newline])], n\<lparr>main_at := Exits\<rparr>)"
  using ops_counted_run [OF assms(1,2)] assms(3) by (simp add: ops_counted_def perf_report_def)

text \<open>
  The deletion of its own file is an event of the directory for the node itself. The callback that this starts may
  still be running when the main function has returned, and it uses the client, the mutex and the
  condition variable of the main function.
\<close>

lemma callback_outlives_main:
  assumes "main_at n = Deletes"
  shows "\<exists>n'. perf_run args shown n [(EventArrives, []), (MainGoes, [Deletes_file (main_deletes (mynodefh n))]),
      (MainGoes, [Prints (perf_report n)])] n' \<and> main_at n' = Exits \<and> callbacks_running n' \<noteq> 0"
proof -
  let ?n1 = "n\<lparr>callbacks_running := callbacks_running n + 1\<rparr>"
  let ?step = "\<lambda>n (ev, out) n'. perf_step args shown ev n = Some (out, n')"
  have rep: "perf_report (n\<lparr>callbacks_running := k, main_at := Reports\<rparr>) = perf_report n" for k
    by (simp add: perf_report_def sum_read_ops_def sum_write_ops_def)
  have "perf_run args shown n [(EventArrives, []), (MainGoes, [Deletes_file (main_deletes (mynodefh n))]),
      (MainGoes, [Prints (perf_report n)])] (?n1\<lparr>main_at := Reports, main_at := Exits\<rparr>)"
    by (rule steps_cons [where step = ?step and ?x1.0 = ?n1], simp add: assms,
        rule steps_cons [where step = ?step and ?x1.0 = "?n1\<lparr>main_at := Reports\<rparr>"], simp add: assms,
        rule steps_single, simp add: rep)
  then show ?thesis by auto
qed

text \<open>A node that sleeps at the barrier whatever happens, unless a callback counts the nodes it waits for.\<close>

definition waits_for_ever :: "'d::linorder perf_args \<Rightarrow> ('d \<Rightarrow> string) \<Rightarrow> perf_node \<Rightarrow> bool" where
  "waits_for_ever args shown n \<longleftrightarrow>
     (\<forall>tr n'. perf_run args shown n tr n' \<longrightarrow> node_cnt args \<in> file_count ` set (counted tr) \<or> main_at n' = Sleeps)"

lemma sleeps_at_barrier:
  "perf_run args shown n tr n' \<Longrightarrow> main_at n = Sleeps \<Longrightarrow> finished_node_cnt n \<noteq> Some (node_cnt args) \<Longrightarrow>
   node_cnt args \<notin> file_count ` set (counted tr) \<Longrightarrow> main_at n' = Sleeps \<and> finished_node_cnt n' \<noteq> Some (node_cnt args)"
proof (induction rule: steps.induct)
  case (steps_more tr n1 l n2)
  obtain ev out where l: "l = (ev, out)" by (cases l)
  have ih: "main_at n1 = Sleeps" "finished_node_cnt n1 \<noteq> Some (node_cnt args)" using steps_more by auto
  show ?case
  proof (cases ev)
    case (Worker i wev)
    then show ?thesis using steps_more.hyps(2) ih l worker_step_frame [of args shown i "workers n1 ! i" wev n1] by (auto split: if_splits)
  qed (use steps_more ih l in \<open>auto simp: barrier_test_def perf_callback_def split: if_splits\<close>)
qed simp

text \<open>
  C36: a slow node of the performance client can be left behind. A node that comes to count the nodes when their number is no
  longer, or not yet, the one it waits for sleeps until a callback counts that number. Nodes delete
  their file when they have measured, so that the number need never come back: with two nodes, the first one counts both, measures and leaves before
  the second one counts, which then waits for ever, and all its threads with it.
\<close>

theorem late_node_waits_for_ever:
  assumes "0 \<le> sint (thd_cnt args)" and "file_count c \<noteq> node_cnt args" and "file_count c' = node_cnt args"
  shows "\<exists>tr n. perf_run args shown (perf_start args) tr n \<and> counted tr = [c] \<and> list_all (Not \<circ> begun) (workers n) \<and>
    waits_for_ever args shown n"
proof -
  have "rank (main_at (perf_start args)) \<le> 5" by (simp add: perf_start_def)
  then obtain tr n where n: "perf_run args shown (perf_start args) tr n" "main_at n = Counts" "counted tr = []"
    using perf_can_count [OF perf_inv_start [OF assms(1)] _ assms(3), of shown] by blast
  let ?n = "n\<lparr>finished_node_cnt := Some (file_count c), main_at := Sleeps\<rparr>"
  let ?l = "(MainCounted c, [Reads (SkinnyClient_GetContent (clientdirfh n))])"
  have run: "perf_run args shown (perf_start args) (tr @ [?l]) ?n"
    by (rule steps_more [OF n(1)]) (use n(2) assms(2) in \<open>simp add: barrier_test_def\<close>)
  have "perf_inv args ?n" using ops_counted_run [OF assms(1) run] by simp
  then have "list_all (Not \<circ> begun) (workers ?n)" by (simp add: perf_inv_def)
  moreover have "waits_for_ever args shown ?n" unfolding waits_for_ever_def using sleeps_at_barrier [of args shown ?n] assms(2) by auto
  ultimately show ?thesis using run n(3) by (intro exI [of _ "tr @ [?l]"] exI [of _ ?n]) simp
qed

text \<open>Two nodes, with one thread each: both files are there, and then the first node has left.\<close>

definition two_nodes :: "action list" where
  "two_nodes = [StartSessionAction, OpenAction 0 dirname 1 0, OpenAction 0 clientdir 1 0, OpenAction 0 (node_path 0) 0 0,
     StartSessionAction, OpenAction 1 dirname 1 0, OpenAction 1 clientdir 1 0, OpenAction 1 (node_path 1) 0 0]"

definition second_node :: "nat perf_args" where
  "second_node = \<lparr>node_num = 1, node_cnt = 2, thd_cnt = 1, duration = 0, write_ratio = 1\<rparr>"

definition nodes_listed :: "action list \<Rightarrow> string" where
  "nodes_listed as = snd (the (ds (after_log as) clientdir))"

lemma nodes_listed: "file_count (nodes_listed two_nodes) = 2" "file_count (nodes_listed (two_nodes @ [DeleteAction 0 2])) = 1"
  by code_simp+

theorem late_node_waits_for_ever_witness:
  "\<exists>tr n. perf_run second_node (\<lambda>_. []) (perf_start second_node) tr n \<and>
     counted tr = [nodes_listed (two_nodes @ [DeleteAction 0 2])] \<and> file_count (nodes_listed two_nodes) = node_cnt second_node \<and>
     waits_for_ever second_node (\<lambda>_. []) n"
  using late_node_waits_for_ever [of second_node "nodes_listed (two_nodes @ [DeleteAction 0 2])" "nodes_listed two_nodes" "\<lambda>_. []"]
  by (auto simp: second_node_def nodes_listed)


theorem measures_together_witness:
  "\<exists>tr n out n'. perf_run second_node (\<lambda>_. []) (perf_start second_node) tr n \<and>
     perf_step second_node (\<lambda>_. []) (Worker 0 (Round 0 0 3)) n = Some (out, n') \<and>
     int (length (workers n)) = sint (thd_cnt second_node) \<and> node_cnt second_node \<in> file_count ` set (counted tr)"
proof -
  let ?a = second_node and ?h = "\<lambda>_ :: nat. []" and ?c = "nodes_listed two_nodes"
  have thd: "0 \<le> sint (thd_cnt ?a)" and r: "rank (main_at (perf_start ?a)) \<le> 5" and c: "file_count ?c = node_cnt ?a"
    by (simp_all add: second_node_def perf_start_def nodes_listed)
  obtain tr n where n: "perf_run ?a ?h (perf_start ?a) tr n" "main_at n = Counts"
    using perf_can_count [OF perf_inv_start [OF thd] r c] by blast
  have "perf_inv ?a n" using ops_counted_run [OF thd n(1)] by simp
  then have "length (workers n) = 1" "list_all arrived (workers n)" "list_all (Not \<circ> begun) (workers n)" "all_node_ready n = 1"
      "list_all handles_ok (workers n)"
    using n(2) by (auto simp: perf_inv_def second_node_def)
  then obtain fhs where w: "workers n = [Ready fhs]" "all_node_ready n = 1"
    by (cases "workers n"; cases "hd (workers n)") auto
  let ?n1 = "n\<lparr>finished_node_cnt := Some (file_count ?c), main_at := Releases\<rparr>"
  let ?n2 = "?n1\<lparr>main_at := Joins, all_node_ready := 0\<rparr>"
  let ?n3 = "?n2\<lparr>workers := [Measuring fhs 0]\<rparr>"
  have 1: "perf_run ?a ?h (perf_start ?a) (tr @ [(MainCounted ?c, [Reads (SkinnyClient_GetContent (clientdirfh n))])]) ?n1"
    by (rule steps_more [OF n(1)]) (use n(2) c in \<open>simp add: barrier_test_def\<close>)
  have 2: "perf_run ?a ?h (perf_start ?a)
      ((tr @ [(MainCounted ?c, [Reads (SkinnyClient_GetContent (clientdirfh n))])]) @ [(MainGoes, [])]) ?n2"
    by (rule steps_more [OF 1]) (use w in simp)
  have 3: "perf_run ?a ?h (perf_start ?a)
      (((tr @ [(MainCounted ?c, [Reads (SkinnyClient_GetContent (clientdirfh n))])]) @ [(MainGoes, [])]) @
        [(Worker 0 (Starts 0), [])]) ?n3"
    by (rule steps_more [OF 2]) (use w in \<open>simp add: second_node_def second_def\<close>)
  obtain out n' where s: "perf_step ?a ?h (Worker 0 (Round 0 0 3)) ?n3 = Some (out, n')"
    by (simp add: num_file_def)
  from measures_together [OF thd 3 s] show ?thesis using 3 s by blast
qed

end
