(* ===== verification/Client_Failures.thy ===== *)
theory Client_Failures
  imports Client_Api
begin

text \<open>
  What becomes of a client whose session the leader no longer knows, for example after it has expired. Its
  keep-alive thread ends, and nothing else ever sets \<open>has_conn_\<close> again, for which every call waits.
\<close>

text \<open>A call of the method is not answered: the client waits to be connected, before any attempt.\<close>

definition blocks :: "(client \<Rightarrow> 'a meth) \<Rightarrow> client \<Rightarrow> bool" where
  "blocks m c \<longleftrightarrow> (case m c of Local _ \<Rightarrow> False | Call _ _ \<Rightarrow> \<not> has_conn c)"

lemma blocks_call: "blocks m c \<Longrightarrow> call_at B e0 attempts m c s = None"
  by (auto simp: blocks_def call_at_def split: meth.splits)

text \<open>Everything the class offers that goes to the server.\<close>

definition all_block :: "client \<Rightarrow> bool" where
  "all_block c \<longleftrightarrow>
     (\<forall>path cb eph. blocks (SkinnyClient_Open path cb eph) c \<and> blocks (SkinnyClient_OpenDir path cb eph) c) \<and>
     (\<forall>fh. blocks (SkinnyClient_GetContent fh) c \<and> blocks (SkinnyClient_Release fh) c \<and> blocks (SkinnyClient_Close fh) c \<and>
        blocks (SkinnyClient_Delete fh) c) \<and>
     (\<forall>fh content. blocks (SkinnyClient_SetContent fh content) c) \<and>
     (\<forall>fh ex. blocks (SkinnyClient_TryAcquire fh ex) c \<and> blocks (SkinnyClient_Acquire fh ex) c)"

lemmas SkinnyClient_defs =
  SkinnyClient_Open_def SkinnyClient_OpenDir_def SkinnyClient_GetContent_def SkinnyClient_SetContent_def
  SkinnyClient_TryAcquire_def SkinnyClient_Acquire_def SkinnyClient_Release_def SkinnyClient_Close_def SkinnyClient_Delete_def
  impl_Open_def impl_GetContent_def impl_SetContent_def impl_TryAcquire_def impl_Acquire_def impl_Release_def
  impl_Close_def impl_Delete_def

lemma all_block_iff: "all_block c \<longleftrightarrow> \<not> has_conn c"
  by (auto simp: all_block_def blocks_def SkinnyClient_defs cached_content_def)

lemma ended_loop: "client_cancelled c \<Longrightarrow> keepalive_loop eid answers c = Inr ([], c)"
  by (cases answers) auto

text \<open>
  C14: a client that has lost its session hangs. When the leader does not know the session, it says so; the
  client's thread takes this as its end, whatever further answers there would be, and leaves the client disconnected:
  every method that asks the server blocks for ever, where \<open>InvokeRpc\<close> means to throw an exception, and
  the destructor does not end the session.
\<close>

theorem lost_session_blocks_client:
  assumes "is_leader R" and "session_of s (sid_of c) = None"
  shows "\<exists>st c'. KeepAlive R r (sid_of c) ack s = (Some st, s) \<and> rpc_outcome st = Throw \<and>
    client_keepalive st res c = Inr (None, c', None) \<and>
    (\<forall>answers. keepalive_loop None answers c' = Inr ([], c')) \<and>
    all_block c' \<and> fst (impl_destroy c') = None"
proof -
  let ?c' = "c\<lparr>has_conn := False, client_cancelled := True\<rparr>"
  have ka: "KeepAlive R r (sid_of c) ack s = (Some session_not_found_status, s)"
    using assms by (simp add: KeepAlive_def session_of_def)
  have th: "rpc_outcome session_not_found_status = Throw"
    by (simp add: rpc_outcome_def session_not_found_status_def is_ok_def CANCELLED_def)
  have cl: "client_keepalive session_not_found_status res c = Inr (None, ?c', None)"
  proof (cases "client_cancelled c")
    case True
    then have "?c' = c\<lparr>has_conn := False\<rparr>" by (cases c) simp
    then show ?thesis using True
      by (simp add: client_keepalive_def session_not_found_status_def is_ok_def CANCELLED_def Let_def)
  qed (simp add: client_keepalive_def session_not_found_status_def is_ok_def CANCELLED_def Let_def)
  show ?thesis
    by (rule exI [of _ session_not_found_status], rule exI [of _ ?c'])
      (simp add: ka th cl ended_loop all_block_iff impl_destroy_def)
qed

theorem lost_session_blocks_client_witness:
  "\<exists>st c'. KeepAlive (leader_raft le_buf) 0 9 (Some 5) (srv demo_sys) = (Some st, srv demo_sys) \<and>
     client_keepalive st \<lparr>event_fh = None, event_num = 0\<rparr> (demo_client 9) = Inr (None, c', None) \<and> all_block c'"
proof -
  have 1: "is_leader (leader_raft le_buf)" by (simp add: leader_raft_def)
  have "sid_of (demo_client 9) = 9" by (simp add: sid_of_def demo_client_def int64_of_int_def)
  moreover have "session_of (srv demo_sys) 9 = None" by code_simp
  ultimately have 2: "session_of (srv demo_sys) (sid_of (demo_client 9)) = None" by simp
  show ?thesis
    using lost_session_blocks_client [OF 1 2, of 0 "Some 5" "\<lparr>event_fh = None, event_num = 0\<rparr>"]
      \<open>sid_of (demo_client 9) = 9\<close> by auto
qed

end
