(* ===== verification/Ephemeral.thy ===== *)
theory Ephemeral
  imports SM_Properties
begin

text \<open>
  The locks of ephemeral files. A session that ends as the last subscriber of an ephemeral file removes the file, and
  \<open>release_lock\<close> refuses to release the lock of a file that is not there: the lock stays with the number of
  the session, which is not given out again.
\<close>

section \<open>The end of the session\<close>

definition doomed :: "i32 \<Rightarrow> string \<Rightarrow> sm_state \<Rightarrow> bool" where
  "doomed sid p s \<longleftrightarrow> (\<forall>m c. ds s p = Some (m, c) \<longrightarrow> file_exists m \<longrightarrow>
     is_ephemeral m = Some True \<and> (\<exists>g. subscribers m = [(sid, g)]))"

lemma doomed_removed: "ds s p = Some (m, c) \<Longrightarrow> \<not> file_exists m \<Longrightarrow> doomed sid p s"
  by (simp add: doomed_def)

lemma doomed_set_content:
  "ds s q = Some (m, c) \<Longrightarrow> doomed sid p (set_file q (m, c') s) = doomed sid p s"
  by (auto simp: doomed_def)

lemma drop_subscriber_doomed:
  assumes dr: "drop_subscriber sid key s = Inr (ret, s')" and ok: "doomed sid p s"
  shows "doomed sid p s'" and "key = p \<Longrightarrow> \<not> exists_file s' p"
proof -
  obtain m c where m: "ds s key = Some (m, c)" using dr by (auto simp: drop_subscriber_def result_simps)
  define m1 where "m1 = m\<lparr>subscribers := AList.delete sid (subscribers m)\<rparr>"
  have k: "file_exists m \<Longrightarrow> key = p \<Longrightarrow> is_ephemeral m = Some True \<and> subscribed m sid \<noteq> None \<and> subscribers m1 = []"
    using ok m by (auto simp: doomed_def m1_def subscribed_def)
  have "doomed sid p s' \<and> (key = p \<longrightarrow> \<not> exists_file s' p)"
    using dr m m1_def
  proof (cases rule: drop_subscriber_cases)
    case unsubscribed
    then show ?thesis using ok k m by (auto simp: exists_file_def)
  next
    case kept
    then show ?thesis using ok k m by (auto simp: exists_file_def doomed_def m1_def)
  next
    case (removed pm pc)
    then show ?thesis using ok by (auto simp: exists_file_def doomed_def)
  next
    case (unlisted pm pc pc')
    have "doomed sid p (set_file key (m1\<lparr>file_exists := False\<rparr>, c) s)" using ok by (auto simp: doomed_def)
    then show ?thesis using unlisted(4) doomed_set_content [OF unlisted(4)] unfolding unlisted(7)
      by (auto simp: exists_file_def split: if_splits)
  qed
  then show "doomed sid p s'" and "key = p \<Longrightarrow> \<not> exists_file s' p" by simp_all
qed

lemma release_lock_doomed:
  assumes "release_lock j fh s = Inr (rc, s')" and "doomed sid p s"
  shows "doomed sid p s'"
  using assms by (auto simp: release_lock_def meta_release_def doomed_def result_simps split: option.splits if_splits)

text \<open>No handle of the session to the file is closed.\<close>

definition opens_all :: "string \<Rightarrow> nat list \<Rightarrow> entry \<Rightarrow> bool" where
  "opens_all p is e \<longleftrightarrow> (\<forall>i \<in> set is. i < length (entry_v e) \<longrightarrow> entry_v e ! i = p \<longrightarrow> entry_inum e ! i \<noteq> -1)"

lemma close_step_doomed:
  assumes cl: "close_file_delete_ephermeral sid e (of_nat i) s = Inr (ret, e1, s1)" and ok: "doomed sid p s"
    and e: "find_session sid (sdb s) = Some e" and id: "entry_id e = sid" and op: "opens_all p (i # is) e"
    and i: "i < length (entry_v e)" and len: "length (entry_inum e) = length (entry_v e)" "length (entry_v e) < 2 ^ 31"
    and d: "distinct (i # is)"
  shows "doomed sid p s1 \<and> find_session sid (sdb s1) = Some e1 \<and> entry_id e1 = sid \<and> entry_v e1 = entry_v e \<and>
    length (entry_inum e1) = length (entry_inum e) \<and> opens_all p is e1 \<and> (entry_v e ! i = p \<longrightarrow> \<not> exists_file s1 p)"
proof -
  have ri: "in_range (entry_v e) (of_nat i)" "in_range (entry_inum e) (of_nat i)" and ni: "nat (sint (of_nat i :: i32)) = i"
    using i len by (auto intro!: in_range_of_nat simp: sint_of_nat32)
  then have inum: "handle_inum (of_nat i) e = Inr (entry_inum e ! i)" by (simp add: handle_inum_def vec_at_Inr_iff)
  show ?thesis
  proof (cases "entry_inum e ! i = -1")
    case True
    then have "ret = None" "e1 = e" "s1 = s" using cl inum by (simp_all add: close_file_delete_ephermeral_def)
    then show ?thesis using True ok e id op i by (auto simp: opens_all_def)
  next
    case False
    obtain key where c: "close_handle (of_nat i) e = Inr e1" and key: "fh_to_key (of_nat i) e1 = Inr key"
      and dr: "drop_subscriber (entry_id e1) key (set_session sid e1 s) = Inr (ret, s1)"
      using cl inum False by (auto simp: close_file_delete_ephermeral_def result_simps)
    note fr = close_handle_frame [OF c]
    have k: "key = entry_v e ! i" using key fr ri ni by (auto simp: fh_to_key_def vec_at_Inr_iff)
    have "entry_inum e1 = (entry_inum e)[i := -1]" using c ni by (auto simp: close_handle_def result_simps)
    moreover have "j \<noteq> i" if "j \<in> set is" for j using that d by auto
    ultimately have "entry_inum e1 ! j = entry_inum e ! j" if "j \<in> set is" for j using that by (metis nth_list_update_neq)
    then have "opens_all p is e1" using op fr by (auto simp: opens_all_def)
    moreover have "doomed sid p (set_session sid e1 s)" using ok by (simp add: doomed_def)
    moreover have "find_session sid (sdb s1) = Some e1" using drop_subscriber_sdb [OF dr] by (simp add: find_put_session)
    ultimately show ?thesis using drop_subscriber_doomed [OF dr [unfolded fr [THEN conjunct2, THEN conjunct1] id]] fr id k by auto
  qed
qed

lemma end_session_loop_doomed:
  "end_session_loop sid is e ps sz s = Inr (ps', sz', s') \<Longrightarrow> excl s p sid \<Longrightarrow> doomed sid p s \<Longrightarrow>
   find_session sid (sdb s) = Some e \<Longrightarrow> entry_id e = sid \<Longrightarrow> opens_all p is e \<Longrightarrow> \<forall>i \<in> set is. i < length (entry_v e) \<Longrightarrow>
   length (entry_inum e) = length (entry_v e) \<Longrightarrow> length (entry_v e) < 2 ^ 31 \<Longrightarrow> distinct is \<Longrightarrow> excl s' p sid"
proof (induction "is" arbitrary: e ps sz s)
  case (Cons i "is")
  obtain ret e1 s1 rc s2 ps1 sz1 where
      cl: "close_file_delete_ephermeral sid e (of_nat i) s = Inr (ret, e1, s1)"
    and rl: "release_lock sid (of_nat i) s1 = Inr (rc, s2)"
    and lp: "end_session_loop sid is e1 ps1 sz1 s2 = Inr (ps', sz', s')"
    using Cons.prems(1) by (auto simp: result_simps Let_def)
  have i: "i < length (entry_v e)" using Cons.prems(7) by simp
  from close_step_doomed [OF cl Cons.prems(3,4,5,6) i Cons.prems(8,9,10)]
  have c: "doomed sid p s1" "find_session sid (sdb s1) = Some e1" "entry_id e1 = sid" "entry_v e1 = entry_v e"
    "length (entry_inum e1) = length (entry_inum e)" "opens_all p is e1" "entry_v e ! i = p \<Longrightarrow> \<not> exists_file s1 p" by auto
  have ex1: "excl s1 p sid" using close_file_excl [OF cl Cons.prems(2)] .
  have "nat (sint (of_nat i :: i32)) = i" using i Cons.prems(9) by (simp add: sint_of_nat32)
  then have key: "fh_to_key (of_nat i) e1 = Inr q \<Longrightarrow> q = entry_v e ! i" for q using c(4) by (auto simp: fh_to_key_def vec_at_Inr_iff)
  have sdb: "sdb s2 = sdb s1" using rl by (auto simp: release_lock_def Let_def result_simps split: option.splits if_splits prod.splits)
  have "excl s2 p sid"
  proof (cases "entry_v e ! i = p")
    case True
    then have "s2 = s1" using rl c(2,7) key
      by (auto simp: release_lock_def exists_file_def Let_def result_simps split: if_splits prod.splits)
    then show ?thesis using ex1 by simp
  next
    case False
    then have "\<not> (\<exists>e2. find_session sid (sdb s1) = Some e2 \<and> fh_to_key (of_nat i) e2 = Inr p)" using c(2) key by auto
    then show ?thesis using release_lock_excl [OF rl ex1] by blast
  qed
  then show ?case
    using Cons.IH [OF lp _ release_lock_doomed [OF rl c(1)]] sdb c Cons.prems(7-10) by simp
qed simp

lemma end_session_keeps_excl:
  assumes inv: "sm_inv n s" and n: "n < 2 ^ 31" and e: "find_session (int_of_int64 x) (sdb s) = Some e"
    and ap: "apply_end_session x s = Inr (r, s')" and ex: "excl s p (int_of_int64 x)" and d: "doomed (int_of_int64 x) p s"
    and op: "opens_all p [0..<length (entry_v e)] e"
  shows "excl s' p (int_of_int64 x)"
proof -
  obtain parents sz s1 where lp: "end_session_loop (int_of_int64 x) [0..<length (entry_v e)] e [] 18 s = Inr (parents, sz, s1)"
    and s': "s' = s1\<lparr>sdb := sdb s'\<rparr>"
    by (rule end_session_state [OF inv n e ap]) metis
  have ok: "entry_ok n (int_of_int64 x) e" using sm_inv_entry [OF inv e] .
  then have "excl s1 p (int_of_int64 x)" using end_session_loop_doomed [OF lp ex d e _ op] n by (simp add: entry_ok_def)
  moreover have "ds s' = ds s1" using s' by (metis sm_state.select_convs(1) sm_state.surjective sm_state.update_convs(2))
  ultimately show ?thesis by (simp add: excl_def)
qed

section \<open>Afterwards\<close>

fun deletes :: "sm_state \<Rightarrow> string \<Rightarrow> action \<Rightarrow> bool" where
  "deletes s p (DeleteAction x fh) = resolves s x fh p"
| "deletes s p _ = False"

fun undeleted :: "string \<Rightarrow> action list \<Rightarrow> sm_state \<Rightarrow> bool" where
  "undeleted p [] s = True"
| "undeleted p (a # as) s =
     (\<not> deletes s p a \<and> (case apply_action a s of Inr (_, s1) \<Rightarrow> undeleted p as s1 | Inl _ \<Rightarrow> True))"

lemma gone_session_disturbs:
  assumes "find_session sid (sdb s) = None" and "disturbs s sid p a" and "apply_action a s = Inr (r, s')"
  shows "deletes s p a \<or> s' = s"
  using assms by (cases a) (auto simp: resolves_def apply_end_session_def)

lemma run_log_gone:
  "sm_inv n s \<Longrightarrow> n + length as < 2 ^ 31 \<Longrightarrow> run_log as s = Inr (rs, s') \<Longrightarrow> find_session sid (sdb s) = None \<Longrightarrow>
   unat sid < unat (next_id (sdb s)) \<Longrightarrow> excl s p sid \<Longrightarrow> undeleted p as s \<Longrightarrow> find_session sid (sdb s') = None \<and> excl s' p sid"
proof (induction as arbitrary: n s rs)
  case (Cons a as)
  obtain r s1 rs1 where 1: "apply_action a s = Inr (r, s1)" "run_log as s1 = Inr (rs1, s')"
    using Cons.prems(3) by (auto simp: result_simps)
  have n: "n < 2 ^ 31 - 1" "Suc n + length as < 2 ^ 31" using Cons.prems(2) by simp_all
  have "db_evolves (sdb s) (sdb s1)" using apply_action_evolves [OF Cons.prems(1) n(1) 1(1)] by (simp add: evolves_def)
  then have "unat sid < unat (next_id (sdb s1))" "find_session sid (sdb s1) = None"
    using Cons.prems(4,5) by (auto simp: db_evolves_def)
  moreover have "excl s1 p sid"
    using gone_session_disturbs [OF Cons.prems(4) _ 1(1)] apply_action_excl [OF Cons.prems(6) 1(1)] Cons.prems(6,7) by auto
  ultimately show ?case
    using Cons.IH [OF apply_action_inv [OF Cons.prems(1) n(1) 1(1)] n(2) 1(2)] Cons.prems(7) 1(1) by simp
qed simp


definition owned_log :: "action list" where
  "owned_log = [StartSessionAction, StartSessionAction, OpenAction 0 ''/e'' 0 1, AcqAction 0 0 1]"

definition reopened_log :: "action list" where
  "reopened_log = owned_log @ EndSessionAction 0 # [OpenAction 1 ''/e'' 0 1]"


end
