(* ===== verification/Codegen.thy ===== *)
theory Codegen
  imports Wire Raft
begin

text \<open>
  The generator of the log entry types (\<open>codegen.cpp\<close>), as the text it prints: the types of a
  message's fields (\<open>Type::factory\<close>), one struct per message (\<open>gen_code\<close>) and the
  whole file (\<open>main\<close>). The parser of proto files is a library; a parsed file is a list of
  messages with their fields, as \<open>raft_proto\<close> of theory \<open>Wire\<close>.

  The second part reads the printed serializer calls back: executing the calls that
  \<open>gen_code\<close> prints, by the name of the serializer function, is what \<open>Wire\<close> takes the
  generated structs to do.
\<close>

record base_type =
  type_name :: string
  field_name :: string
  nuname :: string
  is_string_type :: bool

definition factory :: "proto_type \<Rightarrow> string \<Rightarrow> base_type result" where
  "factory t name =
     (case t of
        TYPE_INT64 \<Rightarrow> Inr \<lparr>type_name = ''int64_t'', field_name = name, nuname = ''i64'', is_string_type = False\<rparr>
      | TYPE_INT32 \<Rightarrow> Inr \<lparr>type_name = ''int32_t'', field_name = name, nuname = ''i32'', is_string_type = False\<rparr>
      | TYPE_STRING \<Rightarrow> Inr \<lparr>type_name = ''std::string'', field_name = name, nuname = ''str'', is_string_type = True\<rparr>
      | TYPE_OTHER \<Rightarrow> Inl Terminated)"

definition gen_decl :: "base_type \<Rightarrow> string" where
  "gen_decl b = type_name b @ '' '' @ field_name b"

definition gen_size :: "base_type \<Rightarrow> string" where
  "gen_size b =
     (if is_string_type b then ''sizeof('' @ field_name b @ ''.size()) + '' @ field_name b @ ''.size()''
      else ''sizeof('' @ type_name b @ '')'')"

definition nl :: string where
  "nl = [CHR 0x0A]"

definition line :: "string \<Rightarrow> string" where
  "line s = s @ nl"

fun commas :: "string list \<Rightarrow> string" where
  "commas [] = []"
| "commas [x] = x"
| "commas (x # y # xs) = x @ '','' @ commas (y # xs)"

text \<open>The calls of the serializer that are printed for a field.\<close>

definition gen_get :: "base_type \<Rightarrow> string" where
  "gen_get f = field_name f @ '' = bs.get_'' @ nuname f @ ''();''"

definition gen_put :: "base_type \<Rightarrow> string" where
  "gen_put f = ''bs.put_'' @ nuname f @ ''('' @ field_name f @ '');''"

definition gen_code :: "string \<Rightarrow> base_type list \<Rightarrow> string" where
  "gen_code name flds =
     (let action = ends_with name ''Action'' in
      line (''struct '' @ name @ '' {'') @
      (if action then ''const static ActionName action_name = ActionName::'' @ name @ '';'' else []) @
      concat (map (\<lambda>f. line (gen_decl f @ '';'')) flds) @
      line (name @ ''() {}'') @
      (if flds \<noteq> [] then
         name @ ''('' @ commas (map gen_decl flds) @ '')'' @ '':'' @
         commas (map (\<lambda>f. field_name f @ ''('' @ field_name f @ '')'') flds) @ line ''{}''
       else []) @
      line ''template <typename T>'' @
      line (name @ ''(const T* t) {'') @
      concat (map (\<lambda>f. line (field_name f @ '' = t->'' @ field_name f @ ''();'')) flds) @
      line ''}'' @
      line (name @ ''(nuraft::buffer &data) {'') @
      line ''nuraft::buffer_serializer bs(data);'' @
      (if action then
         line ''auto action_num = bs.get_i8();'' @
         line ''assert(action_num == static_cast<int8_t>(action_name));''
       else []) @
      concat (map (\<lambda>f. line (gen_get f)) flds) @
      line ''}'' @
      line ''nuraft::ptr<nuraft::buffer> serialize() const {'' @
      (if action then ''nuraft::ptr<nuraft::buffer> buf = nuraft::buffer::alloc(sizeof(int8_t)''
       else ''nuraft::ptr<nuraft::buffer> buf = nuraft::buffer::alloc(0'') @
      concat (map (\<lambda>f. ''+'' @ gen_size f) flds) @
      line '');'' @
      line ''nuraft::buffer_serializer bs(buf);'' @
      (if action then line ''bs.put_u8(static_cast<uint8_t>(action_name));'' else []) @
      concat (map (\<lambda>f. line (gen_put f)) flds) @
      line ''return buf;'' @
      line (''}};'' @ nl))"

fun build_fields :: "(string \<times> proto_type) list \<Rightarrow> base_type list result" where
  "build_fields [] = Inr []"
| "build_fields ((name, t) # fs) =
     bindE (factory t name) (\<lambda>b. bindE (build_fields fs) (\<lambda>bs. Inr (b # bs)))"

fun gen_structs :: "(string \<times> (string \<times> proto_type) list) list \<Rightarrow> string result" where
  "gen_structs [] = Inr []"
| "gen_structs ((name, fs) # msgs) =
     bindE (build_fields fs) (\<lambda>flds.
     bindE (gen_structs msgs) (\<lambda>rest. Inr (gen_code name flds @ rest)))"

definition file_head :: string where
  "file_head = line ''#include <cstdint>'' @ line ''#include <memory>'' @ line ''#include <string>'' @
     line ''#include <variant>'' @ nl @ line ''#include \"libnuraft/buffer.hxx\"'' @
     line ''#include \"libnuraft/buffer_serializer.hxx\"'' @ line ''#include \"libnuraft/nuraft.hxx\"'' @ nl @
     line ''namespace action {'' @ nl @ nl"

definition gen_dispatch :: "string list \<Rightarrow> string" where
  "gen_dispatch actions =
     ''std::variant<'' @ commas actions @
     line ''> create_action_from_buf(nuraft::buffer &data) {'' @
     line ''nuraft::buffer_serializer bs(data);'' @
     line ''switch (static_cast<ActionName>(bs.get_i8())) {'' @
     concat (map (\<lambda>s. line (''case ActionName::'' @ s @ '':'') @ ''return '' @ s @ ''(data);'') actions) @
     line (''default:'' @ nl @ ''assert(0);'' @ nl @ ''std::terminate();'' @ nl @ ''}}};'')"

text \<open>\<open>main\<close>: a message with a field of an unknown type ends the generator.\<close>

definition codegen_main :: "(string \<times> (string \<times> proto_type) list) list \<Rightarrow> string result" where
  "codegen_main file =
     (let actions = filter (\<lambda>n. ends_with n ''Action'') (map fst file) in
      bindE (gen_structs file) (\<lambda>structs.
      Inr (file_head @ ''enum class ActionName { '' @ commas actions @ line ''};'' @
           structs @ gen_dispatch actions)))"

text \<open>
  What the parser reports while it reads the file is printed as well, to the same output, between the head and
  the rest; without a file the generator ends there. The parser and its reports are parameters.
\<close>

definition AddError :: "string \<Rightarrow> i32 \<Rightarrow> i32 \<Rightarrow> string \<Rightarrow> string" where
  "AddError fname line_no column message =
     line (fname @ '' '' @ to_string line_no @ '' '' @ to_string column @ '' '' @ message)"

definition AddWarning :: "string \<Rightarrow> i32 \<Rightarrow> i32 \<Rightarrow> string \<Rightarrow> string" where
  "AddWarning fname line_no column message =
     line (fname @ '' '' @ to_string line_no @ '' '' @ to_string column @ '' '' @ message)"

definition codegen_output :: "(i32 \<times> i32 \<times> string) list \<Rightarrow> (string \<times> (string \<times> proto_type) list) list option \<Rightarrow>
    string result" where
  "codegen_output warnings file =
     (case file of
        None \<Rightarrow> Inl Assert_failed
      | Some msgs \<Rightarrow>
          (let actions = filter (\<lambda>n. ends_with n ''Action'') (map fst msgs) in
           bindE (gen_structs msgs) (\<lambda>structs.
           Inr (file_head @ concat (map (\<lambda>(l, c, m). AddWarning ''file'' l c m) warnings) @
                ''enum class ActionName { '' @ commas actions @ line ''};'' @ structs @ gen_dispatch actions))))"

lemma codegen_output_silent: "codegen_output [] (Some msgs) = codegen_main msgs"
  by (simp add: codegen_output_def codegen_main_def)

section \<open>What the printed calls do\<close>

text \<open>
  \<open>put_x\<close> and \<open>get_x\<close> of the serializer by the name in the printed call; a value
  of another type than the call's does not compile (\<open>Terminated\<close>).
\<close>

fun exec_put :: "buf_api \<Rightarrow> base_type \<Rightarrow> fval \<Rightarrow> byte list result" where
  "exec_put B f (VI64 x) = (if nuname f = ''i64'' then Inr (put_i64 B x) else Inl Terminated)"
| "exec_put B f (VI32 x) = (if nuname f = ''i32'' then Inr (put_i32 B x) else Inl Terminated)"
| "exec_put B f (VStr s) = (if nuname f = ''str'' then Inr (put_str B s) else Inl Terminated)"

definition exec_get :: "buf_api \<Rightarrow> base_type \<Rightarrow> byte list \<Rightarrow> (fval \<times> byte list) result" where
  "exec_get B f bs =
     (if nuname f = ''i64'' then bindE (read_buffer (get_i64 B bs)) (\<lambda>(x, r). Inr (VI64 x, r))
      else if nuname f = ''i32'' then bindE (read_buffer (get_i32 B bs)) (\<lambda>(x, r). Inr (VI32 x, r))
      else if nuname f = ''str'' then bindE (read_buffer (get_str B bs)) (\<lambda>(s, r). Inr (VStr s, r))
      else Inl Terminated)"

text \<open>The value of the printed size expression.\<close>

fun exec_size :: "base_type \<Rightarrow> fval \<Rightarrow> nat result" where
  "exec_size f (VStr s) =
     (if gen_size f = ''sizeof('' @ field_name f @ ''.size()) + '' @ field_name f @ ''.size()''
      then Inr (8 + length s) else Inl Terminated)"
| "exec_size f _ =
     (if gen_size f = ''sizeof(int64_t)'' then Inr 8
      else if gen_size f = ''sizeof(int32_t)'' then Inr 4 else Inl Terminated)"

fun exec_puts :: "buf_api \<Rightarrow> base_type list \<Rightarrow> fval list \<Rightarrow> (nat \<times> byte list) result" where
  "exec_puts B [] [] = Inr (0, [])"
| "exec_puts B (f # fs) (v # vs) =
     bindE (exec_size f v) (\<lambda>n.
     bindE (exec_put B f v) (\<lambda>bs.
     bindE (exec_puts B fs vs) (\<lambda>(m, cs). Inr (n + m, bs @ cs))))"
| "exec_puts B _ _ = Inl Terminated"

fun exec_gets :: "buf_api \<Rightarrow> base_type list \<Rightarrow> byte list \<Rightarrow> (fval list \<times> byte list) result" where
  "exec_gets B [] bs = Inr ([], bs)"
| "exec_gets B (f # fs) bs =
     bindE (exec_get B f bs) (\<lambda>(v, r).
     bindE (exec_gets B fs r) (\<lambda>(vs, r'). Inr (v # vs, r')))"

lemma factory_cases:
  assumes "factory t name = Inr f"
  obtains "t = TYPE_INT64" "nuname f = ''i64''" "gen_size f = ''sizeof(int64_t)''"
  | "t = TYPE_INT32" "nuname f = ''i32''" "gen_size f = ''sizeof(int32_t)''"
  | "t = TYPE_STRING" "nuname f = ''str''"
      "gen_size f = ''sizeof('' @ field_name f @ ''.size()) + '' @ field_name f @ ''.size()''"
  using assms by (cases t) (auto simp: factory_def gen_size_def)

lemma exec_field:
  assumes "factory t name = Inr f" and "type_of v = t"
  shows "exec_put B f v = Inr (put_field B v)" and "exec_size f v = Inr (field_size v)"
  using assms by (cases v; auto elim!: factory_cases)+

lemma exec_get_field: "factory t name = Inr f \<Longrightarrow> exec_get B f bs = get_field B t bs"
  by (auto elim!: factory_cases simp: exec_get_def)

lemma exec_puts_fields:
  "build_fields msg = Inr flds \<Longrightarrow> map type_of vs = map snd msg \<Longrightarrow>
   exec_puts B flds vs = Inr (sum_list (map field_size vs), put_fields B vs)"
proof (induction msg arbitrary: flds vs rule: build_fields.induct)
  case (2 name t fs)
  then obtain f fs' v vs' where "factory t name = Inr f" "build_fields fs = Inr fs'" "flds = f # fs'"
      "vs = v # vs'" "type_of v = t" "map type_of vs' = map snd fs"
    by (auto simp: result_simps map_eq_Cons_conv)
  then show ?case using 2(1) exec_field by simp
qed simp

lemma exec_gets_fields: "build_fields msg = Inr flds \<Longrightarrow> exec_gets B flds bs = get_fields B (map snd msg) bs"
proof (induction msg arbitrary: flds bs rule: build_fields.induct)
  case (2 name t fs)
  then obtain f fs' where "factory t name = Inr f" "build_fields fs = Inr fs'" "flds = f # fs'"
    by (auto simp: result_simps)
  then show ?case using 2(1) exec_get_field by simp
qed simp

section \<open>Properties\<close>



text \<open>
  The generator handles the program's proto file. It does not end early on \<open>raft.proto\<close>, and
  its output dispatches exactly on the eight messages whose names end in "Action", in file order.
\<close>

theorem codegen_accepts_raft_proto:
  "\<exists>structs. codegen_main raft_proto =
     Inr (file_head @ ''enum class ActionName { '' @ commas action_names @ line ''};'' @ structs @ gen_dispatch action_names)"
  by (simp add: codegen_main_def raft_proto_def action_names_def is_action_def ends_with_def suffix_def factory_def)

end
