(* ===== verification/Spec2Isabelle.thy ===== *)
theory Spec2Isabelle
  imports Lost_Answers Mutexes Wakeup Reelection Service_Calls Perf_Client Client_Failures Ephemeral Codegen
begin

text \<open>
  This library verifies Skinny, a lock and small-file service in the manner of Chubby: servers that
  replicate a file store and a session database with a Raft library, and a client library with a
  consistent cache. The sources are the C++ files under src/.

  \<^bold>\<open>The program and its parts.\<close> A client object (src/clientlib.cpp) starts a session on a server and
  keeps it alive with a thread of KeepAlive calls. A method of the client becomes an RPC to the leader
  (src/SkinnyImpl.cpp). A handler that changes something serializes an action (the classes that
  src/codegen.cpp generates from src/protos/raft.proto), appends it to the replicated log, and every replica's
  state machine (src/StateMachine.cpp) applies the committed action to the files (src/utils.h) and the sessions
  (src/Session.cpp). The leader then enqueues events in the keep-alive threads of the sessions that have the
  file open and waits for their acknowledgement, so that clients drop what they cached. src/server.cpp
  builds the state, ends expired sessions through the log and starts the threads of a new leader.

  \<^bold>\<open>The theories\<close>, in the order of their imports:
  \<^item> \<open>Prelude\<close>: 32- and 64-bit integers of the code as words, \<open>crash\<close> and \<open>'a result\<close> (an exception, a failed assertion,
    \<open>std::terminate\<close>, the read of a member that is not initialised), \<open>std::vector::at\<close>, \<open>std::map::at\<close>,
    \<open>std::string::find\<close> and \<open>erase\<close>. \<open>Paths\<close>: \<open>parent_path\<close> and \<open>filename\<close> of \<open>std::filesystem::path\<close>.
  \<^item> \<open>Runs\<close>: runs of a labelled step relation and their invariants (locale \<open>step_invariant\<close>), shared by all components whose threads
    or clients interleave.
  \<^item> \<open>Data_Store\<close> (src/utils.h): \<open>FileMetaData\<close> and the store; the lock operations on the metadata with the abstract
    reader/writer lock they implement (locale \<open>rw_lock\<close>, interpreted on them); directory listings.
  \<^item> \<open>KAThread\<close> and \<open>Session\<close> (src/Session.cpp): the keep-alive thread as a function per method and per wake-up,
    its interleavings as the step relation \<open>ka_step\<close>; \<open>Entry\<close> and \<open>Db\<close> (locale \<open>session_store\<close>).
  \<^item> \<open>Nuraft_Buffer\<close> and \<open>Wire\<close>: the buffers of the replication library as the parameter \<open>buf_api\<close> with the laws of the
    locale \<open>buffer_api\<close>; the layout, writing and reading of actions and replies as the generated classes do it.
    \<open>Codegen\<close> (src/codegen.cpp): the generator itself, from message descriptions to the printed C++.
  \<^item> \<open>State_Machine\<close> (src/StateMachine.cpp): each overload of \<open>apply_\<close> and \<open>commit\<close>, on every branch. About it:
    \<open>SM_Invariant\<close> (well-formedness of files, sessions and subscriptions), \<open>Replication\<close> (locale \<open>replica\<close>: replicas
    that differ in their threads only agree), \<open>SM_Behaviour\<close> (how files and handles evolve, deleted files), \<open>SM_Locks\<close>
    (refinement of the reader/writer lock), \<open>SM_Crash\<close> (exactly when an action brings the server down),
    \<open>SM_Effects\<close> (what each action changes), \<open>Commit\<close> (from bytes to bytes), and \<open>SM_Properties\<close>, the properties.
    \<open>SM_Replies\<close> gives each action the type of its reply; \<open>Ephemeral\<close> follows the locks of ephemeral files beyond the end of their owners; \<open>Directories\<close> proves that the content of a directory is
    the listing of its children; \<open>Service\<close> states what the store offers its clients as an abstract service of files, locks and
    handles (\<open>svc_step\<close>), and proves by a simulation that the state machine implements it; \<open>Service_Calls\<close> lifts this to the RPC
    handlers of a leader (\<open>svc_call\<close>, \<open>served\<close>), with the calls that wait for a lock.
  \<^item> \<open>Raft\<close>, \<open>Skinny_Impl\<close>, \<open>Skinny_Properties\<close> (src/SkinnyImpl.cpp): the replication library as the parameter \<open>raft_api\<close>
    (locale \<open>raft_library\<close>, interpreted on a leader without competition); each handler as a function to a crash
    or to a \<open>proc\<close> that has returned or waits for a condition; notification and locking on the leader.
  \<^item> \<open>Mutexes\<close>: the mutexes of the files, held by the lock handlers and by the thread that commits, and the deadlock between them.
    \<open>Condvar\<close>: a condition variable with the threads that wait on it, for any state and conditions (locale
    \<open>condition_variable\<close>: without notifications outside the mutex none is missed); \<open>Wakeup\<close> interprets it for the
    condition variable of a file, on which \<open>Acquire\<close> waits, and for that of the acknowledgements. \<open>Reelection\<close>: a server that becomes
    leader again, with the locks of the session database and of its threads.
  \<^item> \<open>Server\<close> (src/server.cpp: start state, expiry and leadership callbacks) and \<open>Startup\<close> (\<open>main\<close>, what
    \<open>init_grpc\<close> and \<open>init_raft\<close> start the libraries with, the addresses and the loop that adds the other servers); \<open>Client\<close> (src/clientlib.cpp: cache, callbacks, keep-alive, change of the server, retries) and
    \<open>Client_Api\<close> (its methods as calls that the leader's handlers serve, with answers that may get lost; the class and
    the Python module of src/pyclientlib.cpp). \<open>Client_Failures\<close>: the client whose session is gone. \<open>Demos\<close>: the example programs and the
    calls of the performance client; \<open>Perf_Client\<close>: its threads, latches, barrier and callbacks as a step function (\<open>perf_step\<close>).
  \<^item> \<open>System\<close>, \<open>Coherence\<close>, \<open>Races\<close>: leader, keep-alive threads and clients as one step relation \<open>sys_step\<close> over the
    operations above; the coherence of the clients' caches by an invariant; and the runs in which they are not coherent.
    \<open>Progress\<close>: a waiting write can always come to its end, and \<open>Lost_Answers\<close>: unless the answer with its event gets lost.

  \<^bold>\<open>How the state corresponds.\<close> \<open>sm_state\<close> is the members of \<open>StateMachine\<close>; a \<open>std::unordered_map\<close> is a map, or an
  association list where the code iterates over it (\<open>subscribers\<close>); the members of \<open>FileMetaData\<close> that the
  constructor leaves uninitialised are optional values. A shared session object is written back under its number
  at once. A handler's waiting is explicit in \<open>proc\<close>; theorems about waiting hold for every way in which
  the rest of the system may move meanwhile. \<open>event_id\<close> of a thread is uninitialised in the code, so its start value is
  an argument.

  \<^bold>\<open>What the theorems show.\<close> For the state machine: an invariant of all reachable states, determinism up to
  the leader's threads, refinement of an abstract reader/writer lock and of an abstract service, the exact effect of each action, exactly when
  a committed action crashes the server, and the round trip of actions and replies through the log. For the threads: events are
  delivered once and in order, waits end only by acknowledgement or expiry. For the handlers: a write
  notifies every subscriber before it returns, lock calls do what the lock allows, and a released lock
  wakes those who wait for it. For the whole: what a leader answers is what the abstract
  service answers, also after a change of the leader; caches
  are coherent, no client reads an old content after the write that replaced it has returned, also when answers
  get lost; no write is stuck as long as the clients it waits for are there and get their events; of two clients that try
  for a lock at most one believes that it has it. The performance client measures on all nodes together and comes to its end. Several theorems show where the code fails to do what it means to, in any state of the kind they describe, with a
  concrete log or run as the witness.

  \<^bold>\<open>Bounds.\<close> Theorems about logs assume fewer than 2^31 entries, so that no counter of 32 bits (handles, instance
  numbers, session numbers) wraps; theorems about events that no event counter passes 2^31 - 1, which
  depends on its uninitialised start value. Strings in an action or reply are shorter than 2^32, the range of
  a length field; the messages of the servers are at most \<open>INT_MAX\<close> bytes long (\<open>init_grpc\<close>), so that contents are. Nothing is bounded by fuel: the loops of the code that wait for the network (the client's
  retries, the search for the leader) are functions of the list of answers they get.

  \<^bold>\<open>Not modelled.\<close> The Raft protocol, gRPC and Protocol Buffers are libraries outside src/; they are parameters or,
  for gRPC, a call and its answer; how they are started is what \<open>init_grpc\<close> and \<open>init_raft\<close> give them. Joins of finished
  threads and logging output have no state of their own. Time is not measured: a
  timeout is an input of the wake-up it causes, as the readings of the clock and the drawn numbers are inputs of the steps of the
  performance client. The abstract service has no ephemeral files. The scripts and the Python tests are programs over the client library.
\<close>

section \<open>Properties across components\<close>

text \<open>
  C37: clients find the leader. A server that does not lead serves no read and keeps no session
  alive: both calls are answered NOT_LEADER with the leader's number, and the state is unchanged.
  The client repeats the read; its keep-alive thread stops serving from the cache and turns to the server
  named in the answer, or to the next one when none is known, without failing.
\<close>

theorem clients_find_the_leader:
  assumes "\<not> is_leader R" and "- 1 \<le> sint (get_leader R)" and "client_ok c"
  shows "\<exists>st c'. KeepAlive R r x ack s = (Some st, s) \<and> GetContent R x fh s = Inr (Return (st, []), s) \<and>
    rpc_outcome st = Retry \<and> client_keepalive st res c = Inr (None, c', None) \<and> client_ok c' \<and>
    (\<forall>g. cached_content g c' = None) \<and>
    cur_srv_id c' = (if get_leader R = -1 then (cur_srv_id c + 1) mod 5 else nat (sint (get_leader R)) mod 5)"
proof -
  let ?st = "\<lparr>error_code = code_of NOT_LEADER, error_message = to_string (get_leader R)\<rparr>"
  have ne: "to_string (get_leader R) \<noteq> session_not_found_str"
    using stoi_to_string [of "get_leader R"] by (auto simp: session_not_found_str_def stoi_def is_digit_def Let_def)
  have "rpc_outcome ?st = Retry" using ne by (simp add: rpc_outcome_def is_ok_def)
  moreover obtain c' where "client_keepalive ?st res c = Inr (None, c', None)" "client_ok c'" "\<not> has_conn c'"
      "cur_srv_id c' = (if get_leader R = -1 then (cur_srv_id c + 1) mod 5 else nat (sint (get_leader R)) mod 5)"
    using client_redirected [OF assms(2,3)] by metis
  ultimately show ?thesis using assms(1)
    by (intro exI [of _ ?st] exI [of _ c']) (simp add: KeepAlive_def GetContent_def reply_def cached_content_def)
qed

theorem clients_find_the_leader_witness:
  "\<exists>c'. client_keepalive \<lparr>error_code = 100, error_message = ''3''\<rparr> \<lparr>event_fh = None, event_num = 0\<rparr>
       \<lparr>client_session_id = 0, cur_srv_id = 4, channel = [], has_conn = True, client_cancelled = False,
         cache = [0 \<mapsto> ''x''], callbacks = Map.empty\<rparr> = Inr (None, c', None) \<and>
     cached_content 0 c' = None \<and> cur_srv_id c' = 3"
proof -
  let ?R = "\<lparr>append_entries = (\<lambda>bs s. Inr (\<lparr>get_accepted = False, get_result_code = RAFT_NOT_LEADER, result_buf = []\<rparr>, s)),
    is_leader = False, get_leader = 3\<rparr>"
  let ?c = "\<lparr>client_session_id = 0, cur_srv_id = 4, channel = [], has_conn = True, client_cancelled = False,
         cache = [0 \<mapsto> ''x''], callbacks = Map.empty\<rparr>"
  have "\<exists>st c'. KeepAlive ?R 0 0 None init_state = (Some st, init_state) \<and>
    GetContent ?R 0 0 init_state = Inr (Return (st, []), init_state) \<and>
    rpc_outcome st = Retry \<and> client_keepalive st \<lparr>event_fh = None, event_num = 0\<rparr> ?c = Inr (None, c', None) \<and> client_ok c' \<and>
    (\<forall>g. cached_content g c' = None) \<and>
    cur_srv_id c' = (if get_leader ?R = -1 then (cur_srv_id ?c + 1) mod 5 else nat (sint (get_leader ?R)) mod 5)"
    by (rule clients_find_the_leader) (simp_all add: client_ok_def)
  moreover have "to_string 3 = ''3''" by code_simp
  ultimately show ?thesis by (auto simp: KeepAlive_def)
qed

end
